(* ===== verification/Prelude.thy ===== *)
theory Prelude
  imports Main "HOL-Library.Word"
begin

text \<open>
  The shared vocabulary of the development: the machine types of the C++ sources, byte strings
  and NUL-terminated strings, bounded formatting (\<^verbatim>\<open>snprintf\<close>), decimal and hexadecimal
  printing, and the generic facts on lists, words and printing that the component theories use.

  A \<^verbatim>\<open>char\<close> of the sources is a HOL \<open>char\<close> (both have 256 values); a
  \<^verbatim>\<open>std::string\<close> is a HOL \<open>string\<close>. A \<^verbatim>\<open>char\<close> array is a list of its fixed
  length, and the C string it holds ends at the first NUL byte. An operation that would read or
  write outside an object returns \<open>None\<close>, so that memory safety is a statement of its own.
\<close>

unbundle bit_operations_syntax

type_synonym u8 = "8 word"
type_synonym u16 = "16 word"
type_synonym u32 = "32 word"
type_synonym u64 = "64 word"

named_theorems cstring_simps \<open>C strings in character arrays\<close>
named_theorems fmt_simps \<open>printing and bounded formatting\<close>

section \<open>Characters and C strings\<close>

abbreviation NUL :: char where
  "NUL \<equiv> CHR 0x00"

text \<open>The value of a plain \<^verbatim>\<open>char\<close>, which is signed on the x86 targets of the build.\<close>

definition schar :: "char \<Rightarrow> int" where
  "schar c = (if of_char c < (128 :: nat) then of_char c else of_char c - 256)"

text \<open>The byte a \<^verbatim>\<open>char\<close> holds, and the \<^verbatim>\<open>char\<close> that holds a byte.\<close>

definition byte_of :: "char \<Rightarrow> u8" where
  "byte_of c = word_of_nat (of_char c)"

definition char_of_byte :: "u8 \<Rightarrow> char" where
  "char_of_byte b = char_of (unat b)"

text \<open>
  The C string at the start of an array: the bytes before the first NUL; \<open>None\<close> when the
  array holds no NUL, where \<^verbatim>\<open>strlen\<close> and \<^verbatim>\<open>std::string(const char *)\<close> run off its end.
\<close>

definition cstr :: "char list \<Rightarrow> string option" where
  "cstr a = (if NUL \<in> set a then Some (takeWhile (\<lambda>c. c \<noteq> NUL) a) else None)"

text \<open>\<^verbatim>\<open>std::string::insert(pos, s)\<close>: it throws \<^verbatim>\<open>std::out_of_range\<close> when \<open>pos\<close> is past the end.\<close>

definition str_insert :: "nat \<Rightarrow> string \<Rightarrow> string \<Rightarrow> string option" where
  "str_insert pos s str = (if pos \<le> length str then Some (take pos str @ s @ drop pos str) else None)"

section \<open>Printing\<close>

definition digit_char :: "nat \<Rightarrow> char" where
  "digit_char d = char_of (48 + d)"

text \<open>The decimal digits of an unsigned number, as \<^verbatim>\<open>%u\<close> and \<^verbatim>\<open>operator<<\<close> print it.\<close>

fun dec :: "nat \<Rightarrow> string" where
  "dec n = (if n < 10 then [digit_char n] else dec (n div 10) @ [digit_char (n mod 10)])"

declare dec.simps [simp del]

text \<open>The same for a signed number (\<^verbatim>\<open>%d\<close>).\<close>

definition dec_int :: "int \<Rightarrow> string" where
  "dec_int i = (if i < 0 then CHR ''-'' # dec (nat (- i)) else dec (nat i))"

text \<open>One hexadecimal digit in lower case, and \<^verbatim>\<open>%02x\<close> of a byte.\<close>

definition hex_char :: "nat \<Rightarrow> char" where
  "hex_char d = (if d < 10 then char_of (48 + d) else char_of (87 + d))"

definition hex02 :: "u8 \<Rightarrow> string" where
  "hex02 b = [hex_char (unat b div 16), hex_char (unat b mod 16)]"

text \<open>
  What \<^verbatim>\<open>snprintf(buf, size, ...)\<close> leaves in a buffer of \<open>size\<close> bytes, as a C string: at
  most \<open>size - 1\<close> bytes of the formatted text.
\<close>

definition snprintf_str :: "nat \<Rightarrow> string \<Rightarrow> string" where
  "snprintf_str n s = take (n - 1) s"

section \<open>Generic lemmas\<close>

subsection \<open>Characters\<close>

lemma of_char_less_256 [simp]: "(of_char c :: nat) < 256"
  using nat_of_char_less_256 by simp

lemma unat_byte_of [simp]: "unat (byte_of c) = of_char c"
  by (simp add: byte_of_def unat_of_nat take_bit_nat_eq_self)

lemma byte_of_inject [simp]: "byte_of c = byte_of d \<longleftrightarrow> c = d"
  by (metis unat_byte_of of_char_eq_iff)

lemma char_of_byte_of [simp]: "char_of_byte (byte_of c) = c"
  by (simp add: char_of_byte_def)

lemma byte_of_char_of_byte [simp]: "byte_of (char_of_byte b) = b"
proof -
  have "unat b < 256" using unsigned_less [of b, where ?'a = nat] by simp
  then have "unat (byte_of (char_of_byte b)) = unat b"
    by (simp add: char_of_byte_def)
  then show ?thesis by (simp add: word_unat_eq_iff)
qed

lemma char_of_byte_inject [simp]: "char_of_byte a = char_of_byte b \<longleftrightarrow> a = b"
  by (metis byte_of_char_of_byte)

text \<open>The two comparisons of the sources that recognise a decimal digit.\<close>

definition is_digit :: "char \<Rightarrow> bool" where
  "is_digit c \<longleftrightarrow> 48 \<le> (of_char c :: nat) \<and> (of_char c :: nat) \<le> 57"

definition digit_val :: "char \<Rightarrow> nat" where
  "digit_val c = of_char c - 48"

lemma schar_digit: "\<not> (schar c < 48 \<or> schar c > 57) \<longleftrightarrow> is_digit c"
proof -
  have "(of_char c :: int) = int (of_char c)" by (simp only: of_nat_of_char)
  then show ?thesis using of_char_less_256 [of c]
    unfolding schar_def is_digit_def by (auto simp del: of_char_less_256)
qed

lemma digit_val_less: "is_digit c \<Longrightarrow> digit_val c < 10"
  unfolding is_digit_def digit_val_def by linarith

lemma of_char_digit_char: "d < 10 \<Longrightarrow> (of_char (digit_char d) :: nat) = 48 + d"
  by (simp add: digit_char_def)

lemma is_digit_digit_char [simp]: "d < 10 \<Longrightarrow> is_digit (digit_char d)"
  by (simp add: is_digit_def of_char_digit_char)

lemma digit_val_digit_char [simp]: "d < 10 \<Longrightarrow> digit_val (digit_char d) = d"
  by (simp add: digit_val_def of_char_digit_char)

lemma not_digit_NUL [simp]: "\<not> is_digit NUL"
  by (simp add: is_digit_def)

subsection \<open>Bits\<close>

lemma or_disjoint_nat: "l < 2 ^ n \<Longrightarrow> push_bit n y OR l = y * 2 ^ n + (l :: nat)"
proof -
  assume "l < 2 ^ n"
  then have l: "take_bit n l = l" by (simp add: take_bit_nat_eq_self)
  have "push_bit n y AND take_bit n l = 0"
    by (rule bit_eqI) (auto simp: bit_simps)
  then have "push_bit n y + l = push_bit n y OR l"
    unfolding l by (rule disjunctive_add_eq_or)
  then show ?thesis by (simp add: push_bit_eq_mult)
qed

subsection \<open>C strings\<close>

lemma takeWhile_append_stop: "x \<notin> set s \<Longrightarrow> takeWhile (\<lambda>c. c \<noteq> x) (s @ x # r) = s"
  by (induction s) auto

lemma cstr_terminated [cstring_simps]: "NUL \<notin> set s \<Longrightarrow> cstr (s @ NUL # r) = Some s"
  by (simp add: cstr_def takeWhile_append_stop)

lemma cstr_SomeD: "cstr a = Some s \<Longrightarrow> NUL \<notin> set s \<and> (\<exists>r. a = s @ NUL # r)"
proof -
  assume h: "cstr a = Some s"
  then have "NUL \<in> set a" by (auto simp: cstr_def split: if_splits)
  then obtain t r where a: "a = t @ NUL # r" and t: "NUL \<notin> set t"
    by (auto dest: split_list_first)
  with h have "s = t" by (simp add: cstr_terminated)
  with a t show ?thesis by blast
qed

lemma cstr_length: "cstr a = Some s \<Longrightarrow> length s < length a"
  by (drule cstr_SomeD) auto

lemma str_insert_app [simp]: "str_insert (length xs) s (xs @ ys) = Some (xs @ s @ ys)"
  by (simp add: str_insert_def)

subsection \<open>Decimal printing\<close>

lemma dec_nonempty [simp]: "dec n \<noteq> []"
  by (subst dec.simps) simp

lemma dec_digits: "c \<in> set (dec n) \<Longrightarrow> is_digit c"
proof (induction n rule: dec.induct)
  case (1 n)
  show ?case
  proof (cases "n < 10")
    case True
    with 1(2) show ?thesis by (simp add: dec.simps [of n])
  next
    case False
    with 1 show ?thesis by (auto simp: dec.simps [of n])
  qed
qed

text \<open>The number a digit string denotes, read from the left.\<close>

definition dec_value :: "string \<Rightarrow> nat" where
  "dec_value = foldl (\<lambda>v c. v * 10 + digit_val c) 0"

lemma dec_value_append1 [simp]: "dec_value (s @ [c]) = dec_value s * 10 + digit_val c"
  by (simp add: dec_value_def)

lemma dec_value_dec [simp]: "dec_value (dec n) = n"
proof (induction n rule: dec.induct)
  case (1 n)
  show ?case
  proof (cases "n < 10")
    case True
    then show ?thesis by (simp add: dec.simps [of n] dec_value_def)
  next
    case False
    with 1 show ?thesis by (simp add: dec.simps [of n])
  qed
qed

lemma dec_inject [simp]: "dec m = dec n \<longleftrightarrow> m = n"
  by (metis dec_value_dec)

lemma length_dec_le: "n < 10 ^ k \<Longrightarrow> 0 < k \<Longrightarrow> length (dec n) \<le> k"
proof (induction k arbitrary: n)
  case 0
  then show ?case by simp
next
  case (Suc k)
  show ?case
  proof (cases "n < 10")
    case True
    then show ?thesis by (simp add: dec.simps [of n])
  next
    case False
    with Suc.prems have "n div 10 < 10 ^ k" and "0 < k"
      by (auto simp: less_mult_imp_div_less mult.commute intro: gr0I)
    with Suc.IH have "length (dec (n div 10)) \<le> k" by blast
    with False show ?thesis by (simp add: dec.simps [of n])
  qed
qed

subsection \<open>Bounded formatting\<close>

lemma length_snprintf_str [fmt_simps]: "length (snprintf_str n s) = min (n - 1) (length s)"
  by (simp add: snprintf_str_def)

lemma snprintf_str_fits [fmt_simps]: "length s < n \<Longrightarrow> snprintf_str n s = s"
  by (simp add: snprintf_str_def)

section \<open>Transition systems\<close>

text \<open>
  Threads that share state are a step relation; what holds in every interleaving is an invariant of the
  reachable states. The two locales carry this argument once: an invariant that the steps keep, and a system
  that is never stuck outside its resting states.
\<close>

inductive reachable :: "('s \<Rightarrow> 's \<Rightarrow> bool) \<Rightarrow> 's \<Rightarrow> 's \<Rightarrow> bool" for step :: "'s \<Rightarrow> 's \<Rightarrow> bool" and init :: 's where
  reachable_init: "reachable step init init"
| reachable_step: "reachable step init y \<Longrightarrow> step y z \<Longrightarrow> reachable step init z"

locale invariant_system =
  fixes step :: "'s \<Rightarrow> 's \<Rightarrow> bool" and init :: 's and inv :: "'s \<Rightarrow> bool"
  assumes inv_init: "inv init"
    and inv_step: "inv y \<Longrightarrow> step y z \<Longrightarrow> inv z"
begin

lemma reachable_inv: "reachable step init y \<Longrightarrow> inv y"
  by (induction rule: reachable.induct) (auto intro: inv_init inv_step)

end

locale live_system = invariant_system step init inv
  for step :: "'s \<Rightarrow> 's \<Rightarrow> bool" and init :: 's and inv :: "'s \<Rightarrow> bool" +
  fixes resting :: "'s \<Rightarrow> bool"
  assumes progress: "inv y \<Longrightarrow> \<not> resting y \<Longrightarrow> \<exists>z. step y z"
begin

lemma never_stuck: "reachable step init y \<Longrightarrow> \<not> resting y \<Longrightarrow> \<exists>z. step y z"
  using reachable_inv progress by blast

end

end
