(* ===== verification/Alarm_Ring.thy ===== *)
theory Alarm_Ring
  imports Prelude
begin

text \<open>
  The motion-alarm ring of \<^verbatim>\<open>HikDevOperate\<close> (\<^verbatim>\<open>src/src/HikDev.h\<close>, \<^verbatim>\<open>src/src/HikDev.cpp\<close>): the
  SDK calls \<^verbatim>\<open>HikDevAlarmCallback\<close> on a thread of its own, which stores an entry at the write
  index; the main loop counts the pending entries, reads them by their offset from the read index,
  and then moves the read index. The indices are 32-bit words, so every wrap-around of the code is
  a wrap-around of the model, and an access outside the array is \<open>None\<close>.

  The locale \<open>bounded_fifo\<close> is what the main loop relies on: a first-in first-out queue of bounded
  capacity. Its interpretation on the ring discharges the laws for the code's definitions.
\<close>

section \<open>Data of the SDK and of the ring\<close>

text \<open>
  The machine types of \<^verbatim>\<open>HCNetSDK.h\<close> are \<^verbatim>\<open>BYTE\<close> = \<open>u8\<close>, \<^verbatim>\<open>WORD\<close> = \<open>u16\<close>, \<^verbatim>\<open>DWORD\<close> = \<open>u32\<close>
  and \<^verbatim>\<open>LONG\<close>, a signed 32-bit number, here an \<open>int\<close>.
\<close>

record NET_DVR_ALARMER =
  byUserIDValid :: u8
  bySerialValid :: u8
  byVersionValid :: u8
  byDeviceNameValid :: u8
  byMacAddrValid :: u8
  byLinkPortValid :: u8
  byDeviceIPValid :: u8
  bySocketIPValid :: u8
  lUserID :: int
  sSerialNumber :: "char list"
  dwDeviceVersion :: u32
  sDeviceName :: "char list"
  byMacAddr :: "u8 list"
  wLinkPort :: u16
  sDeviceIP :: "char list"
  sSocketIP :: "char list"
  byIpProtocol :: u8
  byRes1 :: "u8 list"
  bJSONBroken :: u8
  wSocketPort :: u16
  byRes2 :: "u8 list"

record NET_DVR_ALARMINFO_V30 =
  dwAlarmType :: u32
  dwAlarmInputNumber :: u32
  byAlarmOutputNumber :: "u8 list"
  byAlarmRelateChannel :: "u8 list"
  byChannel_V30 :: "u8 list"
  byDiskNumber :: "u8 list"

record ALARM_MOTION_DETECT =
  struAlarmDevInfo :: NET_DVR_ALARMER
  byRes :: "u8 list"
  byChannel :: u8
  AlarmTime :: int

record hik_state =
  struAlarmMotionDetect :: "ALARM_MOTION_DETECT list"
  dwAlarmMotionDetectWr :: u32
  dwAlarmMotionDetectRd :: u32
  lAlarmHandle :: int

definition ALARM_MOTION_DETECT_MAX :: u32 where
  "ALARM_MOTION_DETECT_MAX = 32"

definition MAX_CHANNUM_V30 :: nat where
  "MAX_CHANNUM_V30 = 32 + 32"

definition COMM_ALARM_V30 :: int where
  "COMM_ALARM_V30 = 0x4000"

text \<open>The SDK structures as zeroed memory, which is also how the static ring starts.\<close>

definition zero_alarmer :: NET_DVR_ALARMER where
  "zero_alarmer = \<lparr>byUserIDValid = 0, bySerialValid = 0, byVersionValid = 0, byDeviceNameValid = 0,
     byMacAddrValid = 0, byLinkPortValid = 0, byDeviceIPValid = 0, bySocketIPValid = 0, lUserID = 0,
     sSerialNumber = replicate 48 NUL, dwDeviceVersion = 0, sDeviceName = replicate 32 NUL,
     byMacAddr = replicate 6 0, wLinkPort = 0, sDeviceIP = replicate 128 NUL,
     sSocketIP = replicate 128 NUL, byIpProtocol = 0, byRes1 = replicate 2 0, bJSONBroken = 0,
     wSocketPort = 0, byRes2 = replicate 6 0\<rparr>"

definition zero_alarm :: ALARM_MOTION_DETECT where
  "zero_alarm = \<lparr>struAlarmDevInfo = zero_alarmer, byRes = replicate 7 0, byChannel = 0, AlarmTime = 0\<rparr>"

text \<open>The constructor \<^verbatim>\<open>HikDevOperate()\<close>: it clears the ring and both indices, not the handle.\<close>

definition HikDevOperate :: "hik_state \<Rightarrow> hik_state" where
  "HikDevOperate s = s\<lparr>struAlarmMotionDetect := replicate (unat ALARM_MOTION_DETECT_MAX) zero_alarm,
     dwAlarmMotionDetectWr := 0, dwAlarmMotionDetectRd := 0\<rparr>"

text \<open>The static members before \<^verbatim>\<open>main\<close>: zero-initialised storage.\<close>

definition hik_static :: hik_state where
  "hik_static = \<lparr>struAlarmMotionDetect = replicate (unat ALARM_MOTION_DETECT_MAX) zero_alarm,
     dwAlarmMotionDetectWr = 0, dwAlarmMotionDetectRd = 0, lAlarmHandle = 0\<rparr>"

section \<open>The producer: the alarm callback\<close>

text \<open>
  The body of the \<^verbatim>\<open>if\<close> in the channel loop: three stores into the slot at the write index, then
  the increment with its reset to zero. \<open>now\<close> is what \<^verbatim>\<open>time()\<close> stores.
\<close>

definition store_alarm :: "NET_DVR_ALARMER \<Rightarrow> u8 \<Rightarrow> int \<Rightarrow> hik_state \<Rightarrow> hik_state option" where
  "store_alarm al ch now s =
     (let a = struAlarmMotionDetect s; w = dwAlarmMotionDetectWr s in
      if unat w < length a then
        let e = (a ! unat w)\<lparr>struAlarmDevInfo := al, byChannel := ch, AlarmTime := now\<rparr>;
            w' = w + 1
        in Some (s\<lparr>struAlarmMotionDetect := a[unat w := e],
                   dwAlarmMotionDetectWr := (if w' \<ge> ALARM_MOTION_DETECT_MAX then 0 else w')\<rparr>)
      else None)"

text \<open>The loop over the channels; the \<^verbatim>\<open>break\<close> leaves it at the first channel that is set.\<close>

fun channel_loop :: "NET_DVR_ALARMER \<Rightarrow> int \<Rightarrow> u32 \<Rightarrow> u8 list \<Rightarrow> hik_state \<Rightarrow> hik_state option" where
  "channel_loop al now i [] s = Some s"
| "channel_loop al now i (c # cs) s =
     (if c \<noteq> 0 then store_alarm al (ucast (i + 1)) now s else channel_loop al now (i + 1) cs s)"

definition HikDevAlarmCallback ::
  "int \<Rightarrow> NET_DVR_ALARMER \<Rightarrow> NET_DVR_ALARMINFO_V30 \<Rightarrow> int \<Rightarrow> hik_state \<Rightarrow> hik_state option" where
  "HikDevAlarmCallback lCommand pAlarmer lpAlarmInfo now s =
     (if lCommand = COMM_ALARM_V30 then
        (if dwAlarmType lpAlarmInfo = 3
         then channel_loop pAlarmer now 0 (take MAX_CHANNUM_V30 (byChannel_V30 lpAlarmInfo)) s
         else Some s)
      else Some s)"

section \<open>The consumer: counting, reading and advancing\<close>

definition HikDevGetAlarmNum :: "hik_state \<Rightarrow> u32" where
  "HikDevGetAlarmNum s =
     (if dwAlarmMotionDetectWr s \<ge> dwAlarmMotionDetectRd s
      then dwAlarmMotionDetectWr s - dwAlarmMotionDetectRd s
      else ALARM_MOTION_DETECT_MAX - dwAlarmMotionDetectRd s + dwAlarmMotionDetectWr s)"

definition HikDevSetAlarmIdxOffset :: "u32 \<Rightarrow> hik_state \<Rightarrow> hik_state" where
  "HikDevSetAlarmIdxOffset off s =
     (let r = dwAlarmMotionDetectRd s + off
      in s\<lparr>dwAlarmMotionDetectRd :=
            (if r \<ge> ALARM_MOTION_DETECT_MAX then r - ALARM_MOTION_DETECT_MAX else r)\<rparr>)"

text \<open>The index computation the three getters open with, and the slot it selects.\<close>

definition slot_index :: "u32 \<Rightarrow> hik_state \<Rightarrow> u32" where
  "slot_index uiAlarmIdx s =
     (let i = uiAlarmIdx + dwAlarmMotionDetectRd s
      in if i \<ge> ALARM_MOTION_DETECT_MAX then i - ALARM_MOTION_DETECT_MAX else i)"

definition alarm_slot :: "u32 \<Rightarrow> hik_state \<Rightarrow> ALARM_MOTION_DETECT option" where
  "alarm_slot uiAlarmIdx s =
     (let i = unat (slot_index uiAlarmIdx s)
      in if i < length (struAlarmMotionDetect s) then Some (struAlarmMotionDetect s ! i) else None)"

text \<open>The broken-down time of \<^verbatim>\<open>localtime_r\<close>; the conversion depends on the time zone of the host.\<close>

record tm =
  tm_year :: int
  tm_mon :: int
  tm_mday :: int
  tm_hour :: int
  tm_min :: int
  tm_sec :: int

record date_time =
  uiYear :: u32
  uiMonth :: u32
  uiDay :: u32
  uiHour :: u32
  uiMinute :: u32
  uiSecond :: u32

definition HikDevGetAlarmDateTime :: "(int \<Rightarrow> tm) \<Rightarrow> u32 \<Rightarrow> hik_state \<Rightarrow> date_time option" where
  "HikDevGetAlarmDateTime localtime uiAlarmIdx s =
     map_option (\<lambda>e. let AlarmDateTime = localtime (AlarmTime e) in
       \<lparr>uiYear = word_of_int (tm_year AlarmDateTime) + 1900,
        uiMonth = word_of_int (tm_mon AlarmDateTime) + 1,
        uiDay = word_of_int (tm_mday AlarmDateTime),
        uiHour = word_of_int (tm_hour AlarmDateTime),
        uiMinute = word_of_int (tm_min AlarmDateTime),
        uiSecond = word_of_int (tm_sec AlarmDateTime)\<rparr>) (alarm_slot uiAlarmIdx s)"

text \<open>
  The string getters append to the caller's string when the field is valid and clear it otherwise;
  appending from an array without a NUL reads past it.
\<close>

definition HikDevGetAlarmIp :: "u32 \<Rightarrow> string \<Rightarrow> hik_state \<Rightarrow> string option" where
  "HikDevGetAlarmIp uiAlarmIdx strAlarmIp s =
     (case alarm_slot uiAlarmIdx s of
        None \<Rightarrow> None
      | Some e \<Rightarrow> let struAlarmDev = struAlarmDevInfo e in
          if byDeviceIPValid struAlarmDev \<noteq> 0
          then map_option (\<lambda>t. strAlarmIp @ t) (cstr (sDeviceIP struAlarmDev))
          else Some [])"

definition HikDevGetAlarmDevName :: "u32 \<Rightarrow> string \<Rightarrow> hik_state \<Rightarrow> string option" where
  "HikDevGetAlarmDevName uiAlarmIdx strAlarmDevName s =
     (case alarm_slot uiAlarmIdx s of
        None \<Rightarrow> None
      | Some e \<Rightarrow> let struAlarmDev = struAlarmDevInfo e in
          if byDeviceNameValid struAlarmDev \<noteq> 0
          then map_option (\<lambda>t. strAlarmDevName @ t) (cstr (sDeviceName struAlarmDev))
          else Some [])"

section \<open>The invariant and the abstract contents\<close>

definition ring_inv :: "hik_state \<Rightarrow> bool" where
  "ring_inv s \<longleftrightarrow> length (struAlarmMotionDetect s) = 32 \<and>
     unat (dwAlarmMotionDetectWr s) < 32 \<and> unat (dwAlarmMotionDetectRd s) < 32"

definition ring_len :: "hik_state \<Rightarrow> nat" where
  "ring_len s = (unat (dwAlarmMotionDetectWr s) + 32 - unat (dwAlarmMotionDetectRd s)) mod 32"

text \<open>What an entry says: the device, its channel and the time; the padding \<open>byRes\<close> is ignored.\<close>

type_synonym alarm = "NET_DVR_ALARMER \<times> u8 \<times> int"

definition alarm_view :: "ALARM_MOTION_DETECT \<Rightarrow> alarm" where
  "alarm_view e = (struAlarmDevInfo e, byChannel e, AlarmTime e)"

definition ring_contents :: "hik_state \<Rightarrow> alarm list" where
  "ring_contents s =
     map (\<lambda>k. alarm_view (struAlarmMotionDetect s ! ((unat (dwAlarmMotionDetectRd s) + k) mod 32)))
         [0..<ring_len s]"

section \<open>Index arithmetic\<close>

named_theorems ring_index \<open>the ring's word arithmetic as natural numbers\<close>

lemma AMAX_nat [simp]: "unat ALARM_MOTION_DETECT_MAX = 32"
  by (simp add: ALARM_MOTION_DETECT_MAX_def)

lemma unat_fold_index [ring_index]:
  "unat i < 64 \<Longrightarrow>
   unat (if i \<ge> ALARM_MOTION_DETECT_MAX then i - ALARM_MOTION_DETECT_MAX else i) = unat i mod 32"
  unfolding ALARM_MOTION_DETECT_MAX_def
  by (auto simp: word_le_nat_alt unat_sub mod_if le_mod_geq not_le)

lemma unat_reset_index [ring_index]:
  "unat w < 32 \<Longrightarrow> unat (if w + 1 \<ge> ALARM_MOTION_DETECT_MAX then 0 else w + 1) = Suc (unat w) mod 32"
proof -
  assume h: "unat w < 32"
  then have "unat (w + 1) = Suc (unat w)"
    by (subst unat_add_lem [THEN iffD1]) simp_all
  with h show ?thesis
    by (auto simp: ALARM_MOTION_DETECT_MAX_def word_le_nat_alt mod_if not_le)
qed

lemma unat_add_small: "unat (a :: u32) + unat b < 2 ^ 32 \<Longrightarrow> unat (a + b) = unat a + unat b"
  by (subst unat_add_lem [THEN iffD1]) simp_all

lemma unat_slot_index [ring_index]:
  "ring_inv s \<Longrightarrow> unat i < 32 \<Longrightarrow>
   unat (slot_index i s) = (unat (dwAlarmMotionDetectRd s) + unat i) mod 32"
  by (simp add: slot_index_def Let_def ring_inv_def unat_fold_index unat_add_small add.commute)

lemma unat_GetAlarmNum [ring_index]:
  assumes "ring_inv s" shows "unat (HikDevGetAlarmNum s) = ring_len s"
proof -
  let ?w = "dwAlarmMotionDetectWr s" and ?r = "dwAlarmMotionDetectRd s"
  have b: "unat ?w < 32" "unat ?r < 32" using assms by (auto simp: ring_inv_def)
  show ?thesis
  proof (cases "?r \<le> ?w")
    case True
    then have "unat (?w - ?r) = unat ?w - unat ?r" by (rule unat_sub)
    moreover have "unat ?r \<le> unat ?w" using True by (simp add: word_le_nat_alt)
    ultimately show ?thesis using True b by (simp add: HikDevGetAlarmNum_def ring_len_def mod_if)
  next
    case False
    then have lt: "unat ?w < unat ?r" by (simp add: word_le_nat_alt)
    have "?r \<le> ALARM_MOTION_DETECT_MAX" using b by (simp add: word_le_nat_alt)
    then have "unat (ALARM_MOTION_DETECT_MAX - ?r) = 32 - unat ?r" by (simp add: unat_sub)
    then have "unat (ALARM_MOTION_DETECT_MAX - ?r + ?w) = 32 - unat ?r + unat ?w"
      using b by (subst unat_add_small) simp_all
    then show ?thesis using False b lt
      by (simp add: HikDevGetAlarmNum_def ring_len_def mod_if add.commute)
  qed
qed

lemma ring_len_less: "ring_len s < 32"
  by (simp add: ring_len_def)

lemma length_ring_contents [simp]: "length (ring_contents s) = ring_len s"
  by (simp add: ring_contents_def)

lemma nth_ring_contents:
  "k < ring_len s \<Longrightarrow> ring_contents s ! k =
     alarm_view (struAlarmMotionDetect s ! ((unat (dwAlarmMotionDetectRd s) + k) mod 32))"
  by (simp add: ring_contents_def)

text \<open>The ring on natural numbers: read index \<open>r\<close>, write index \<open>w\<close>, \<open>n\<close> pending entries.\<close>

lemma mod32_fold: "x < 64 \<Longrightarrow> x mod 32 = (if x < 32 then x else x - (32::nat))"
  by (simp add: mod_if)

lemma ring_nat_len:
  "r < 32 \<Longrightarrow> w < 32 \<Longrightarrow> (w + 32 - r) mod 32 = (if r \<le> w then w - r else w + 32 - (r::nat))"
  by (subst mod32_fold) auto

lemma ring_nat_write:
  fixes r w n k :: nat
  assumes "r < 32" "w < 32" "n = (w + 32 - r) mod 32"
  shows "(r + n) mod 32 = w" and "k < n \<Longrightarrow> (r + k) mod 32 \<noteq> w"
    and "n < 31 \<Longrightarrow> (Suc w mod 32 + 32 - r) mod 32 = Suc n"
    and "n = 31 \<Longrightarrow> Suc w mod 32 = r"
proof -
  have n: "n = (if r \<le> w then w - r else w + 32 - r)" using assms by (simp add: ring_nat_len)
  have n32: "n < 32" using assms(1,2) n by (simp split: if_splits)
  show "(r + n) mod 32 = w" using assms(1,2) n n32 by (subst mod32_fold) (auto split: if_splits)
  show "(r + k) mod 32 \<noteq> w" if "k < n"
    using assms(1,2) n n32 that by (subst mod32_fold) (auto split: if_splits)
  have sw: "Suc w mod 32 = (if w = 31 then 0 else Suc w)" using assms(2) by (simp add: mod_Suc)
  have sw32: "Suc w mod 32 < 32" by simp
  show "(Suc w mod 32 + 32 - r) mod 32 = Suc n" if "n < 31"
    using ring_nat_len [OF assms(1) sw32] assms(1,2) n that unfolding sw by (auto split: if_splits)
  show "Suc w mod 32 = r" if "n = 31"
    using assms(1,2) n that unfolding sw by (auto split: if_splits)
qed

lemma ring_nat_advance:
  fixes r w n m :: nat
  assumes "r < 32" "w < 32" "n = (w + 32 - r) mod 32" "m \<le> n"
  shows "(w + 32 - (r + m) mod 32) mod 32 = n - m"
proof -
  have n: "n = (if r \<le> w then w - r else w + 32 - r)" using assms by (simp add: ring_nat_len)
  have "n < 32" using assms(1,2) n by (simp split: if_splits)
  then have rm: "(r + m) mod 32 = (if r + m < 32 then r + m else r + m - 32)"
    using assms(1,4) by (intro mod32_fold) simp
  have rm32: "(r + m) mod 32 < 32" by simp
  show ?thesis
    using ring_nat_len [OF rm32 assms(2)] assms(1,2,4) n unfolding rm by (auto split: if_splits)
qed

section \<open>The ring refines a bounded queue\<close>

lemma store_alarm_inv:
  "ring_inv s \<Longrightarrow> \<exists>s'. store_alarm al ch now s = Some s' \<and> ring_inv s' \<and>
     dwAlarmMotionDetectRd s' = dwAlarmMotionDetectRd s \<and> lAlarmHandle s' = lAlarmHandle s"
  by (auto simp: store_alarm_def ring_inv_def Let_def unat_reset_index)

lemma store_alarm_SomeD:
  assumes "ring_inv s" "store_alarm al ch now s = Some s'"
  shows "unat (dwAlarmMotionDetectWr s') = Suc (unat (dwAlarmMotionDetectWr s)) mod 32"
    and "dwAlarmMotionDetectRd s' = dwAlarmMotionDetectRd s"
    and "struAlarmMotionDetect s' = (struAlarmMotionDetect s)[unat (dwAlarmMotionDetectWr s) :=
           (struAlarmMotionDetect s ! unat (dwAlarmMotionDetectWr s))
             \<lparr>struAlarmDevInfo := al, byChannel := ch, AlarmTime := now\<rparr>]"
proof -
  let ?w = "dwAlarmMotionDetectWr s" and ?a = "struAlarmMotionDetect s"
  have b: "unat ?w < 32" "length ?a = 32" using assms(1) by (auto simp: ring_inv_def)
  have s': "s' = s\<lparr>struAlarmMotionDetect := ?a[unat ?w :=
        (?a ! unat ?w)\<lparr>struAlarmDevInfo := al, byChannel := ch, AlarmTime := now\<rparr>],
      dwAlarmMotionDetectWr := (if ?w + 1 \<ge> ALARM_MOTION_DETECT_MAX then 0 else ?w + 1)\<rparr>"
    using assms(2) b by (simp add: store_alarm_def Let_def split del: if_split)
  show "unat (dwAlarmMotionDetectWr s') = Suc (unat ?w) mod 32"
    unfolding s' by (simp add: unat_reset_index b split del: if_split)
  show "dwAlarmMotionDetectRd s' = dwAlarmMotionDetectRd s"
    and "struAlarmMotionDetect s' = ?a[unat ?w :=
           (?a ! unat ?w)\<lparr>struAlarmDevInfo := al, byChannel := ch, AlarmTime := now\<rparr>]"
    unfolding s' by simp_all
qed

lemma store_alarm_contents:
  assumes inv: "ring_inv s" and room: "ring_len s < 31" and st: "store_alarm al ch now s = Some s'"
  shows "ring_contents s' = ring_contents s @ [(al, ch, now)]"
proof (rule nth_equalityI)
  note D = store_alarm_SomeD [OF inv st]
  let ?r = "unat (dwAlarmMotionDetectRd s)" and ?w = "unat (dwAlarmMotionDetectWr s)"
  have b: "?r < 32" "?w < 32" "length (struAlarmMotionDetect s) = 32" using inv by (auto simp: ring_inv_def)
  note R = ring_nat_write [OF b(1,2), of "ring_len s", OF ring_len_def]
  have len: "ring_len s' = Suc (ring_len s)"
    using R(3) room D(1,2) by (simp add: ring_len_def)
  then show "length (ring_contents s') = length (ring_contents s @ [(al, ch, now)])" by simp
  fix k assume "k < length (ring_contents s')"
  then have k: "k < Suc (ring_len s)" by (simp add: len)
  show "ring_contents s' ! k = (ring_contents s @ [(al, ch, now)]) ! k"
  proof (cases "k < ring_len s")
    case True
    then have "(?r + k) mod 32 \<noteq> ?w" by (rule R(2))
    then show ?thesis using True k by (simp add: nth_ring_contents len D nth_append)
  next
    case False
    with k have "k = ring_len s" by simp
    then show ?thesis using b R(1) by (simp add: nth_ring_contents len D nth_append alarm_view_def)
  qed
qed

lemma SetAlarmIdxOffset_inv:
  "ring_inv s \<Longrightarrow> unat n < 32 \<Longrightarrow> ring_inv (HikDevSetAlarmIdxOffset n s)"
  by (simp add: HikDevSetAlarmIdxOffset_def Let_def ring_inv_def unat_fold_index unat_add_small)

lemma SetAlarmIdxOffset_contents:
  assumes inv: "ring_inv s" and n: "unat n \<le> ring_len s"
  shows "ring_contents (HikDevSetAlarmIdxOffset n s) = drop (unat n) (ring_contents s)"
proof -
  let ?s = "HikDevSetAlarmIdxOffset n s"
  let ?r = "unat (dwAlarmMotionDetectRd s)" and ?w = "unat (dwAlarmMotionDetectWr s)"
  have n32: "unat n < 32" using n ring_len_less [of s] by simp
  have b: "?r < 32" "?w < 32" using inv by (auto simp: ring_inv_def)
  have rd: "unat (dwAlarmMotionDetectRd ?s) = (?r + unat n) mod 32"
    using b n32 by (simp add: HikDevSetAlarmIdxOffset_def Let_def unat_fold_index unat_add_small)
  have fr: "dwAlarmMotionDetectWr ?s = dwAlarmMotionDetectWr s"
    "struAlarmMotionDetect ?s = struAlarmMotionDetect s"
    by (simp_all add: HikDevSetAlarmIdxOffset_def Let_def)
  have len: "ring_len ?s = ring_len s - unat n"
    using ring_nat_advance [OF b refl, of "unat n"] n by (simp add: ring_len_def rd fr)
  show ?thesis
    by (rule nth_equalityI)
       (auto simp: len nth_ring_contents rd fr nth_drop mod_add_left_eq add.assoc n)
qed

lemma alarm_slot_contents:
  assumes inv: "ring_inv s" and i: "unat i < ring_len s"
  shows "map_option alarm_view (alarm_slot i s) = Some (ring_contents s ! unat i)"
proof -
  have "unat i < 32" using i ring_len_less [of s] by simp
  then show ?thesis using inv i
    by (simp add: alarm_slot_def Let_def unat_slot_index nth_ring_contents) (simp add: ring_inv_def)
qed

text \<open>The interface the main loop relies on.\<close>

locale bounded_fifo =
  fixes invar :: "'s \<Rightarrow> bool"
    and contents :: "'s \<Rightarrow> 'a list"
    and cap :: nat
    and put :: "'a \<Rightarrow> 's \<Rightarrow> 's option"
    and count :: "'s \<Rightarrow> u32"
    and peek :: "u32 \<Rightarrow> 's \<Rightarrow> 'a option"
    and advance :: "u32 \<Rightarrow> 's \<Rightarrow> 's"
  assumes put_total: "invar s \<Longrightarrow> \<exists>s'. put x s = Some s' \<and> invar s'"
    and put_contents: "invar s \<Longrightarrow> length (contents s) < cap \<Longrightarrow> put x s = Some s' \<Longrightarrow>
          contents s' = contents s @ [x]"
    and count_length: "invar s \<Longrightarrow> unat (count s) = length (contents s)"
    and peek_nth: "invar s \<Longrightarrow> unat i < length (contents s) \<Longrightarrow> peek i s = Some (contents s ! unat i)"
    and advance_invar: "invar s \<Longrightarrow> unat n \<le> length (contents s) \<Longrightarrow> invar (advance n s)"
    and advance_contents: "invar s \<Longrightarrow> unat n \<le> length (contents s) \<Longrightarrow>
          contents (advance n s) = drop (unat n) (contents s)"
begin

fun put_all :: "'a list \<Rightarrow> 's \<Rightarrow> 's option" where
  "put_all [] s = Some s"
| "put_all (x # xs) s = (case put x s of None \<Rightarrow> None | Some s' \<Rightarrow> put_all xs s')"

lemma put_all_contents:
  "invar s \<Longrightarrow> length (contents s) + length xs \<le> cap \<Longrightarrow>
   \<exists>s'. put_all xs s = Some s' \<and> invar s' \<and> contents s' = contents s @ xs"
proof (induction xs arbitrary: s)
  case Nil
  then show ?case by simp
next
  case (Cons x xs)
  from put_total [OF Cons.prems(1)] obtain s1 where s1: "put x s = Some s1" "invar s1" by blast
  have c1: "contents s1 = contents s @ [x]"
    using put_contents [OF Cons.prems(1) _ s1(1)] Cons.prems(2) by simp
  have "length (contents s1) + length xs \<le> cap" using Cons.prems(2) c1 by simp
  from Cons.IH [OF s1(2) this] show ?case using s1(1) c1 by auto
qed

text \<open>
  A batch: the reader counts once, entries may arrive while it reads, and it then advances by the
  count. Every read of the batch sees the entry that was pending at the count, and what is left are
  exactly the arrivals, in order.
\<close>

lemma batch:
  assumes inv: "invar s" and room: "length (contents s) + length xs \<le> cap"
    and arr: "put_all xs s = Some s'"
  shows "unat i < unat (count s) \<Longrightarrow> peek i s' = Some (contents s ! unat i)"
    and "invar (advance (count s) s')"
    and "contents (advance (count s) s') = xs"
proof -
  from put_all_contents [OF inv room] arr
  have s': "invar s'" and c': "contents s' = contents s @ xs" by auto
  note cnt = count_length [OF inv]
  show "peek i s' = Some (contents s ! unat i)" if "unat i < unat (count s)"
    using peek_nth [OF s', of i] that by (simp add: cnt c' nth_append)
  show "invar (advance (count s) s')"
    using advance_invar [OF s', of "count s"] by (simp add: cnt c')
  show "contents (advance (count s) s') = xs"
    using advance_contents [OF s', of "count s"] by (simp add: cnt c')
qed

end

definition put_alarm :: "alarm \<Rightarrow> hik_state \<Rightarrow> hik_state option" where
  "put_alarm x s = store_alarm (fst x) (fst (snd x)) (snd (snd x)) s"

definition peek_alarm :: "u32 \<Rightarrow> hik_state \<Rightarrow> alarm option" where
  "peek_alarm i s = map_option alarm_view (alarm_slot i s)"

interpretation ring: bounded_fifo ring_inv ring_contents 31 put_alarm HikDevGetAlarmNum peek_alarm
  HikDevSetAlarmIdxOffset
proof
  show "\<exists>s'. put_alarm x s = Some s' \<and> ring_inv s'" if "ring_inv s" for x s
    unfolding put_alarm_def using store_alarm_inv [OF that] by blast
  show "ring_contents s' = ring_contents s @ [x]"
    if "ring_inv s" "length (ring_contents s) < 31" "put_alarm x s = Some s'" for x s s'
    using store_alarm_contents that by (simp add: put_alarm_def)
  show "unat (HikDevGetAlarmNum s) = length (ring_contents s)" if "ring_inv s" for s
    using unat_GetAlarmNum that by simp
  show "peek_alarm i s = Some (ring_contents s ! unat i)"
    if "ring_inv s" "unat i < length (ring_contents s)" for i s
    using alarm_slot_contents that by (simp add: peek_alarm_def)
  show "ring_inv (HikDevSetAlarmIdxOffset n s)"
    if "ring_inv s" "unat n \<le> length (ring_contents s)" for n s
    using SetAlarmIdxOffset_inv that ring_len_less [of s] by simp
  show "ring_contents (HikDevSetAlarmIdxOffset n s) = drop (unat n) (ring_contents s)"
    if "ring_inv s" "unat n \<le> length (ring_contents s)" for n s
    using SetAlarmIdxOffset_contents that by simp
qed

section \<open>What a callback records\<close>

text \<open>The arguments of one SDK callback, with the time at which it runs.\<close>

type_synonym sdk_event = "int \<times> NET_DVR_ALARMER \<times> NET_DVR_ALARMINFO_V30 \<times> int"

definition deliver :: "sdk_event \<Rightarrow> hik_state \<Rightarrow> hik_state option" where
  "deliver ev s = HikDevAlarmCallback (fst ev) (fst (snd ev)) (fst (snd (snd ev))) (snd (snd (snd ev))) s"

fun deliver_all :: "sdk_event list \<Rightarrow> hik_state \<Rightarrow> hik_state option" where
  "deliver_all [] s = Some s"
| "deliver_all (ev # evs) s = (case deliver ev s of None \<Rightarrow> None | Some s' \<Rightarrow> deliver_all evs s')"

text \<open>
  The intended effect: a motion alarm (type 3) of the command \<^verbatim>\<open>COMM_ALARM_V30\<close> with some channel
  set is one entry, for the lowest such channel (numbered from one); everything else is none.
\<close>

definition recorded :: "sdk_event \<Rightarrow> alarm list" where
  "recorded ev = (case ev of (lCommand, al, info, now) \<Rightarrow>
     (if lCommand = COMM_ALARM_V30 \<and> dwAlarmType info = 3 then
        (case find (\<lambda>i. byChannel_V30 info ! i \<noteq> 0) [0..<min MAX_CHANNUM_V30 (length (byChannel_V30 info))] of
           None \<Rightarrow> []
         | Some i \<Rightarrow> [(al, word_of_nat (Suc i), now)])
      else []))"

lemma find_shift: "find P (map f xs) = map_option f (find (P \<circ> f) xs)"
  by (induction xs) auto

lemma channel_loop_find:
  "channel_loop al now i cs s =
     (case find (\<lambda>k. cs ! k \<noteq> 0) [0..<length cs] of
        None \<Rightarrow> Some s
      | Some k \<Rightarrow> store_alarm al (ucast (i + word_of_nat k + 1)) now s)"
proof (induction cs arbitrary: i)
  case Nil
  then show ?case by simp
next
  case (Cons c cs)
  have up: "[0..<length (c # cs)] = 0 # map Suc [0..<length cs]"
    by (simp add: map_Suc_upt upt_conv_Cons del: upt_Suc)
  show ?case
    unfolding up
    by (auto simp: Cons.IH find_shift comp_def add_ac split: option.split)
qed

lemma ucast_channel: "ucast (0 + word_of_nat k + 1 :: u32) = (word_of_nat (Suc k) :: u8)"
proof -
  have "(0 + word_of_nat k + 1 :: u32) = word_of_nat (Suc k)" by simp
  then show ?thesis by (simp only: unsigned_of_nat) (simp only: word_of_nat_eq_iff, simp add: min_def)
qed

lemma deliver_recorded:
  "deliver ev s = (case recorded ev of [] \<Rightarrow> Some s | x # _ \<Rightarrow> put_alarm x s)"
proof -
  obtain c al info now where ev: "ev = (c, al, info, now)" by (cases ev) auto
  let ?cs = "take MAX_CHANNUM_V30 (byChannel_V30 info)"
  have len: "length ?cs = min MAX_CHANNUM_V30 (length (byChannel_V30 info))" by (simp add: min.commute)
  have f: "find (\<lambda>i. ?cs ! i \<noteq> 0) [0..<length ?cs] =
           find (\<lambda>i. byChannel_V30 info ! i \<noteq> 0) [0..<min MAX_CHANNUM_V30 (length (byChannel_V30 info))]"
    unfolding len by (rule find_cong) auto
  have "channel_loop al now 0 ?cs s = (case recorded (COMM_ALARM_V30, al, info, now) of
          [] \<Rightarrow> Some s | x # _ \<Rightarrow> put_alarm x s)" if "dwAlarmType info = 3"
    unfolding channel_loop_find f recorded_def ucast_channel
    using that by (simp add: put_alarm_def split: option.split)
  then show ?thesis
    unfolding deliver_def ev HikDevAlarmCallback_def
    by (cases "c = COMM_ALARM_V30 \<and> dwAlarmType info = 3") (auto simp: recorded_def)
qed

lemma length_recorded_le: "length (recorded ev) \<le> 1"
  by (auto simp: recorded_def split: prod.split option.split)

lemma deliver_inv: "ring_inv s \<Longrightarrow> \<exists>s'. deliver ev s = Some s' \<and> ring_inv s'"
  unfolding deliver_recorded using ring.put_total by (cases "recorded ev") auto

lemma deliver_all_inv: "ring_inv s \<Longrightarrow> \<exists>s'. deliver_all evs s = Some s' \<and> ring_inv s'"
proof (induction evs arbitrary: s)
  case (Cons ev evs)
  then obtain s1 where "deliver ev s = Some s1" "ring_inv s1" using deliver_inv by blast
  with Cons.IH show ?case by simp
qed simp

lemma deliver_contents:
  assumes "ring_inv s" "length (ring_contents s) + length (recorded ev) \<le> 31" "deliver ev s = Some s'"
  shows "ring_contents s' = ring_contents s @ recorded ev"
proof (cases "recorded ev")
  case Nil
  with assms show ?thesis by (simp add: deliver_recorded)
next
  case (Cons x xs)
  with length_recorded_le [of ev] have [simp]: "xs = []" by simp
  show ?thesis
    using ring.put_contents [of s x s'] assms Cons by (simp add: deliver_recorded)
qed

lemma deliver_all_put_all:
  "deliver_all evs s = ring.put_all (concat (map recorded evs)) s"
proof (induction evs arbitrary: s)
  case (Cons ev evs)
  show ?case
  proof (cases "recorded ev")
    case (Cons x xs)
    with length_recorded_le [of ev] have "xs = []" by simp
    with Cons Cons.IH show ?thesis by (simp add: deliver_recorded split: option.split)
  qed (simp add: deliver_recorded Cons.IH)
qed simp

section \<open>Producer and consumer interleaved\<close>

text \<open>
  The main loop polls the count, reads the entries of that batch one by one and then moves the read
  index; the SDK thread may deliver an event between any two of these steps. Two ghost fields log
  the alarms recorded by the callback and those the loop has read. The guard of \<open>arrive\<close> is the
  environment's obligation that the ring never holds more than 31 entries.
\<close>

datatype consumer = Poll | Batch u32 u32

record alarm_sys =
  ring_of :: hik_state
  pc :: consumer
  arrived :: "alarm list"
  handled :: "alarm list"

inductive sys_step :: "alarm_sys \<Rightarrow> alarm_sys \<Rightarrow> bool" where
  arrive: "length (ring_contents (ring_of y)) + length (recorded ev) \<le> 31 \<Longrightarrow>
     deliver ev (ring_of y) = Some r \<Longrightarrow>
     sys_step y (y\<lparr>ring_of := r, arrived := arrived y @ recorded ev\<rparr>)"
| poll: "pc y = Poll \<Longrightarrow> HikDevGetAlarmNum (ring_of y) = n \<Longrightarrow> n \<noteq> 0 \<Longrightarrow>
     sys_step y (y\<lparr>pc := Batch n 0\<rparr>)"
| read: "pc y = Batch n i \<Longrightarrow> i < n \<Longrightarrow> peek_alarm i (ring_of y) = Some x \<Longrightarrow>
     sys_step y (y\<lparr>pc := Batch n (i + 1), handled := handled y @ [x]\<rparr>)"
| finish: "pc y = Batch n i \<Longrightarrow> \<not> i < n \<Longrightarrow>
     sys_step y (y\<lparr>ring_of := HikDevSetAlarmIdxOffset n (ring_of y), pc := Poll\<rparr>)"

definition sys_init :: alarm_sys where
  "sys_init = \<lparr>ring_of = hik_static, pc = Poll, arrived = [], handled = []\<rparr>"

abbreviation sys_reachable :: "alarm_sys \<Rightarrow> bool" where
  "sys_reachable \<equiv> reachable sys_step sys_init"

fun batch_pos :: "consumer \<Rightarrow> nat" where
  "batch_pos Poll = 0"
| "batch_pos (Batch n i) = unat i"

definition sys_inv :: "alarm_sys \<Rightarrow> bool" where
  "sys_inv y \<longleftrightarrow> ring_inv (ring_of y) \<and>
     handled y @ drop (batch_pos (pc y)) (ring_contents (ring_of y)) = arrived y \<and>
     (case pc y of Poll \<Rightarrow> True
      | Batch n i \<Rightarrow> unat i \<le> unat n \<and> unat n \<le> length (ring_contents (ring_of y)))"

lemma ring_inv_static [simp]: "ring_inv hik_static"
  by (simp add: hik_static_def ring_inv_def)

lemma ring_contents_static [simp]: "ring_contents hik_static = []"
  by (simp add: hik_static_def ring_contents_def ring_len_def)

lemma sys_inv_init: "sys_inv sys_init"
  by (simp add: sys_inv_def sys_init_def)

lemma sys_inv_step: "sys_step y z \<Longrightarrow> sys_inv y \<Longrightarrow> sys_inv z"
proof (induction rule: sys_step.induct)
  case (arrive y ev r)
  then have "ring_inv (ring_of y)" by (simp add: sys_inv_def)
  then have "ring_inv r" "ring_contents r = ring_contents (ring_of y) @ recorded ev"
    using deliver_inv deliver_contents arrive by fastforce+
  then show ?case using arrive.prems by (auto simp: sys_inv_def split: consumer.splits)
next
  case (poll y n)
  then show ?case using ring.count_length [of "ring_of y"] by (auto simp: sys_inv_def)
next
  case (read y n i x)
  have lt: "unat i < unat n" using read by (simp add: word_less_nat_alt)
  then have i1: "unat (i + 1) = Suc (unat i)"
    using unsigned_less [of n, where ?'a = nat] by (subst unat_add_small) simp_all
  have inv: "ring_inv (ring_of y)" and n: "unat n \<le> length (ring_contents (ring_of y))"
    and h: "handled y @ drop (unat i) (ring_contents (ring_of y)) = arrived y"
    using read by (auto simp: sys_inv_def)
  have i: "unat i < length (ring_contents (ring_of y))" using lt n by simp
  then have x: "x = ring_contents (ring_of y) ! unat i"
    using ring.peek_nth [OF inv, of i] read by simp
  have "handled y @ x # drop (Suc (unat i)) (ring_contents (ring_of y)) = arrived y"
    using h i by (simp add: x Cons_nth_drop_Suc)
  then show ?case using inv n lt by (simp add: sys_inv_def i1)
next
  case (finish y n i)
  then have "unat i = unat n" by (simp add: sys_inv_def word_less_nat_alt)
  with finish show ?case
    using ring.advance_invar [of "ring_of y" n] ring.advance_contents [of "ring_of y" n]
    by (simp add: sys_inv_def)
qed

lemma batch_read:
  assumes inv: "sys_inv y" and pc: "pc y = Batch n i" and i: "i < n"
  shows "\<exists>z. sys_step y z \<and> length (handled z) = Suc (length (handled y))"
proof -
  have "unat i < length (ring_contents (ring_of y))"
    using inv pc i by (simp add: sys_inv_def word_less_nat_alt)
  then obtain x where "peek_alarm i (ring_of y) = Some x"
    using ring.peek_nth inv by (auto simp: sys_inv_def)
  from sys_step.read [OF pc i this] show ?thesis by fastforce
qed

interpretation alarms: live_system sys_step sys_init sys_inv "\<lambda>y. pc y = Poll"
proof
  show "\<exists>z. sys_step y z" if inv: "sys_inv y" and busy: "pc y \<noteq> Poll" for y
  proof -
    obtain n i where pc: "pc y = Batch n i" using busy by (cases "pc y") auto
    show ?thesis
      using batch_read [OF inv pc] sys_step.finish [OF pc] by (cases "i < n") blast+
  qed
qed (auto intro: sys_inv_init sys_inv_step)

lemma alarm_slot_pending:
  assumes "ring_inv s" "unat i < ring_len s"
  obtains e where "alarm_slot i s = Some e" "alarm_view e = ring_contents s ! unat i"
  using alarm_slot_contents [OF assms] by auto

section \<open>Properties\<close>

text \<open>A camera, a motion event of its third channel, and a ring that holds one entry.\<close>

definition cam_alarmer :: NET_DVR_ALARMER where
  "cam_alarmer = zero_alarmer\<lparr>byDeviceIPValid := 1, sDeviceIP := ''10.0.0.7'' @ replicate 120 NUL\<rparr>"

definition cam_info :: NET_DVR_ALARMINFO_V30 where
  "cam_info = \<lparr>dwAlarmType = 3, dwAlarmInputNumber = 0, byAlarmOutputNumber = replicate 96 0,
     byAlarmRelateChannel = replicate 64 0, byChannel_V30 = (replicate 64 0)[2 := 1, 5 := 1],
     byDiskNumber = replicate 33 0\<rparr>"

definition cam_event :: sdk_event where
  "cam_event = (COMM_ALARM_V30, cam_alarmer, cam_info, 1577836800)"

definition cam_ring :: "nat \<Rightarrow> hik_state" where
  "cam_ring n = the (deliver_all (replicate n cam_event) hik_static)"

lemma recorded_cam: "recorded cam_event = [(cam_alarmer, 3, 1577836800)]"
  by (simp add: recorded_def cam_event_def cam_info_def MAX_CHANNUM_V30_def upt_rec numeral_eq_Suc)

lemma cam_ring_props:
  assumes "n \<le> 31"
  shows "ring_inv (cam_ring n)" "ring_contents (cam_ring n) = replicate n (cam_alarmer, 3, 1577836800)"
    "deliver_all (replicate n cam_event) hik_static = Some (cam_ring n)"
proof -
  have "concat (map recorded (replicate n cam_event)) = replicate n (cam_alarmer, 3, 1577836800)"
    by (induction n) (simp_all add: recorded_cam)
  moreover from this obtain s' where "deliver_all (replicate n cam_event) hik_static = Some s'"
    "ring_inv s'" "ring_contents s' = replicate n (cam_alarmer, 3, 1577836800)"
    using ring.put_all_contents [of hik_static "replicate n (cam_alarmer, 3, 1577836800)"] assms
    by (auto simp: deliver_all_put_all)
  ultimately show "ring_inv (cam_ring n)"
    "ring_contents (cam_ring n) = replicate n (cam_alarmer, 3, 1577836800)"
    "deliver_all (replicate n cam_event) hik_static = Some (cam_ring n)"
    by (simp_all add: cam_ring_def)
qed

text \<open>
  C6: while the ring holds fewer than 31 entries more than the event adds, the alarm callback
  succeeds, keeps the ring's invariant and appends to the pending alarms exactly the entry the
  event stands for: none unless it is a motion alarm with a channel set, and else one, for the
  lowest set channel.
\<close>

theorem callback_refines_queue:
  assumes "ring_inv s"
    and "length (ring_contents s) + length (recorded (lCommand, al, info, now)) \<le> 31"
  shows "\<exists>s'. HikDevAlarmCallback lCommand al info now s = Some s' \<and> ring_inv s' \<and>
           ring_contents s' = ring_contents s @ recorded (lCommand, al, info, now)"
proof -
  obtain s' where s': "deliver (lCommand, al, info, now) s = Some s'" "ring_inv s'"
    using deliver_inv [OF assms(1)] by blast
  with deliver_contents [OF assms s'(1)] show ?thesis by (simp add: deliver_def)
qed

theorem callback_refines_queue_witness:
  "\<exists>s'. HikDevAlarmCallback COMM_ALARM_V30 cam_alarmer cam_info 1577836800 hik_static = Some s' \<and>
     ring_contents s' = [(cam_alarmer, 3, 1577836800)]"
  using callback_refines_queue [of hik_static COMM_ALARM_V30 cam_alarmer cam_info 1577836800]
    recorded_cam by (auto simp: cam_event_def)

text \<open>
  C7: memory safety of the callback. From a ring with in-range indices, any sequence of SDK events,
  of any length and content, is processed without an access outside the array, and leaves the
  indices in range.
\<close>

theorem callback_memory_safe:
  assumes "ring_inv s"
  shows "\<exists>s'. deliver_all evs s = Some s' \<and> ring_inv s'"
  by (rule deliver_all_inv [OF assms])

theorem callback_memory_safe_witness:
  "\<exists>s'. deliver_all (replicate 1000 cam_event) hik_static = Some s' \<and> ring_inv s'"
  by (rule callback_memory_safe [OF ring_inv_static])

text \<open>
  A batch of the main loop. The loop takes the count once; events delivered while it reads do
  not disturb it as long as at most 31 entries are pending: every index below the count still reads
  the entry that was pending when the count was taken, and after the loop advances by that count
  exactly the alarms that arrived in the meantime are pending, in their order.
\<close>

lemma alarm_batch_in_order:
  assumes "ring_inv s"
    and "length (ring_contents s) + length (concat (map recorded evs)) \<le> 31"
    and "deliver_all evs s = Some s'"
  shows "(\<forall>i. unat i < unat (HikDevGetAlarmNum s) \<longrightarrow>
            map_option alarm_view (alarm_slot i s') = Some (ring_contents s ! unat i)) \<and>
         ring_contents (HikDevSetAlarmIdxOffset (HikDevGetAlarmNum s) s') = concat (map recorded evs)"
proof -
  note a = assms(3) [unfolded deliver_all_put_all]
  show ?thesis
    using ring.batch(1) [OF assms(1,2) a] ring.batch(3) [OF assms(1,2) a]
    by (simp add: peek_alarm_def)
qed

text \<open>
  C8: exactly-once delivery under interleaving. In every state reachable by the callback thread and
  the main loop, with the environment keeping at most 31 entries pending, the alarms handled so far
  are a prefix of the alarms recorded so far and at most 31 are outstanding; in the middle of a
  batch the next read is always possible and handles one more alarm; and a batch is never stuck.
\<close>

theorem interleaving_exactly_once:
  assumes "sys_reachable y"
  shows "(\<exists>pending. arrived y = handled y @ pending \<and> length pending \<le> 31) \<and>
         (\<forall>n i. pc y = Batch n i \<longrightarrow> i < n \<longrightarrow>
            (\<exists>z. sys_step y z \<and> length (handled z) = Suc (length (handled y)))) \<and>
         (pc y \<noteq> Poll \<longrightarrow> (\<exists>z. sys_step y z))"
proof -
  have inv: "sys_inv y" by (rule alarms.reachable_inv [OF assms])
  then have "arrived y = handled y @ drop (batch_pos (pc y)) (ring_contents (ring_of y))"
    by (simp add: sys_inv_def)
  moreover have "length (drop (batch_pos (pc y)) (ring_contents (ring_of y))) \<le> 31"
    using ring_len_less [of "ring_of y"] by simp
  ultimately show ?thesis using batch_read [OF inv] alarms.never_stuck [OF assms] by blast
qed

theorem interleaving_exactly_once_witness:
  "\<exists>y. sys_reachable y \<and> arrived y = [(cam_alarmer, 3, 1577836800)] \<and> handled y = [] \<and>
     (\<exists>pending. arrived y = handled y @ pending \<and> length pending \<le> 31)"
proof -
  let ?y = "sys_init\<lparr>ring_of := cam_ring 1, arrived := arrived sys_init @ recorded cam_event\<rparr>"
  have "deliver cam_event (ring_of sys_init) = Some (cam_ring 1)"
    using cam_ring_props(3) [of 1] by (simp add: sys_init_def split: option.splits)
  then have "sys_step sys_init ?y"
    by (intro sys_step.arrive) (simp_all add: sys_init_def recorded_cam)
  then have y: "sys_reachable ?y" by (rule reachable_step [OF reachable_init])
  show ?thesis
    by (rule exI [of _ ?y])
       (use y interleaving_exactly_once [OF y] in \<open>simp add: sys_init_def recorded_cam\<close>)
qed

text \<open>
  C9: the overflow case. When 31 entries are pending and one more motion alarm arrives, the write
  index catches up with the read index, so the count becomes zero: all 32 alarms, not just the
  oldest one, are lost to the main loop.
\<close>

theorem ring_overflow_loses_all:
  assumes "ring_inv s" and "length (ring_contents s) = 31"
    and "recorded ev \<noteq> []" and "deliver ev s = Some s'"
  shows "HikDevGetAlarmNum s' = 0 \<and> ring_contents s' = []"
proof -
  obtain x xs where r: "recorded ev = x # xs" using assms(3) by (cases "recorded ev") auto
  then have st: "store_alarm (fst x) (fst (snd x)) (snd (snd x)) s = Some s'"
    using assms(4) by (simp add: deliver_recorded put_alarm_def)
  note D = store_alarm_SomeD [OF assms(1) st]
  have b: "unat (dwAlarmMotionDetectRd s) < 32" "unat (dwAlarmMotionDetectWr s) < 32"
    using assms(1) by (auto simp: ring_inv_def)
  have "Suc (unat (dwAlarmMotionDetectWr s)) mod 32 = unat (dwAlarmMotionDetectRd s)"
    using ring_nat_write(4) [OF b, of "ring_len s"] assms(2) by (simp add: ring_len_def)
  then have "ring_len s' = 0" by (simp add: ring_len_def D)
  moreover have "ring_inv s'" using deliver_inv [OF assms(1), of ev] assms(4) by simp
  ultimately show ?thesis
    using unat_GetAlarmNum [of s'] by (simp add: ring_contents_def unat_eq_0)
qed

theorem ring_overflow_loses_all_witness:
  "HikDevGetAlarmNum (the (deliver cam_event (cam_ring 31))) = 0"
proof -
  note r = cam_ring_props [of 31, simplified]
  obtain s' where s': "deliver cam_event (cam_ring 31) = Some s'"
    using deliver_inv [OF r(1)] by blast
  show ?thesis
    using ring_overflow_loses_all [OF r(1) _ _ s'] by (simp add: s' recorded_cam r(2))
qed

text \<open>
  The getters of the main loop. For an index below the count they read the pending alarm at that
  position: the address is the device's C string appended to the caller's string, or the empty
  string when the device did not supply one, and the date and time are the local time of that
  alarm with the year counted from zero and the month from one.
\<close>

lemma getters_read_pending:
  assumes "ring_inv s" and "unat i < unat (HikDevGetAlarmNum s)"
    and "ring_contents s ! unat i = (al, ch, t)"
  shows "HikDevGetAlarmIp i str s =
           (if byDeviceIPValid al \<noteq> 0 then map_option (\<lambda>ip. str @ ip) (cstr (sDeviceIP al)) else Some []) \<and>
         HikDevGetAlarmDevName i str s =
           (if byDeviceNameValid al \<noteq> 0 then map_option (\<lambda>nm. str @ nm) (cstr (sDeviceName al)) else Some []) \<and>
         map_option (\<lambda>d. (uiYear d, uiMonth d, uiDay d)) (HikDevGetAlarmDateTime localtime i s) =
           Some (word_of_int (tm_year (localtime t) + 1900), word_of_int (tm_mon (localtime t) + 1),
                 word_of_int (tm_mday (localtime t)))"
proof -
  have "unat i < ring_len s" using assms by (simp add: unat_GetAlarmNum)
  from alarm_slot_pending [OF assms(1) this] obtain e where
    e: "alarm_slot i s = Some e" and v: "alarm_view e = (al, ch, t)" using assms(3) by metis
  from v show ?thesis
    by (simp add: e HikDevGetAlarmIp_def HikDevGetAlarmDevName_def HikDevGetAlarmDateTime_def
        alarm_view_def Let_def)
qed

end
