(* ===== verification/Std_Map.thy ===== *)
theory Std_Map
  imports Prelude "HOL-Library.Char_ord" "HOL-Library.List_Lexorder"
begin

text \<open>
  \<^verbatim>\<open>std::map\<close> as the sources use it: a finite map that is iterated in key order. The model is an
  association list kept sorted by key; \<^verbatim>\<open>std::string\<close> keys compare lexicographically by unsigned
  bytes, which is the library's order on \<open>string\<close>.

  The locale \<open>dictionary\<close> states what the clients use (a stored key is found, other keys are left
  alone, an erased key is gone, iteration meets every key once); its interpretation shows that the
  sorted association lists provide it.
\<close>

type_synonym ('k, 'v) omap = "('k \<times> 'v) list"

text \<open>\<^verbatim>\<open>m[k] = v\<close>.\<close>

fun omap_put :: "'k :: linorder \<Rightarrow> 'v \<Rightarrow> ('k, 'v) omap \<Rightarrow> ('k, 'v) omap" where
  "omap_put k v [] = [(k, v)]"
| "omap_put k v ((k', v') # m) =
     (if k < k' then (k, v) # (k', v') # m
      else if k = k' then (k, v) # m
      else (k', v') # omap_put k v m)"

abbreviation omap_get :: "('k, 'v) omap \<Rightarrow> 'k \<Rightarrow> 'v option" where
  "omap_get \<equiv> map_of"

text \<open>\<^verbatim>\<open>m.count(k)\<close>: zero or one.\<close>

definition omap_count :: "'k \<Rightarrow> ('k, 'v) omap \<Rightarrow> nat" where
  "omap_count k m = (case omap_get m k of None \<Rightarrow> 0 | Some _ \<Rightarrow> 1)"

text \<open>\<^verbatim>\<open>m.erase(k)\<close>.\<close>

definition omap_erase :: "'k \<Rightarrow> ('k, 'v) omap \<Rightarrow> ('k, 'v) omap" where
  "omap_erase k m = filter (\<lambda>p. fst p \<noteq> k) m"

text \<open>\<^verbatim>\<open>m[k]\<close> as a value: a missing key is inserted with the default-constructed value \<open>d\<close>.\<close>

definition omap_index :: "'k :: linorder \<Rightarrow> 'v \<Rightarrow> ('k, 'v) omap \<Rightarrow> 'v \<times> ('k, 'v) omap" where
  "omap_index k d m = (case omap_get m k of None \<Rightarrow> (d, omap_put k d m) | Some v \<Rightarrow> (v, m))"

definition omap_wf :: "('k :: linorder, 'v) omap \<Rightarrow> bool" where
  "omap_wf m \<longleftrightarrow> sorted (map fst m) \<and> distinct (map fst m)"

section \<open>Laws\<close>

lemma keys_omap_put: "set (map fst (omap_put k v m)) = insert k (set (map fst m))"
  by (induction k v m rule: omap_put.induct) auto

lemma omap_wf_Nil [simp]: "omap_wf []"
  by (simp add: omap_wf_def)

lemma omap_wf_put [simp]: "omap_wf m \<Longrightarrow> omap_wf (omap_put k v m)"
proof (induction k v m rule: omap_put.induct)
  case (2 k v k' v' m)
  have keys: "fst ` set (omap_put k v m) = insert k (fst ` set m)"
    using keys_omap_put [of k v m] by simp
  show ?case
  proof (cases "k' < k")
    case True
    with 2 have "omap_wf (omap_put k v m)" by (simp add: omap_wf_def)
    with True 2(2) keys show ?thesis by (auto simp: omap_wf_def)
  next
    case False
    with 2(2) show ?thesis by (fastforce simp: omap_wf_def)
  qed
qed (simp add: omap_wf_def)

lemma omap_get_put [simp]: "omap_wf m \<Longrightarrow> omap_get (omap_put k v m) = (omap_get m)(k \<mapsto> v)"
proof (induction k v m rule: omap_put.induct)
  case (2 k v k' v' m)
  then have "omap_wf m" by (simp add: omap_wf_def)
  with 2 show ?case by (auto simp: fun_eq_iff)
qed auto

lemma omap_get_erase [simp]: "omap_get (omap_erase k m) = (omap_get m)(k := None)"
  by (induction m) (auto simp: omap_erase_def fun_eq_iff)

lemma omap_wf_erase [simp]: "omap_wf m \<Longrightarrow> omap_wf (omap_erase k m)"
  unfolding omap_wf_def omap_erase_def
  by (auto simp: sorted_filter distinct_map_filter)

lemma omap_wf_distinct: "omap_wf m \<Longrightarrow> distinct (map fst m)"
  by (simp add: omap_wf_def)

lemma omap_count_get: "omap_count k m = 0 \<longleftrightarrow> omap_get m k = None"
  by (simp add: omap_count_def split: option.split)

text \<open>The laws the clients of a \<^verbatim>\<open>std::map\<close> rely on.\<close>

locale dictionary =
  fixes wf :: "'m \<Rightarrow> bool"
    and get :: "'m \<Rightarrow> 'k \<Rightarrow> 'v option"
    and put :: "'k \<Rightarrow> 'v \<Rightarrow> 'm \<Rightarrow> 'm"
    and erase :: "'k \<Rightarrow> 'm \<Rightarrow> 'm"
    and items :: "'m \<Rightarrow> ('k \<times> 'v) list"
  assumes wf_put: "wf m \<Longrightarrow> wf (put k v m)"
    and get_put: "wf m \<Longrightarrow> get (put k v m) = (get m)(k \<mapsto> v)"
    and wf_erase: "wf m \<Longrightarrow> wf (erase k m)"
    and get_erase: "wf m \<Longrightarrow> get (erase k m) = (get m)(k := None)"
    and items_distinct: "wf m \<Longrightarrow> distinct (map fst (items m))"
    and items_get: "wf m \<Longrightarrow> (k, v) \<in> set (items m) \<longleftrightarrow> get m k = Some v"
begin

text \<open>A loop of stores (a database row, a table of handlers) is a fold.\<close>

lemma puts_wf: "wf m \<Longrightarrow> wf (fold (\<lambda>(k, v). put k v) ps m)"
  by (induction ps arbitrary: m) (auto simp: wf_put)

lemma puts_get: "wf m \<Longrightarrow> get (fold (\<lambda>(k, v). put k v) ps m) = get m ++ map_of (rev ps)"
proof (induction ps arbitrary: m)
  case (Cons p ps)
  then show ?case by (cases p) (simp add: wf_put get_put map_add_assoc [symmetric] map_add_def fun_eq_iff split: option.split)
qed simp

lemma items_dom: "wf m \<Longrightarrow> set (map fst (items m)) = dom (get m)"
  using items_get by (force simp: dom_def image_iff)

end

interpretation omap: dictionary "omap_wf :: ('k :: linorder, 'v) omap \<Rightarrow> bool" omap_get omap_put
  omap_erase "\<lambda>m. m"
  by unfold_locales (simp_all add: omap_wf_distinct)

end
