(* ===== verification/DataBase.thy ===== *)
theory DataBase
  imports Std_Map
begin

text \<open>
  The camera directory of \<^verbatim>\<open>DataBaseOperate\<close> (\<^verbatim>\<open>src/src/DataBase.h\<close>, \<^verbatim>\<open>src/src/DataBase.cpp\<close>): it
  loads the camera table from MySQL once and then answers lookups by index and by address. Its
  static members are the record \<open>db_state\<close>. The MySQL client library is a parameter: the record
  \<open>mysql_env\<close> holds what its calls return. Strings from the library are C strings, so they carry no
  NUL. \<open>None\<close> is an access outside an object.
\<close>

section \<open>State\<close>

definition CameraIp :: string where "CameraIp = ''ip''"
definition CameraPort :: string where "CameraPort = ''login_port''"
definition CameraName :: string where "CameraName = ''name''"
definition UserName :: string where "UserName = ''username''"
definition Passwd :: string where "Passwd = ''password''"
definition PhonNums :: string where "PhonNums = ''phonenums''"

lemmas column_names = CameraIp_def CameraPort_def CameraName_def UserName_def Passwd_def PhonNums_def

type_synonym camera_info = "(string, string) omap"

record db_state =
  CameraInfoName :: "(string, u32) omap"
  CameraInfoFromDB :: "camera_info list"
  IpWarnToPhoneFromDB :: "(string, string list) omap"

text \<open>The static members before \<^verbatim>\<open>main\<close>.\<close>

definition db_static :: db_state where
  "db_static = \<lparr>CameraInfoName = [], CameraInfoFromDB = [], IpWarnToPhoneFromDB = []\<rparr>"

text \<open>
  What the MySQL client returns: whether \<^verbatim>\<open>mysql_init\<close> and \<^verbatim>\<open>mysql_real_connect\<close> give a handle, the
  status of \<^verbatim>\<open>mysql_options\<close> and of a query (zero is success), and the stored result: the field
  names and the rows, in which \<open>None\<close> is an SQL NULL.
\<close>

record mysql_env =
  mysql_init_ok :: bool
  mysql_options_ret :: int
  mysql_connect_ok :: bool
  mysql_query_ret :: "string \<Rightarrow> int"
  mysql_store_result :: "(string list \<times> string option list list) option"

section \<open>Operations\<close>

fun StrToUint_loop :: "string \<Rightarrow> u32 \<Rightarrow> bool \<times> u32" where
  "StrToUint_loop [] u = (True, u)"
| "StrToUint_loop (c # cs) u =
     (if schar c < 48 \<or> schar c > 57 then (False, u)
      else StrToUint_loop cs (u * 10 + word_of_int (schar c) - 48))"

definition StrToUint :: "string \<Rightarrow> bool \<times> u32" where
  "StrToUint str = StrToUint_loop str 0"

text \<open>The loop of \<^verbatim>\<open>ExtractPhoneNumber\<close>: the number being collected and the numbers already pushed.\<close>

fun ExtractPhone_loop :: "string \<Rightarrow> string \<Rightarrow> string list \<Rightarrow> string list" where
  "ExtractPhone_loop [] PhoneNum vectPhoneNum = vectPhoneNum @ [PhoneNum]"
| "ExtractPhone_loop (c # cs) PhoneNum vectPhoneNum =
     (if c \<noteq> CHR '','' then ExtractPhone_loop cs (PhoneNum @ [c]) vectPhoneNum
      else ExtractPhone_loop cs [] (vectPhoneNum @ [PhoneNum]))"

definition ExtractPhoneNumber :: "string \<Rightarrow> string list \<Rightarrow> string list" where
  "ExtractPhoneNumber strPhoneNum vectPhoneNum = ExtractPhone_loop strPhoneNum [] vectPhoneNum"

text \<open>
  \<^verbatim>\<open>while ((ptrFields = mysql_fetch_field(...)))\<close>: after the field at position \<open>i\<close> was fetched
  \<^verbatim>\<open>mysql_field_tell\<close> is \<open>i + 1\<close>.
\<close>

fun fetch_fields :: "string list \<Rightarrow> u32 \<Rightarrow> (string, u32) omap \<Rightarrow> (string, u32) omap" where
  "fetch_fields [] i names = names"
| "fetch_fields (key # fs) i names =
     fetch_fields fs (i + 1) (if omap_count key names > 0 then omap_put key ((i + 1) - 1) names else names)"

text \<open>The loop over the wanted columns for one row: the whole load fails, the row is skipped, or it is pushed.\<close>

datatype row_result = RowMissing | RowSkip | RowPush camera_info

fun row_loop :: "(string, u32) omap \<Rightarrow> string option list \<Rightarrow> camera_info \<Rightarrow> row_result option" where
  "row_loop [] Row CameraInfo = Some (RowPush CameraInfo)"
| "row_loop ((key, off) # names) Row CameraInfo =
     (if off = 0xFFFFFFFF then Some RowMissing
      else if unat off < length Row then
        (case Row ! unat off of
           None \<Rightarrow> Some RowSkip
         | Some v \<Rightarrow> row_loop names Row (omap_put key v CameraInfo))
      else None)"

fun rows_loop :: "(string, u32) omap \<Rightarrow> string option list list \<Rightarrow> camera_info list \<Rightarrow>
    (bool \<times> camera_info list) option" where
  "rows_loop names [] cams = Some (True, cams)"
| "rows_loop names (Row # Rows) cams =
     (case row_loop names Row [] of
        None \<Rightarrow> None
      | Some RowMissing \<Rightarrow> Some (False, cams)
      | Some RowSkip \<Rightarrow> rows_loop names Rows cams
      | Some (RowPush CameraInfo) \<Rightarrow> rows_loop names Rows (cams @ [CameraInfo]))"

text \<open>The last loop: the phone numbers move from the camera into the map by address.\<close>

fun phones_loop :: "camera_info list \<Rightarrow> (string, string list) omap \<Rightarrow>
    camera_info list \<times> (string, string list) omap" where
  "phones_loop [] phones = ([], phones)"
| "phones_loop (cam # cams) phones =
     (let (nums, cam1) = omap_index PhonNums [] cam;
          vectPhone = ExtractPhoneNumber nums [];
          (ip, cam2) = omap_index CameraIp [] cam1;
          phones' = omap_put ip vectPhone phones;
          (cams', phones'') = phones_loop cams phones'
      in (omap_erase PhonNums cam2 # cams', phones''))"

text \<open>
  \<^verbatim>\<open>QueryCmd\<close> is a 64-byte array that starts as the literal; \<^verbatim>\<open>strcat\<close> of a longer table name
  writes past it.
\<close>

definition query_cmd :: "string \<Rightarrow> string option" where
  "query_cmd ptrTable =
     (let q = ''select * from '' @ ptrTable in if length q < 64 then Some q else None)"

text \<open>From the stored result on: the column positions, the rows, the phone numbers.\<close>

definition load_result ::
  "string list \<Rightarrow> string option list list \<Rightarrow> db_state \<Rightarrow> (bool \<times> db_state) option" where
  "load_result flds rows s =
     (let names = fetch_fields flds 0 (CameraInfoName s) in
      case rows_loop names rows (CameraInfoFromDB s) of
        None \<Rightarrow> None
      | Some (ok, cams) \<Rightarrow>
          if \<not> ok then Some (False, s\<lparr>CameraInfoName := names, CameraInfoFromDB := cams\<rparr>)
          else let (cams', phones) = phones_loop cams (IpWarnToPhoneFromDB s)
               in Some (True, s\<lparr>CameraInfoName := names, CameraInfoFromDB := cams',
                               IpWarnToPhoneFromDB := phones\<rparr>))"

definition GetCameraInfoFromDB :: "mysql_env \<Rightarrow> string option \<Rightarrow> db_state \<Rightarrow> (bool \<times> db_state) option" where
  "GetCameraInfoFromDB env ptrTable s =
     (case ptrTable of
        None \<Rightarrow> Some (False, s)
      | Some table \<Rightarrow>
          (case query_cmd table of
             None \<Rightarrow> None
           | Some QueryCmd \<Rightarrow>
               if mysql_query_ret env (''set names utf8'' @ [NUL]) \<noteq> 0 then Some (False, s)
               else if mysql_query_ret env QueryCmd \<noteq> 0 then Some (False, s)
               else (case mysql_store_result env of
                  None \<Rightarrow> Some (False, s)
                | Some (flds, rows) \<Rightarrow> load_result flds rows s)))"

definition init_names :: "(string, u32) omap \<Rightarrow> (string, u32) omap" where
  "init_names m =
     omap_put PhonNums 0xFFFFFFFF (omap_put Passwd 0xFFFFFFFF (omap_put UserName 0xFFFFFFFF
       (omap_put CameraName 0xFFFFFFFF (omap_put CameraPort 0xFFFFFFFF (omap_put CameraIp 0xFFFFFFFF m)))))"

definition ConnectDataBase ::
  "mysql_env \<Rightarrow> string option \<Rightarrow> u32 \<Rightarrow> string option \<Rightarrow> string option \<Rightarrow> string option \<Rightarrow> string option \<Rightarrow>
   db_state \<Rightarrow> (bool \<times> db_state) option" where
  "ConnectDataBase env ptrIp port ptrUserName ptrPassword ptrDBName ptrTableName s =
     (if ptrIp = None \<or> ptrUserName = None \<or> ptrPassword = None \<or> ptrDBName = None \<or> ptrTableName = None
      then Some (False, s)
      else
        let s1 = s\<lparr>CameraInfoName := init_names (CameraInfoName s)\<rparr> in
        if \<not> mysql_init_ok env then Some (False, s1)
        else if mysql_options_ret env \<noteq> 0 then Some (False, s1)
        else if \<not> mysql_connect_ok env then Some (False, s1)
        else GetCameraInfoFromDB env ptrTableName s1)"

definition GetCameraNum :: "db_state \<Rightarrow> nat" where
  "GetCameraNum s = length (CameraInfoFromDB s)"

text \<open>
  \<^verbatim>\<open>CameraInfoFromDB[idx][key]\<close>: the field of a camera that exists, inserted empty when missing.
\<close>

definition camera_field :: "nat \<Rightarrow> string \<Rightarrow> db_state \<Rightarrow> string \<times> db_state" where
  "camera_field idx key s =
     (let (v, cam) = omap_index key [] (CameraInfoFromDB s ! idx)
      in (v, s\<lparr>CameraInfoFromDB := (CameraInfoFromDB s)[idx := cam]\<rparr>))"

text \<open>The getters return their status, the value of their output parameter and the state.\<close>

definition GetCameraIp :: "nat \<Rightarrow> string \<Rightarrow> db_state \<Rightarrow> bool \<times> string \<times> db_state" where
  "GetCameraIp idx strIp s =
     (if idx \<ge> length (CameraInfoFromDB s) then (False, strIp, s)
      else let (v, s') = camera_field idx CameraIp s in (v \<noteq> [], v, s'))"

definition GetCameraPort :: "nat \<Rightarrow> u32 \<Rightarrow> db_state \<Rightarrow> bool \<times> u32 \<times> db_state" where
  "GetCameraPort idx port s =
     (if idx \<ge> length (CameraInfoFromDB s) then (False, port, s)
      else let (v, s') = camera_field idx CameraPort s; (ok, p) = StrToUint v in (ok, p, s'))"

definition GetCameraUserName :: "nat \<Rightarrow> string \<Rightarrow> db_state \<Rightarrow> bool \<times> string \<times> db_state" where
  "GetCameraUserName idx strName s =
     (if idx \<ge> length (CameraInfoFromDB s) then (False, strName, s)
      else let (v, s') = camera_field idx UserName s in (True, v, s'))"

definition GetCameraPasswd :: "nat \<Rightarrow> string \<Rightarrow> db_state \<Rightarrow> bool \<times> string \<times> db_state" where
  "GetCameraPasswd idx strPasswd s =
     (if idx \<ge> length (CameraInfoFromDB s) then (False, strPasswd, s)
      else let (v, s') = camera_field idx Passwd s in (True, v, s'))"

text \<open>
  The search by address; \<open>n\<close> counts the cameras that are left. The loop counter of the code has 32
  bits and the vector its size in 64, which the camera table never reaches.
\<close>

fun GetCameraName_loop :: "nat \<Rightarrow> nat \<Rightarrow> string \<Rightarrow> string \<Rightarrow> db_state \<Rightarrow> bool \<times> string \<times> db_state" where
  "GetCameraName_loop 0 i strIp strName s = (False, strName, s)"
| "GetCameraName_loop (Suc n) i strIp strName s =
     (let (ip, s1) = camera_field i CameraIp s in
      if ip = strIp then (let (nm, s2) = camera_field i CameraName s1 in (True, nm, s2))
      else GetCameraName_loop n (Suc i) strIp strName s1)"

definition GetCameraName :: "string \<Rightarrow> string \<Rightarrow> db_state \<Rightarrow> bool \<times> string \<times> db_state" where
  "GetCameraName strIp strName s = GetCameraName_loop (length (CameraInfoFromDB s)) 0 strIp strName s"

definition GetCameraWarnPhone :: "string \<Rightarrow> string list \<Rightarrow> db_state \<Rightarrow> bool \<times> string list \<times> db_state" where
  "GetCameraWarnPhone strIp vecPhone s =
     (if omap_count strIp (IpWarnToPhoneFromDB s) = 0 then (False, vecPhone, s)
      else let (v, m) = omap_index strIp [] (IpWarnToPhoneFromDB s)
           in (True, v, s\<lparr>IpWarnToPhoneFromDB := m\<rparr>))"

section \<open>Numbers\<close>

lemma word_digit_step:
  assumes "is_digit c"
  shows "(word_of_nat v :: u32) * 10 + word_of_int (schar c) - 48 = word_of_nat (v * 10 + digit_val c)"
proof -
  have c: "schar c = int (digit_val c) + 48"
    using assms unfolding schar_def is_digit_def digit_val_def
    by (auto simp: of_nat_of_char [symmetric, where ?'a = int])
  show ?thesis unfolding c by simp
qed

lemma StrToUint_loop_value:
  "StrToUint_loop cs (word_of_nat v) =
     (list_all is_digit cs,
      word_of_nat (foldl (\<lambda>v c. v * 10 + digit_val c) v (takeWhile is_digit cs)))"
proof (induction cs arbitrary: v)
  case (Cons c cs)
  show ?case
  proof (cases "is_digit c")
    case True
    then have "\<not> (schar c < 48 \<or> schar c > 57)" using schar_digit by blast
    then have "StrToUint_loop (c # cs) (word_of_nat v) =
        StrToUint_loop cs (word_of_nat (v * 10 + digit_val c))"
      by (simp only: StrToUint_loop.simps if_False word_digit_step [OF True])
    with True show ?thesis by (simp only: Cons.IH) simp
  next
    case False
    then show ?thesis using schar_digit [of c] by simp
  qed
qed simp

lemma StrToUint_value:
  "StrToUint str = (list_all is_digit str, word_of_nat (dec_value (takeWhile is_digit str)))"
  using StrToUint_loop_value [of str 0] by (simp add: StrToUint_def dec_value_def)

section \<open>Phone lists\<close>

lemma ExtractPhone_loop_acc:
  "ExtractPhone_loop s p v = v @ ExtractPhone_loop s p []"
proof (induction s arbitrary: p v)
  case (Cons c cs)
  show ?case
  proof (cases "c = CHR '',''")
    case True
    then show ?thesis using Cons.IH [of "[]" "v @ [p]"] Cons.IH [of "[]" "[p]"] by simp
  next
    case False
    then show ?thesis using Cons.IH [of "p @ [c]" v] by simp
  qed
qed simp

text \<open>Joining the numbers with commas.\<close>

fun join_comma :: "string list \<Rightarrow> string" where
  "join_comma [] = []"
| "join_comma [p] = p"
| "join_comma (p # ps) = p @ CHR '','' # join_comma ps"

lemma ExtractPhone_loop_nonempty: "ExtractPhone_loop s p v \<noteq> []"
  by (induction s p v rule: ExtractPhone_loop.induct) auto

lemma join_comma_Cons: "ps \<noteq> [] \<Longrightarrow> join_comma (p # ps) = p @ CHR '','' # join_comma ps"
  by (cases ps) auto

lemma join_ExtractPhone_loop: "join_comma (ExtractPhone_loop s p []) = p @ s"
proof (induction s arbitrary: p)
  case (Cons c cs)
  show ?case
    using Cons.IH ExtractPhone_loop_acc [of cs "[]" "[p]"] ExtractPhone_loop_nonempty [of cs "[]" "[]"]
    by (simp add: join_comma_Cons)
qed simp

lemma ExtractPhone_loop_no_comma:
  "CHR '','' \<notin> set p \<Longrightarrow> (\<forall>q \<in> set v. CHR '','' \<notin> set q) \<Longrightarrow>
   \<forall>q \<in> set (ExtractPhone_loop s p v). CHR '','' \<notin> set q"
  by (induction s p v rule: ExtractPhone_loop.induct) auto

lemma ExtractPhone_loop_prefix:
  "CHR '','' \<notin> set q \<Longrightarrow> ExtractPhone_loop (q @ s) p v = ExtractPhone_loop s (p @ q) v"
  by (induction q arbitrary: p) auto

lemma ExtractPhone_loop_join:
  "ps \<noteq> [] \<Longrightarrow> \<forall>q \<in> set ps. CHR '','' \<notin> set q \<Longrightarrow> ExtractPhone_loop (join_comma ps) [] v = v @ ps"
proof (induction ps arbitrary: v)
  case (Cons p ps)
  show ?case
  proof (cases "ps = []")
    case True
    with Cons.prems ExtractPhone_loop_prefix [of p "[]" "[]" v] show ?thesis by simp
  next
    case False
    with Cons ExtractPhone_loop_prefix [of p "CHR '','' # join_comma ps" "[]" v]
    show ?thesis by (simp add: join_comma_Cons)
  qed
qed simp

section \<open>Loading the table\<close>

text \<open>The six columns, in the order in which \<^verbatim>\<open>std::map\<close> iterates them.\<close>

definition wanted :: "string list" where
  "wanted = [CameraIp, CameraPort, CameraName, Passwd, PhonNums, UserName]"

lemma wanted_distinct: "distinct wanted"
  by (simp add: wanted_def column_names)

lemma init_names_static: "init_names [] = map (\<lambda>k. (k, 0xFFFFFFFF)) wanted"
  by (simp add: init_names_def wanted_def column_names)

lemma omap_wf_init: "omap_wf m \<Longrightarrow> omap_wf (init_names m)"
  by (simp add: init_names_def)

lemma keys_omap_put_existing:
  "omap_wf m \<Longrightarrow> k \<in> set (map fst m) \<Longrightarrow> map fst (omap_put k v m) = map fst m"
proof (induction k v m rule: omap_put.induct)
  case (2 k v k' v' m)
  then have "omap_wf m" "\<forall>x \<in> fst ` set m. k' \<le> x" by (auto simp: omap_wf_def)
  with 2 show ?case by (auto dest: leD)
qed simp

lemma omap_count_pos: "omap_count k m > 0 \<longleftrightarrow> k \<in> set (map fst m)"
proof -
  have "omap_count k m > 0 \<longleftrightarrow> map_of m k \<noteq> None" by (simp add: omap_count_def split: option.split)
  then show ?thesis by (simp add: map_of_eq_None_iff)
qed

lemma fetch_fields_wf: "omap_wf m \<Longrightarrow> omap_wf (fetch_fields fs i m)"
  by (induction fs arbitrary: i m) auto

lemma fetch_fields_keys: "omap_wf m \<Longrightarrow> map fst (fetch_fields fs i m) = map fst m"
proof (induction fs arbitrary: i m)
  case (Cons f fs)
  show ?case
  proof (cases "f \<in> set (map fst m)")
    case True
    then have "omap_count f m > 0" by (simp only: omap_count_pos)
    then show ?thesis using Cons keys_omap_put_existing [OF Cons.prems True] by simp
  next
    case False
    then have "\<not> omap_count f m > 0" using omap_count_pos [of f m] by blast
    then show ?thesis using Cons by simp
  qed
qed simp

lemma fetch_fields_other: "omap_wf m \<Longrightarrow> k \<notin> set fs \<Longrightarrow> map_of (fetch_fields fs i m) k = map_of m k"
  by (induction fs arbitrary: i m) auto

lemma fetch_fields_get:
  "omap_wf m \<Longrightarrow> distinct fs \<Longrightarrow> n < length fs \<Longrightarrow> fs ! n \<in> set (map fst m) \<Longrightarrow>
   map_of (fetch_fields fs i m) (fs ! n) = Some (i + word_of_nat n)"
proof (induction fs arbitrary: i m n)
  case (Cons f fs)
  let ?m = "if omap_count f m > 0 then omap_put f ((i + 1) - 1) m else m"
  have wf: "omap_wf ?m" using Cons.prems(1) by simp
  show ?case
  proof (cases n)
    case 0
    with Cons.prems have "omap_count f m > 0" by (simp only: omap_count_pos) simp
    then show ?thesis
      using 0 Cons.prems fetch_fields_other [OF wf, of f fs "i + 1"] by simp
  next
    case (Suc n')
    have "fs ! n' \<in> set (map fst ?m)" using Cons.prems Suc keys_omap_put [of f "(i + 1) - 1" m] by auto
    with Cons.IH [OF wf, of n' "i + 1"] Cons.prems Suc show ?thesis by (simp add: add.assoc)
  qed
qed simp

text \<open>The cell of a row in a named column: \<open>None\<close> for an SQL NULL or a column the result lacks.\<close>

definition cell :: "string list \<Rightarrow> string option list \<Rightarrow> string \<Rightarrow> string option" where
  "cell flds row k = (case map_of (zip flds row) k of None \<Rightarrow> None | Some c \<Rightarrow> c)"

definition complete :: "string list \<Rightarrow> string option list \<Rightarrow> bool" where
  "complete flds row \<longleftrightarrow> (\<forall>k \<in> set wanted. cell flds row k \<noteq> None)"

definition row_camera :: "string list \<Rightarrow> string option list \<Rightarrow> camera_info" where
  "row_camera flds row = fold (\<lambda>(k, v). omap_put k v) (map (\<lambda>k. (k, the (cell flds row k))) wanted) []"

text \<open>An entry of \<open>CameraInfoName\<close> that points at its column.\<close>

definition located :: "string list \<Rightarrow> string \<times> u32 \<Rightarrow> bool" where
  "located flds p \<longleftrightarrow> unat (snd p) < length flds \<and> flds ! unat (snd p) = fst p \<and> snd p \<noteq> 0xFFFFFFFF"

lemma located_in: "located flds p \<Longrightarrow> fst p \<in> set flds"
  using nth_mem by (force simp: located_def)

lemma cell_located:
  "distinct flds \<Longrightarrow> length row = length flds \<Longrightarrow> located flds (k, off) \<Longrightarrow> cell flds row k = row ! unat off"
  using map_of_zip_nth [of flds row "unat off"] by (auto simp: cell_def located_def)

lemma names_cases:
  assumes "distinct flds" "length flds < 0xFFFFFFFF"
    and p: "p \<in> set (fetch_fields flds 0 (init_names []))"
  shows "fst p \<in> set wanted"
    and "located flds p \<or> fst p \<notin> set flds \<and> snd p = 0xFFFFFFFF"
proof -
  let ?init = "init_names []" and ?names = "fetch_fields flds 0 (init_names [])"
  have wi: "omap_wf ?init" by (simp add: omap_wf_init)
  then have wf: "omap_wf ?names" by (rule fetch_fields_wf)
  obtain k off where p_eq: "p = (k, off)" by (cases p)
  have get: "map_of ?names k = Some off"
    using p wf by (simp add: p_eq omap_wf_distinct map_of_eq_Some_iff)
  have "k \<in> set (map fst ?names)" using p by (force simp: p_eq)
  then have k: "k \<in> set (map fst ?init)" by (simp only: fetch_fields_keys [OF wi])
  then show "fst p \<in> set wanted" by (auto simp: init_names_static p_eq)
  show "located flds p \<or> fst p \<notin> set flds \<and> snd p = 0xFFFFFFFF"
  proof (cases "k \<in> set flds")
    case True
    then obtain n where n: "n < length flds" "flds ! n = k" by (auto simp: in_set_conv_nth)
    then have off: "off = word_of_nat n"
      using fetch_fields_get [OF wi assms(1) n(1), of 0] k get by simp
    have "unat off = n" using n assms(2) by (simp add: off unat_of_nat take_bit_nat_eq_self)
    moreover from this have "off \<noteq> 0xFFFFFFFF" using n assms(2) by auto
    ultimately show ?thesis using n by (simp add: located_def p_eq)
  next
    case False
    then have "map_of ?init k = Some off" using fetch_fields_other [OF wi False, of 0] get by simp
    then have "off = 0xFFFFFFFF" by (auto simp: init_names_static dest!: map_of_SomeD)
    with False show ?thesis by (simp add: p_eq)
  qed
qed

lemma names_located:
  assumes "distinct flds" "set wanted \<subseteq> set flds" "length flds < 0xFFFFFFFF"
    and p: "p \<in> set (fetch_fields flds 0 (init_names []))"
  shows "located flds p"
  using names_cases [OF assms(1,3) p] assms(2) by blast

lemma row_loop_located:
  "distinct flds \<Longrightarrow> length row = length flds \<Longrightarrow> \<forall>p \<in> set names. located flds p \<Longrightarrow>
   row_loop names row info =
     Some (if \<forall>k \<in> set (map fst names). cell flds row k \<noteq> None
           then RowPush (fold (\<lambda>(k, v). omap_put k v) (map (\<lambda>k. (k, the (cell flds row k))) (map fst names)) info)
           else RowSkip)"
proof (induction names arbitrary: info)
  case (Cons p names)
  obtain k off where p: "p = (k, off)" by (cases p)
  have l: "located flds (k, off)" using Cons.prems p by simp
  have off: "off \<noteq> 0xFFFFFFFF" "unat off < length row" using l Cons.prems(2) by (auto simp: located_def)
  note c = cell_located [OF Cons.prems(1,2) l]
  show ?case
  proof (cases "row ! unat off")
    case None
    then show ?thesis using off c by (simp add: p)
  next
    case (Some v)
    then show ?thesis using off c Cons by (simp add: p)
  qed
qed simp

lemma rows_loop_located:
  assumes "distinct flds" "\<forall>p \<in> set names. located flds p" "map fst names = wanted"
  shows "\<forall>row \<in> set rows. length row = length flds \<Longrightarrow>
    rows_loop names rows cams = Some (True, cams @ map (row_camera flds) (filter (complete flds) rows))"
proof (induction rows arbitrary: cams)
  case (Cons row rows)
  then have "row_loop names row [] = Some (if complete flds row then RowPush (row_camera flds row) else RowSkip)"
    using row_loop_located [OF assms(1) _ assms(2), of row "[]"] assms(3)
    by (simp add: complete_def row_camera_def del: set_map)
  with Cons show ?case by simp
qed simp

lemma map_of_rev_distinct: "distinct (map fst xs) \<Longrightarrow> map_of (rev xs) = map_of xs"
  by (subst map_of_inject_set) (simp_all add: rev_map [symmetric])

lemma row_camera_get:
  "complete flds row \<Longrightarrow> k \<in> set wanted \<Longrightarrow> map_of (row_camera flds row) k = cell flds row k"
proof -
  assume c: "complete flds row" and k: "k \<in> set wanted"
  have "map_of (row_camera flds row) = map_of (rev (map (\<lambda>k. (k, the (cell flds row k))) wanted))"
    unfolding row_camera_def by (subst omap.puts_get) simp_all
  also have "\<dots> = map_of (map (\<lambda>k. (k, the (cell flds row k))) wanted)"
    by (rule map_of_rev_distinct) (simp add: comp_def wanted_distinct)
  finally have "map_of (row_camera flds row) k = Some (the (cell flds row k))"
    using k by (simp add: map_of_map_restrict)
  then show ?thesis using c k by (auto simp: complete_def)
qed

lemma row_camera_other: "k \<notin> set wanted \<Longrightarrow> map_of (row_camera flds row) k = None"
  unfolding row_camera_def by (subst omap.puts_get) (simp_all add: map_of_eq_None_iff image_iff)

lemma row_camera_wf: "omap_wf (row_camera flds row)"
  unfolding row_camera_def by (rule omap.puts_wf) simp

text \<open>Cameras that carry an address, and phone numbers under it.\<close>

definition raw_camera :: "camera_info \<Rightarrow> bool" where
  "raw_camera cam \<longleftrightarrow> omap_wf cam \<and> map_of cam PhonNums \<noteq> None \<and> map_of cam CameraIp \<noteq> None"

lemma raw_row_camera: "complete flds row \<Longrightarrow> raw_camera (row_camera flds row)"
  by (auto simp: raw_camera_def row_camera_wf row_camera_get complete_def wanted_def)

lemma phones_loop_raw:
  "\<forall>cam \<in> set cams. raw_camera cam \<Longrightarrow> omap_wf phones \<Longrightarrow>
   fst (phones_loop cams phones) = map (omap_erase PhonNums) cams \<and>
   omap_wf (snd (phones_loop cams phones)) \<and>
   map_of (snd (phones_loop cams phones)) = map_of phones ++
     map_of (rev (map (\<lambda>cam. (the (map_of cam CameraIp), ExtractPhoneNumber (the (map_of cam PhonNums)) [])) cams))"
proof (induction cams arbitrary: phones)
  case (Cons cam cams)
  then obtain ip nums where c: "map_of cam CameraIp = Some ip" "map_of cam PhonNums = Some nums"
    by (auto simp: raw_camera_def)
  let ?ph = "omap_put ip (ExtractPhoneNumber nums []) phones"
  have st: "phones_loop (cam # cams) phones =
      (omap_erase PhonNums cam # fst (phones_loop cams ?ph), snd (phones_loop cams ?ph))"
    by (simp add: omap_index_def c split: prod.split)
  have wf: "omap_wf ?ph" using Cons.prems(2) by simp
  note IH = Cons.IH [OF _ wf]
  show ?case
    unfolding st using IH Cons.prems c
    by (auto simp: fun_eq_iff map_add_def split: option.split)
qed simp

text \<open>The directory invariant: every camera has an address, and the address has a phone list.\<close>

definition db_inv :: "db_state \<Rightarrow> bool" where
  "db_inv s \<longleftrightarrow> omap_wf (IpWarnToPhoneFromDB s) \<and>
     (\<forall>cam \<in> set (CameraInfoFromDB s). omap_wf cam \<and>
        (\<exists>ip. map_of cam CameraIp = Some ip \<and> map_of (IpWarnToPhoneFromDB s) ip \<noteq> None))"

lemma PhonNums_neq [simp]: "PhonNums \<noteq> CameraIp" "CameraIp \<noteq> PhonNums"
  by (simp_all add: column_names)

lemma omap_index_props:
  assumes "omap_wf m" "omap_index k d m = (v, m')"
  shows "omap_wf m'" "map_of m' k = Some v" "j \<noteq> k \<Longrightarrow> map_of m' j = map_of m j"
    "map_of m k \<noteq> None \<Longrightarrow> m' = m"
  using assms by (auto simp: omap_index_def split: option.splits)

lemma phones_loop_inv:
  "\<forall>cam \<in> set cams. omap_wf cam \<Longrightarrow> omap_wf phones \<Longrightarrow> phones_loop cams phones = (cams', phones') \<Longrightarrow>
   omap_wf phones' \<and> dom (map_of phones) \<subseteq> dom (map_of phones') \<and>
   (\<forall>cam \<in> set cams'. omap_wf cam \<and>
        (\<exists>ip. map_of cam CameraIp = Some ip \<and> map_of phones' ip \<noteq> None))"
proof (induction cams arbitrary: phones cams' phones')
  case (Cons cam cams)
  obtain nums cam1 where i1: "omap_index PhonNums [] cam = (nums, cam1)" by fastforce
  obtain ip cam2 where i2: "omap_index CameraIp [] cam1 = (ip, cam2)" by fastforce
  let ?ph = "omap_put ip (ExtractPhoneNumber nums []) phones"
  obtain cs ph where r: "phones_loop cams ?ph = (cs, ph)" by fastforce
  have wf: "omap_wf cam2" using omap_index_props(1) i1 i2 Cons.prems by (metis list.set_intros(1))
  have wf1: "omap_wf cam1" using omap_index_props(1) i1 Cons.prems by (metis list.set_intros(1))
  have ip: "map_of cam2 CameraIp = Some ip" using omap_index_props(2) [OF wf1 i2] .
  have "omap_wf ph \<and> dom (map_of ?ph) \<subseteq> dom (map_of ph) \<and>
    (\<forall>cam \<in> set cs. omap_wf cam \<and> (\<exists>ip. map_of cam CameraIp = Some ip \<and> map_of ph ip \<noteq> None))"
    by (rule Cons.IH [OF _ _ r]) (use Cons.prems in simp_all)
  then have IH: "omap_wf ph" "dom (map_of ?ph) \<subseteq> dom (map_of ph)"
    "\<forall>cam \<in> set cs. omap_wf cam \<and> (\<exists>ip. map_of cam CameraIp = Some ip \<and> map_of ph ip \<noteq> None)"
    by blast+
  have eq: "cams' = omap_erase PhonNums cam2 # cs" "phones' = ph"
    using Cons.prems(3) by (auto simp: i1 i2 r)
  have "insert ip (dom (map_of phones)) \<subseteq> dom (map_of ph)" using IH(2) Cons.prems(2) by simp
  with IH(1,3) ip wf show ?case unfolding eq by auto
qed auto

lemma row_loop_push:
  "row_loop names row info = Some (RowPush cam) \<Longrightarrow>
   (omap_wf info \<longrightarrow> omap_wf cam) \<and> (\<forall>p \<in> set names. snd p \<noteq> 0xFFFFFFFF)"
  by (induction names row info rule: row_loop.induct) (auto split: if_splits option.splits)

lemma row_loop_missing:
  "row_loop names row info = Some RowMissing \<Longrightarrow> \<exists>p \<in> set names. snd p = 0xFFFFFFFF"
  by (induction names row info rule: row_loop.induct) (auto split: if_splits option.splits)

lemma rows_loop_wf:
  "rows_loop names rows cams = Some (ok, cams') \<Longrightarrow> \<forall>cam \<in> set cams. omap_wf cam \<Longrightarrow>
   \<forall>cam \<in> set cams'. omap_wf cam"
proof (induction rows arbitrary: cams)
  case (Cons row rows)
  from Cons.prems(1) consider "rows_loop names rows cams = Some (ok, cams')" | "cams' = cams"
    | cam where "row_loop names row [] = Some (RowPush cam)" "rows_loop names rows (cams @ [cam]) = Some (ok, cams')"
    by (auto split: option.splits row_result.splits)
  then show ?case
  proof cases
    case (3 cam)
    then have "\<forall>c \<in> set (cams @ [cam]). omap_wf c" using row_loop_push Cons.prems(2) by fastforce
    then show ?thesis by (rule Cons.IH [OF 3(2)])
  qed (use Cons in auto)
qed simp

lemma rows_loop_missing:
  "rows_loop names rows cams = Some (ok, cams') \<Longrightarrow> \<exists>p \<in> set names. snd p = 0xFFFFFFFF \<Longrightarrow> cams' = cams"
proof (induction rows arbitrary: cams)
  case (Cons row rows)
  have "row_loop names row [] \<noteq> Some (RowPush cam)" for cam
    using row_loop_push Cons.prems(2) by blast
  with Cons show ?case by (auto split: option.splits row_result.splits)
qed simp

lemma rows_loop_found:
  "\<forall>p \<in> set names. snd p \<noteq> 0xFFFFFFFF \<Longrightarrow> rows_loop names rows cams \<noteq> Some (False, cams')"
  by (induction rows arbitrary: cams)
     (auto split: option.splits row_result.splits dest: row_loop_missing)

lemma rows_loop_False: "rows_loop names rows cams = Some (False, cams') \<Longrightarrow> cams' = cams"
  using rows_loop_found rows_loop_missing by blast

lemma load_result_inv:
  assumes l: "load_result flds rows s = Some (ok, s')"
    and e: "CameraInfoFromDB s = []" "IpWarnToPhoneFromDB s = []"
  shows "db_inv s' \<and> (\<not> ok \<longrightarrow> CameraInfoFromDB s' = [])"
proof -
  let ?names = "fetch_fields flds 0 (CameraInfoName s)"
  obtain b cams where r: "rows_loop ?names rows [] = Some (b, cams)"
    using l e by (auto simp: load_result_def Let_def split: option.splits)
  obtain cams' phones where ph: "phones_loop cams [] = (cams', phones)" by fastforce
  show ?thesis
  proof (cases b)
    case True
    then have "s' = s\<lparr>CameraInfoName := ?names, CameraInfoFromDB := cams', IpWarnToPhoneFromDB := phones\<rparr>" "ok"
      using l e r ph by (simp_all add: load_result_def Let_def)
    moreover have "\<forall>cam \<in> set cams. omap_wf cam" using rows_loop_wf [OF r] by simp
    ultimately show ?thesis using phones_loop_inv [OF _ _ ph] by (simp add: db_inv_def)
  next
    case False
    then have "cams = []" using rows_loop_False r by fastforce
    then show ?thesis using l e r False by (auto simp: load_result_def Let_def db_inv_def)
  qed
qed

lemma GetCameraInfo_db_inv:
  assumes "GetCameraInfoFromDB env t s = Some (ok, s')" "CameraInfoFromDB s = []" "IpWarnToPhoneFromDB s = []"
  shows "db_inv s' \<and> (\<not> ok \<longrightarrow> CameraInfoFromDB s' = [])"
proof -
  have "db_inv s" using assms(2,3) by (simp add: db_inv_def)
  then show ?thesis
    using assms load_result_inv [of _ _ s ok s'] unfolding GetCameraInfoFromDB_def
    by (auto split: option.splits if_splits)
qed

lemma ConnectDataBase_db_inv:
  "ConnectDataBase env ip port un pw db t db_static = Some (ok, s') \<Longrightarrow>
   db_inv s' \<and> (\<not> ok \<longrightarrow> CameraInfoFromDB s' = [])"
  using GetCameraInfo_db_inv [of env t _ ok s']
  by (auto simp: ConnectDataBase_def Let_def db_static_def db_inv_def split: if_splits)

section \<open>Lookups\<close>

lemma camera_field_get:
  assumes "idx < length (CameraInfoFromDB s)" "map_of (CameraInfoFromDB s ! idx) key = Some v"
  shows "camera_field idx key s = (v, s)"
  using assms by (simp add: camera_field_def omap_index_def)

lemma db_inv_nth:
  assumes "db_inv s" "idx < length (CameraInfoFromDB s)"
  shows "omap_wf (CameraInfoFromDB s ! idx)"
    and "\<exists>ip. map_of (CameraInfoFromDB s ! idx) CameraIp = Some ip \<and> map_of (IpWarnToPhoneFromDB s) ip \<noteq> None"
  using assms nth_mem unfolding db_inv_def by blast+

lemma db_inv_update:
  assumes "db_inv s" "omap_wf c" "map_of c CameraIp = map_of (CameraInfoFromDB s ! idx) CameraIp"
    "idx < length (CameraInfoFromDB s)"
  shows "db_inv (s\<lparr>CameraInfoFromDB := (CameraInfoFromDB s)[idx := c]\<rparr>)"
proof -
  have "omap_wf cam \<and> (\<exists>ip. map_of cam CameraIp = Some ip \<and> map_of (IpWarnToPhoneFromDB s) ip \<noteq> None)"
    if "cam \<in> set ((CameraInfoFromDB s)[idx := c])" for cam
  proof (cases "cam = c")
    case True
    with assms db_inv_nth [OF assms(1,4)] show ?thesis by simp
  next
    case False
    then have "cam \<in> set (CameraInfoFromDB s)" using that set_update_subset_insert by fastforce
    with assms(1) show ?thesis unfolding db_inv_def by blast
  qed
  then show ?thesis using assms(1) unfolding db_inv_def by simp
qed

lemma camera_field_inv:
  assumes inv: "db_inv s" and idx: "idx < length (CameraInfoFromDB s)"
    and f: "camera_field idx key s = (v, s')"
  shows "db_inv s'" "IpWarnToPhoneFromDB s' = IpWarnToPhoneFromDB s"
    "length (CameraInfoFromDB s') = length (CameraInfoFromDB s)"
proof -
  let ?cam = "CameraInfoFromDB s ! idx"
  obtain c where c: "omap_index key [] ?cam = (v, c)"
    and s': "s' = s\<lparr>CameraInfoFromDB := (CameraInfoFromDB s)[idx := c]\<rparr>"
    using f by (auto simp: camera_field_def split: prod.splits)
  note cam = db_inv_nth [OF inv idx]
  note i = omap_index_props [OF cam(1) c]
  have "map_of c CameraIp = map_of ?cam CameraIp"
    using i(3) [of CameraIp] i(4) cam(2) by (cases "key = CameraIp") auto
  from db_inv_update [OF inv i(1) this idx] show "db_inv s'" by (simp add: s')
  show "IpWarnToPhoneFromDB s' = IpWarnToPhoneFromDB s"
    "length (CameraInfoFromDB s') = length (CameraInfoFromDB s)"
    by (simp_all add: s')
qed

lemma GetCameraName_loop_spec:
  "db_inv s \<Longrightarrow> i + n = length (CameraInfoFromDB s) \<Longrightarrow> GetCameraName_loop n i ip nm s = (ok, v, s') \<Longrightarrow>
   db_inv s' \<and> IpWarnToPhoneFromDB s' = IpWarnToPhoneFromDB s \<and>
   (ok \<longleftrightarrow> (\<exists>cam \<in> set (drop i (CameraInfoFromDB s)). map_of cam CameraIp = Some ip)) \<and>
   (ok \<longrightarrow> map_of (IpWarnToPhoneFromDB s) ip \<noteq> None)"
proof (induction n arbitrary: i)
  case (Suc n)
  let ?cam = "CameraInfoFromDB s ! i"
  have i: "i < length (CameraInfoFromDB s)" using Suc.prems(2) by simp
  then obtain ip' where ip': "map_of ?cam CameraIp = Some ip'" "map_of (IpWarnToPhoneFromDB s) ip' \<noteq> None"
    using db_inv_nth [OF Suc.prems(1)] by blast
  note f = camera_field_get [OF i ip'(1)]
  have d: "drop i (CameraInfoFromDB s) = ?cam # drop (Suc i) (CameraInfoFromDB s)"
    using i by (rule Cons_nth_drop_Suc [symmetric])
  show ?case
  proof (cases "ip' = ip")
    case True
    then show ?thesis
      using Suc.prems f ip' d camera_field_inv [OF Suc.prems(1) i, of CameraName]
      by (auto split: prod.splits)
  next
    case False
    then show ?thesis using Suc.IH [of "Suc i"] Suc.prems f ip'(1) d by simp
  qed
qed simp

lemma GetCameraName_spec:
  assumes "db_inv s" "GetCameraName ip nm s = (ok, v, s')"
  shows "db_inv s'" "IpWarnToPhoneFromDB s' = IpWarnToPhoneFromDB s"
    "ok \<longleftrightarrow> (\<exists>cam \<in> set (CameraInfoFromDB s). map_of cam CameraIp = Some ip)"
    "ok \<Longrightarrow> map_of (IpWarnToPhoneFromDB s) ip \<noteq> None"
  using GetCameraName_loop_spec [of s 0 "length (CameraInfoFromDB s)" ip nm ok v s'] assms
  by (auto simp: GetCameraName_def)

lemma GetCameraWarnPhone_spec:
  "GetCameraWarnPhone ip ps s =
     (case map_of (IpWarnToPhoneFromDB s) ip of None \<Rightarrow> (False, ps, s) | Some v \<Rightarrow> (True, v, s))"
  by (simp add: GetCameraWarnPhone_def omap_count_def omap_index_def split: option.split)

text \<open>
  What the alarm loop relies on: looking up a name and then the phone list of the same address never
  fails in between, and lookups keep the directory in shape.
\<close>

locale camera_directory =
  fixes invar :: "'s \<Rightarrow> bool"
    and find_name :: "string \<Rightarrow> string \<Rightarrow> 's \<Rightarrow> bool \<times> string \<times> 's"
    and find_phones :: "string \<Rightarrow> string list \<Rightarrow> 's \<Rightarrow> bool \<times> string list \<times> 's"
  assumes find_name_invar: "invar s \<Longrightarrow> find_name ip nm s = (ok, v, s') \<Longrightarrow> invar s'"
    and find_phones_invar: "invar s \<Longrightarrow> find_phones ip ps s = (ok, v', s') \<Longrightarrow> invar s'"
    and known_phones: "invar s \<Longrightarrow> find_name ip nm s = (True, v, s') \<Longrightarrow>
          \<exists>v' s''. find_phones ip ps s' = (True, v', s'')"
begin

lemma lookup_never_fails:
  assumes "invar s" "find_name ip nm s = (True, v, s')" "find_phones ip ps s' = (ok, v', s'')"
  shows "ok" and "invar s''"
  using known_phones [OF assms(1,2), of ps] find_phones_invar [OF find_name_invar [OF assms(1,2)] assms(3)]
    assms(3) by auto

end

interpretation db: camera_directory db_inv GetCameraName GetCameraWarnPhone
proof
  show "db_inv s'" if "db_inv s" "GetCameraName ip nm s = (ok, v, s')" for s ip nm ok v s'
    by (rule GetCameraName_spec(1) [OF that])
  show "db_inv s'" if "db_inv s" "GetCameraWarnPhone ip ps s = (ok, v, s')" for s ip ps ok v s'
    using that by (auto simp: GetCameraWarnPhone_spec split: option.splits)
  show "\<exists>v' s''. GetCameraWarnPhone ip ps s' = (True, v', s'')"
    if "db_inv s" "GetCameraName ip nm s = (True, v, s')" for s ip nm v s' ps
    using GetCameraName_spec(2,4) [OF that] by (auto simp: GetCameraWarnPhone_spec)
qed

section \<open>A table without one of the columns\<close>

lemma row_loop_some_missing:
  "length row = length flds \<Longrightarrow> \<forall>p \<in> set names. located flds p \<or> snd p = 0xFFFFFFFF \<Longrightarrow>
   \<exists>p \<in> set names. snd p = 0xFFFFFFFF \<Longrightarrow>
   row_loop names row info = Some RowMissing \<or> (row_loop names row info = Some RowSkip \<and> None \<in> set row)"
proof (induction names arbitrary: info)
  case (Cons p names)
  obtain k off where p: "p = (k, off)" by (cases p)
  show ?case
  proof (cases "off = 0xFFFFFFFF")
    case False
    then have o: "unat off < length row" using Cons.prems by (auto simp: p located_def)
    have "None \<in> set row" if "row ! unat off = None" using nth_mem [OF o] that by simp
    then show ?thesis using o False Cons.IH Cons.prems by (auto simp: p split: option.split)
  qed (simp add: p)
qed simp

lemma rows_loop_some_missing:
  assumes n: "\<forall>p \<in> set names. located flds p \<or> snd p = 0xFFFFFFFF" "\<exists>p \<in> set names. snd p = 0xFFFFFFFF"
  shows "\<forall>row \<in> set rows. length row = length flds \<Longrightarrow> \<exists>row \<in> set rows. None \<notin> set row \<Longrightarrow>
    rows_loop names rows cams = Some (False, cams)"
proof (induction rows)
  case (Cons row rows)
  then have "length row = length flds" by simp
  from row_loop_some_missing [OF this n, of "[]"] show ?case
  proof
    assume skip: "row_loop names row [] = Some RowSkip \<and> None \<in> set row"
    with Cons.prems have "\<exists>row \<in> set rows. None \<notin> set row" by auto
    with Cons skip show ?thesis by simp
  qed simp
qed simp

section \<open>Properties\<close>

definition example_env :: mysql_env where
  "example_env = \<lparr>mysql_init_ok = True, mysql_options_ret = 0, mysql_connect_ok = True,
     mysql_query_ret = (\<lambda>_. 0),
     mysql_store_result = Some ([''id'', ''name'', ''ip'', ''login_port'', ''username'', ''password'', ''phonenums''],
       [[Some ''1'', Some ''gate'', Some ''10.0.0.7'', Some ''8000'', Some ''admin'', Some ''pw'', Some ''13800000001,13800000002''],
        [Some ''2'', Some ''yard'', Some ''10.0.0.8'', None, Some ''admin'', Some ''pw'', Some ''13800000003'']])\<rparr>"

text \<open>
  C10: loading the camera table. When the connection and the queries succeed, the name of the table has fewer than
  50 characters, and the result has columns of different names, the six among them in any order, and rows
  of one cell per column, the directory holds one camera for every row without an SQL NULL in
  those columns, in row order, with its five stored fields; and every address maps to the phone
  list of the last such row that carries it.
\<close>

theorem load_table_correct:
  assumes "mysql_init_ok env" "mysql_options_ret env = 0" "mysql_connect_ok env"
    and "\<forall>q. mysql_query_ret env q = 0" "length table < 50"
    and "mysql_store_result env = Some (flds, rows)"
    and "distinct flds" "set wanted \<subseteq> set flds" "length flds < 0xFFFFFFFF"
    and "\<forall>row \<in> set rows. length row = length flds"
  shows "\<exists>s. ConnectDataBase env (Some ip) port (Some un) (Some pw) (Some db) (Some table) db_static = Some (True, s) \<and>
     map map_of (CameraInfoFromDB s) =
       map (\<lambda>row k. if k \<in> set wanted - {PhonNums} then cell flds row k else None)
           (filter (complete flds) rows) \<and>
     map_of (IpWarnToPhoneFromDB s) =
       map_of (rev (map (\<lambda>row. (the (cell flds row CameraIp), ExtractPhoneNumber (the (cell flds row PhonNums)) []))
                        (filter (complete flds) rows)))"
proof -
  let ?names = "fetch_fields flds 0 (init_names [])" and ?good = "filter (complete flds) rows"
  let ?cams = "map (row_camera flds) ?good"
  let ?s1 = "db_static\<lparr>CameraInfoName := init_names []\<rparr>"
  have keys: "map fst ?names = wanted"
    by (simp add: fetch_fields_keys omap_wf_init) (simp add: init_names_static comp_def)
  have loc: "\<forall>p \<in> set ?names. located flds p" using names_located assms(7-9) by blast
  have r: "rows_loop ?names rows [] = Some (True, ?cams)"
    using rows_loop_located [OF assms(7) loc keys assms(10), of "[]"] by simp
  have raw: "\<forall>cam \<in> set ?cams. raw_camera cam" using raw_row_camera by auto
  note ph = phones_loop_raw [OF raw omap_wf_Nil]
  let ?s = "?s1\<lparr>CameraInfoName := ?names, CameraInfoFromDB := fst (phones_loop ?cams []),
                IpWarnToPhoneFromDB := snd (phones_loop ?cams [])\<rparr>"
  have load: "load_result flds rows ?s1 = Some (True, ?s)"
    using r by (simp add: load_result_def Let_def db_static_def split: prod.split)
  have "ConnectDataBase env (Some ip) port (Some un) (Some pw) (Some db) (Some table) db_static = Some (True, ?s)"
    using assms(1-6) load
    by (simp add: ConnectDataBase_def GetCameraInfoFromDB_def query_cmd_def Let_def db_static_def)
  moreover have "map map_of (CameraInfoFromDB ?s) =
       map (\<lambda>row k. if k \<in> set wanted - {PhonNums} then cell flds row k else None) ?good"
    using ph by (auto simp: fun_eq_iff row_camera_get row_camera_other)
  moreover have "map_of (IpWarnToPhoneFromDB ?s) =
       map_of (rev (map (\<lambda>row. (the (cell flds row CameraIp), ExtractPhoneNumber (the (cell flds row PhonNums)) [])) ?good))"
  proof -
    have m: "map (\<lambda>cam. (the (map_of cam CameraIp), ExtractPhoneNumber (the (map_of cam PhonNums)) [])) ?cams =
          map (\<lambda>row. (the (cell flds row CameraIp), ExtractPhoneNumber (the (cell flds row PhonNums)) [])) ?good"
      by (auto simp: row_camera_get wanted_def)
    have "map_of (snd (phones_loop ?cams [])) = map_of (rev (map (\<lambda>cam. (the (map_of cam CameraIp),
        ExtractPhoneNumber (the (map_of cam PhonNums)) [])) ?cams))"
      using ph by simp
    then show ?thesis unfolding m by simp
  qed
  ultimately show ?thesis by blast
qed

theorem load_table_correct_witness:
  "\<exists>s. ConnectDataBase example_env (Some ''127.0.0.1'') 3306 (Some ''admin'') (Some ''x'') (Some ''camera'')
       (Some ''camerainfo'') db_static = Some (True, s) \<and> GetCameraNum s = 1 \<and>
     map_of (IpWarnToPhoneFromDB s) ''10.0.0.7'' = Some [''13800000001'', ''13800000002'']"
proof -
  let ?flds = "[''id'', ''name'', ''ip'', ''login_port'', ''username'', ''password'', ''phonenums'']"
  let ?r1 = "[Some ''1'', Some ''gate'', Some ''10.0.0.7'', Some ''8000'', Some ''admin'', Some ''pw'', Some ''13800000001,13800000002'']"
  let ?r2 = "[Some ''2'', Some ''yard'', Some ''10.0.0.8'', None, Some ''admin'', Some ''pw'', Some ''13800000003'']"
  have f: "filter (complete ?flds) [?r1, ?r2] = [?r1]"
    by (simp add: complete_def wanted_def column_names cell_def)
  have "\<exists>s. ConnectDataBase example_env (Some ''127.0.0.1'') 3306 (Some ''admin'') (Some ''x'') (Some ''camera'')
       (Some ''camerainfo'') db_static = Some (True, s) \<and>
     map map_of (CameraInfoFromDB s) =
       map (\<lambda>row k. if k \<in> set wanted - {PhonNums} then cell ?flds row k else None) [?r1] \<and>
     map_of (IpWarnToPhoneFromDB s) =
       map_of (rev (map (\<lambda>row. (the (cell ?flds row CameraIp), ExtractPhoneNumber (the (cell ?flds row PhonNums)) [])) [?r1]))"
    unfolding f [symmetric]
    by (rule load_table_correct) (simp_all add: example_env_def wanted_def column_names)
  moreover have "ExtractPhoneNumber (the (cell ?flds ?r1 PhonNums)) [] = [''13800000001'', ''13800000002'']"
    "the (cell ?flds ?r1 CameraIp) = ''10.0.0.7''"
    by (simp_all add: cell_def column_names ExtractPhoneNumber_def)
  ultimately show ?thesis
    by (auto simp: GetCameraNum_def dest: arg_cong [where f = length])
qed

text \<open>
  The alarm loop's lookups. After any connection attempt from the program's start, successful or
  not and whatever the database returns, an address for which a camera name is found also has a
  phone list, so the error exit of the alarm loop after \<^verbatim>\<open>GetCameraWarnPhone\<close> is never taken.
\<close>

lemma alarm_lookup_never_fails:
  assumes "ConnectDataBase env ip port un pw dbn table db_static = Some (ok, s1)"
    and "GetCameraName camIp nm s1 = (True, v, s2)"
  shows "\<exists>phones s3. GetCameraWarnPhone camIp ps s2 = (True, phones, s3)"
proof -
  have "db_inv s1" using ConnectDataBase_db_inv [OF assms(1)] by simp
  then show ?thesis using assms(2) by (rule db.known_phones)
qed

text \<open>
  A result without one of the six columns is rejected as soon as it has a row without NULLs:
  the connection reports failure and the directory holds no camera.
\<close>

lemma missing_column_rejected:
  assumes "mysql_init_ok env" "mysql_options_ret env = 0" "mysql_connect_ok env"
    and "\<forall>q. mysql_query_ret env q = 0" "length table < 50"
    and "mysql_store_result env = Some (flds, rows)"
    and "distinct flds" "k \<in> set wanted" "k \<notin> set flds" "length flds < 0xFFFFFFFF"
    and "\<forall>row \<in> set rows. length row = length flds" "\<exists>row \<in> set rows. None \<notin> set row"
  shows "\<exists>s. ConnectDataBase env (Some ip) port (Some un) (Some pw) (Some db) (Some table) db_static = Some (False, s) \<and>
     GetCameraNum s = 0"
proof -
  let ?names = "fetch_fields flds 0 (init_names [])"
  let ?s1 = "db_static\<lparr>CameraInfoName := init_names []\<rparr>"
  have n: "\<forall>p \<in> set ?names. located flds p \<or> snd p = 0xFFFFFFFF"
    using names_cases(2) [OF assms(7,10)] by blast
  have "k \<in> set (map fst ?names)"
    using assms(8) by (simp only: fetch_fields_keys omap_wf_init omap_wf_Nil) (simp add: init_names_static comp_def)
  then obtain p where p: "p \<in> set ?names" "fst p = k" by auto
  then have "snd p = 0xFFFFFFFF"
    using names_cases(2) [OF assms(7,10) p(1)] assms(9) located_in by blast
  with p have m: "\<exists>p \<in> set ?names. snd p = 0xFFFFFFFF" by blast
  have "load_result flds rows ?s1 = Some (False, ?s1\<lparr>CameraInfoName := ?names, CameraInfoFromDB := []\<rparr>)"
    using rows_loop_some_missing [OF n m assms(11,12), of "[]"]
    by (simp add: load_result_def Let_def db_static_def)
  then show ?thesis
    using assms(1-6)
    by (simp add: ConnectDataBase_def GetCameraInfoFromDB_def query_cmd_def Let_def db_static_def GetCameraNum_def)
qed

text \<open>
  The number parser. It accepts exactly the strings of decimal digits (the empty string, too);
  the value is that of the longest digit prefix, modulo \<open>2 ^ 32\<close>; and so it reads back every
  32-bit number from its decimal print.
\<close>

lemma StrToUint_correct:
  "fst (StrToUint str) = list_all is_digit str \<and>
   unat (snd (StrToUint str)) = dec_value (takeWhile is_digit str) mod 2 ^ 32 \<and>
   StrToUint (dec (unat (n :: u32))) = (True, n)"
proof -
  have d: "list_all is_digit (dec (unat n))" using dec_digits by (auto simp: list_all_iff)
  then have t: "takeWhile is_digit (dec (unat n)) = dec (unat n)" by (simp add: list_all_iff)
  have "StrToUint (dec (unat n)) = (True, n)" unfolding StrToUint_value t using d by simp
  then show ?thesis by (simp add: StrToUint_value unat_of_nat take_bit_eq_mod)
qed

text \<open>
  C11: phone lists. Splitting a phone field and joining the parts with commas gives the field back,
  no part holds a comma, there is always at least one part, and a non-empty list of comma-free
  numbers is read back from its join.
\<close>

theorem phone_list_roundtrip:
  "join_comma (ExtractPhoneNumber str []) = str \<and>
   (\<forall>p. p \<in> set (ExtractPhoneNumber str []) \<longrightarrow> CHR '','' \<notin> set p) \<and>
   ExtractPhoneNumber str [] \<noteq> [] \<and>
   (ps \<noteq> [] \<and> (\<forall>p. p \<in> set ps \<longrightarrow> CHR '','' \<notin> set p) \<longrightarrow> ExtractPhoneNumber (join_comma ps) [] = ps)"
  using join_ExtractPhone_loop [of str "[]"] ExtractPhone_loop_no_comma [of "[]" "[]" str]
    ExtractPhone_loop_nonempty [of str "[]" "[]"] ExtractPhone_loop_join [of ps "[]"]
  by (auto simp: ExtractPhoneNumber_def)

theorem phone_list_roundtrip_witness:
  "ExtractPhoneNumber (join_comma [''13800000001'', ''13800000002'']) [] = [''13800000001'', ''13800000002'']"
  using phone_list_roundtrip [of "[]" "[''13800000001'', ''13800000002'']"] by simp

end
