(* ===== verification/Serial_Encoding.thy ===== *)
theory Serial_Encoding
  imports Prelude "HOL-Library.Monad_Syntax"
begin

text \<open>
  The text side of \<^verbatim>\<open>SerialPort\<close> (\<^verbatim>\<open>src/src/SerialPort.cpp\<close>, lines 1 to 161): the conversion of
  UTF-8 bytes to hexadecimal UTF-16BE and the assembly of the \<^verbatim>\<open>send_message\<close> command for the SMS
  module. Words keep the widths of the code; \<open>None\<close> is the \<^verbatim>\<open>std::out_of_range\<close> exception of
  \<^verbatim>\<open>std::string::insert\<close>.
\<close>

section \<open>Operations\<close>

definition ToChar :: "u8 \<Rightarrow> char" where
  "ToChar val = (if val < 0xA then char_of_byte (val + 0x30) else char_of_byte (val + 0x37))"

text \<open>\<^verbatim>\<open>(uint16_t)strIn.at(i) & 0x00ff\<close>.\<close>

definition char16 :: "char \<Rightarrow> u16" where
  "char16 c = word_of_int (schar c) AND 0x00FF"

text \<open>The four digits of a code unit: its high byte, then its low byte, each from its high nibble.\<close>

definition hex_digits :: "u16 \<Rightarrow> string" where
  "hex_digits Utf16Code =
     (let HighChar = (ucast (drop_bit 8 Utf16Code) :: u8);
          LowChar = (ucast Utf16Code :: u8)
      in [ToChar (drop_bit 4 HighChar AND 0x0f), ToChar (HighChar AND 0x0f),
          ToChar (drop_bit 4 LowChar AND 0x0f), ToChar (LowChar AND 0x0f)])"

text \<open>
  The loop of \<^verbatim>\<open>ConvertToUtf16Be\<close>: the argument is the rest of \<^verbatim>\<open>strIn\<close> from index \<open>i\<close>; the second
  and third byte are zero past its end.
\<close>

function ConvertToUtf16Be :: "string \<Rightarrow> string \<Rightarrow> string" where
  "ConvertToUtf16Be [] strOut = strOut"
| "ConvertToUtf16Be (c # cs) strOut =
     (let CharInFirst = char16 c;
          CharInSecond = (if 0 < length cs then char16 (cs ! 0) else 0);
          CharInThird = (if 1 < length cs then char16 (cs ! 1) else 0)
      in if CharInFirst AND 0x0080 = 0 then
           ConvertToUtf16Be cs (strOut @ hex_digits CharInFirst)
         else if drop_bit 5 CharInFirst = 0x06 \<and> drop_bit 6 CharInSecond = 0x02 then
           ConvertToUtf16Be (drop 1 cs)
             (strOut @ hex_digits (push_bit 6 CharInFirst OR (CharInSecond AND 0x3F)))
         else if drop_bit 4 CharInFirst = 0x0E \<and> drop_bit 6 CharInSecond = 0x02 \<and>
                 drop_bit 6 CharInThird = 0x02 then
           ConvertToUtf16Be (drop 2 cs)
             (strOut @ hex_digits (push_bit 12 CharInFirst OR push_bit 6 (CharInSecond AND 0x3F) OR
                                   (CharInThird AND 0x3F)))
         else ConvertToUtf16Be cs strOut)"
  by pat_completeness auto
termination
  by (relation "measure (length \<circ> fst)") auto

declare ConvertToUtf16Be.simps(2) [simp del]

text \<open>The member \<^verbatim>\<open>strMsgSent\<close> as the constructor sets it.\<close>

definition strMsgSent :: string where
  "strMsgSent = ''send_message('' @ [CHR 0x22, CHR 0x22] @ '','' @ [CHR 0x22] @
     ''002053D1751F79FB52A84FA66D4B62A58B66000A644450CF673A540D79F0FF1A000A644450CF673A00490050FF1A'' @
     [CHR 0x22] @ '')'' @ [CHR 0x0D, CHR 0x0A]"

definition PackMsgToAlarm :: "string \<Rightarrow> string \<Rightarrow> string \<Rightarrow> string \<Rightarrow> string option" where
  "PackMsgToAlarm strDateTime strIp strName strPhoneNum =
     (if strIp = [] \<or> strPhoneNum = [] then Some []
      else
        let strDataTimeUtf16be = ConvertToUtf16Be strDateTime [];
            strIpUtf16be = ConvertToUtf16Be strIp [];
            strNameUtf16be = ConvertToUtf16Be strName [];
            pos1 = 14;
            pos2 = pos1 + (3 + 11);
            pos3 = pos2 + (64 + length strDataTimeUtf16be);
            pos4 = pos3 + (28 + length strNameUtf16be)
        in do {
          strMsg1 \<leftarrow> str_insert pos1 strPhoneNum strMsgSent;
          strMsg2 \<leftarrow> str_insert pos2 strDataTimeUtf16be strMsg1;
          strMsg3 \<leftarrow> str_insert pos3 strNameUtf16be strMsg2;
          str_insert pos4 strIpUtf16be strMsg3
        })"

section \<open>Reference definitions\<close>

text \<open>UTF-8 of a code point of the basic plane, and its four upper-case hexadecimal digits.\<close>

definition utf8 :: "nat \<Rightarrow> string" where
  "utf8 cp =
     (if cp < 0x80 then [char_of cp]
      else if cp < 0x800 then [char_of (0xC0 + cp div 64), char_of (0x80 + cp mod 64)]
      else [char_of (0xE0 + cp div 4096), char_of (0x80 + cp div 64 mod 64), char_of (0x80 + cp mod 64)])"

definition hex_upper :: "nat \<Rightarrow> char" where
  "hex_upper d = (if d < 10 then char_of (48 + d) else char_of (55 + d))"

definition utf16be_hex :: "nat \<Rightarrow> string" where
  "utf16be_hex cp = map hex_upper [cp div 4096 mod 16, cp div 256 mod 16, cp div 16 mod 16, cp mod 16]"

section \<open>Words\<close>

text \<open>Every operation of the loop on a byte is the same operation on its number.\<close>

lemma and_63_nat: "n AND 0x3F = n mod (64 :: nat)"
  using take_bit_eq_mask [of 6 n] by (simp add: mask_eq_exp_minus_1 take_bit_eq_mod)

lemma and_15_nat: "n AND 0x0F = n mod (16 :: nat)"
  using take_bit_eq_mask [of 4 n] by (simp add: mask_eq_exp_minus_1 take_bit_eq_mod)

lemma char16_nat: "char16 c = word_of_nat (of_char c)"
proof -
  have c: "schar c = int (of_char c) \<or> schar c = int (of_char c) - 256"
    unfolding schar_def by (simp add: of_nat_of_char)
  have m: "(word_of_int k :: u16) AND 0xFF = word_of_int (k mod 256)" for k
  proof -
    have "(word_of_int k :: u16) AND 0xFF = word_of_int (k AND 0xFF)"
      by (simp add: of_int_and_eq)
    also have "k AND 0xFF = k mod 256"
      using take_bit_eq_mask [of 8 k] by (simp add: mask_eq_exp_minus_1 take_bit_eq_mod)
    finally show ?thesis .
  qed
  have "schar c mod 256 = int (of_char c)"
    using c of_char_less_256 [of c] by (auto simp del: of_char_less_256 of_nat_of_char)
  then show ?thesis by (simp add: char16_def m del: of_nat_of_char)
qed

lemma unat_word16: "n < 65536 \<Longrightarrow> unat (word_of_nat n :: u16) = n"
  by (simp add: unat_of_nat take_bit_nat_eq_self)

lemma drop_bit_word16: "n < 65536 \<Longrightarrow> drop_bit k (word_of_nat n :: u16) = word_of_nat (n div 2 ^ k)"
proof -
  assume n: "n < 65536"
  then have "n div 2 ^ k < 65536" by (meson div_le_dividend le_less_trans)
  then have "unat (drop_bit k (word_of_nat n :: u16)) = unat (word_of_nat (n div 2 ^ k) :: u16)"
    unfolding unat_drop_bit_eq using n by (simp add: unat_word16 drop_bit_eq_div)
  then show ?thesis by (simp add: word_unat_eq_iff)
qed

lemma word16_eq_iff: "m < 65536 \<Longrightarrow> n < 65536 \<Longrightarrow> (word_of_nat m :: u16) = word_of_nat n \<longleftrightarrow> m = n"
  by (metis unat_word16)

lemma bit7_word16: "n < 256 \<Longrightarrow> (word_of_nat n :: u16) AND 0x80 = 0 \<longleftrightarrow> n < 128"
proof -
  assume n: "n < 256"
  have "(word_of_nat n :: u16) AND 0x80 = 0 \<longleftrightarrow> \<not> bit (word_of_nat n :: u16) 7"
    using and_exp_eq_0_iff_not_bit [of "word_of_nat n :: u16" 7] by simp
  also have "\<dots> \<longleftrightarrow> even (n div 128)"
    by (simp add: bit_of_nat_iff) (simp add: bit_iff_odd)
  also have "\<dots> \<longleftrightarrow> n < 128"
  proof -
    have "n div 128 = 0 \<or> n div 128 = 1" using n by linarith
    then show ?thesis by (auto simp: div_eq_0_iff)
  qed
  finally show ?thesis .
qed

text \<open>The four printed digits of a code unit.\<close>

lemma ToChar_nat: "d < 16 \<Longrightarrow> ToChar (word_of_nat d) = hex_upper d"
proof -
  assume d: "d < 16"
  then have u: "unat (word_of_nat d :: u8) = d" by (simp add: unat_of_nat take_bit_nat_eq_self)
  have "unat (word_of_nat d + 0x30 :: u8) = d + 48" "unat (word_of_nat d + 0x37 :: u8) = d + 55"
    using d by (simp_all add: unat_word_ariths u)
  moreover have "(word_of_nat d :: u8) < 0xA \<longleftrightarrow> d < 10"
    by (simp add: word_less_nat_alt u take_bit_nat_eq_self)
  ultimately show ?thesis
    by (simp add: ToChar_def hex_upper_def char_of_byte_def add.commute)
qed

lemma nibbles:
  assumes "m < 256"
  shows "ToChar (drop_bit 4 (word_of_nat m :: u8) AND 0x0F) = hex_upper (m div 16)"
    and "ToChar ((word_of_nat m :: u8) AND 0x0F) = hex_upper (m mod 16)"
proof -
  have e: "(word_of_nat k :: u8) AND 0x0F = word_of_nat (k mod 16)" for k
    by (simp add: and_15_nat [symmetric] of_nat_and_eq)
  have "unat (drop_bit 4 (word_of_nat m :: u8)) = unat (word_of_nat (m div 16) :: u8)"
    unfolding unat_drop_bit_eq using assms by (simp add: unat_of_nat take_bit_nat_eq_self drop_bit_eq_div)
  then have d: "drop_bit 4 (word_of_nat m :: u8) = word_of_nat (m div 16)"
    by (simp only: word_unat_eq_iff)
  show "ToChar (drop_bit 4 (word_of_nat m :: u8) AND 0x0F) = hex_upper (m div 16)"
    unfolding d e using assms by (simp add: ToChar_nat)
  show "ToChar ((word_of_nat m :: u8) AND 0x0F) = hex_upper (m mod 16)"
    unfolding e by (simp add: ToChar_nat)
qed

lemma hex_digits_nat: "n < 65536 \<Longrightarrow> hex_digits (word_of_nat n) = utf16be_hex n"
proof -
  assume n: "n < 65536"
  have hi: "(ucast (drop_bit 8 (word_of_nat n :: u16)) :: u8) = word_of_nat (n div 256)"
    using n by (simp add: drop_bit_word16 unsigned_of_nat take_bit_nat_eq_self)
  have "(ucast (word_of_nat n :: u16) :: u8) = word_of_nat n"
    using n by (simp add: unsigned_of_nat take_bit_nat_eq_self)
  also have "\<dots> = word_of_nat (n mod 256)"
    by (simp add: word_of_nat_eq_iff take_bit_eq_mod)
  finally have lo: "(ucast (word_of_nat n :: u16) :: u8) = word_of_nat (n mod 256)" .
  have "n div 256 < 256" "n mod 256 < 256" using n by auto
  moreover have "n div 256 div 16 = n div 4096"
    by (simp add: div_mult2_eq [symmetric])
  moreover have "n div 4096 mod 16 = n div 4096"
    using n by (simp add: less_mult_imp_div_less)
  moreover have "n mod 256 div 16 = n div 16 mod 16"
    using mod_mult2_eq [of n 16 16] by simp
  moreover have "n mod 256 mod 16 = n mod 16"
    by (simp add: mod_mod_cancel)
  ultimately show ?thesis
    unfolding hex_digits_def Let_def hi lo by (simp add: nibbles utf16be_hex_def)
qed

section \<open>One step of the conversion\<close>

lemma Convert_append: "ConvertToUtf16Be s (a @ b) = a @ ConvertToUtf16Be s b"
proof (induction s arbitrary: a b rule: length_induct)
  case (1 s)
  show ?case
  proof (cases s)
    case (Cons c cs)
    have IH: "ConvertToUtf16Be (drop n cs) (x @ y) = x @ ConvertToUtf16Be (drop n cs) y" for n x y
      using 1 Cons by simp
    note IH0 = IH [of 0, simplified]
    show ?thesis
      unfolding Cons ConvertToUtf16Be.simps(2) Let_def append_assoc IH IH0 by simp
  qed simp
qed

lemma Convert_one: 
  assumes "b < 128"
  shows "ConvertToUtf16Be (char_of b # cs) out = ConvertToUtf16Be cs (out @ utf16be_hex b)"
  using assms
  by (simp add: ConvertToUtf16Be.simps(2) char16_nat bit7_word16 hex_digits_nat Let_def)

lemma and_63_word16: "(word_of_nat k :: u16) AND 0x3F = word_of_nat (k mod 64)"
  by (simp add: and_63_nat [symmetric] of_nat_and_eq)

lemma push_bit_word16: "push_bit k (word_of_nat n :: u16) = word_of_nat (push_bit k n)"
  by (simp add: of_nat_push_bit)

lemma char16_char_of: "b < 256 \<Longrightarrow> char16 (char_of b) = word_of_nat b"
  by (simp add: char16_nat)

lemma drop_bit_byte_iff:
  "b < 256 \<Longrightarrow> m < 256 \<Longrightarrow> drop_bit k (word_of_nat b :: u16) = word_of_nat m \<longleftrightarrow> b div 2 ^ k = m"
proof -
  assume b: "b < 256" and m: "m < 256"
  have "b div 2 ^ k < 65536" using b by (meson div_le_dividend le_less_trans less_trans numeral_less_iff semiring_norm(76,78,79,80,81))
  with b m show ?thesis by (simp add: drop_bit_word16 word16_eq_iff)
qed

lemma continuation_mod: "b < 64 \<Longrightarrow> (0x80 + b) mod 64 = (b :: nat)"
  using mod_mult_self3 [of 2 64 b] by simp

lemma Convert_two:
  assumes "a < 32" "b < 64"
  shows "ConvertToUtf16Be (char_of (0xC0 + a) # char_of (0x80 + b) # cs) out =
         ConvertToUtf16Be cs (out @ hex_digits (word_of_nat ((0xC0 + a) * 64 + b)))"
proof -
  have lt: "0xC0 + a < 256" "0x80 + b < 256" using assms by auto
  have lead: "drop_bit 5 (word_of_nat (0xC0 + a) :: u16) = 0x06"
    using drop_bit_byte_iff [of "0xC0 + a" 6 5] assms by simp
  have cont: "drop_bit 6 (word_of_nat (0x80 + b) :: u16) = 0x02"
    using drop_bit_byte_iff [of "0x80 + b" 2 6] assms by simp
  have "push_bit 6 (word_of_nat (0xC0 + a) :: u16) OR (word_of_nat (0x80 + b) AND 0x3F)
        = word_of_nat (push_bit 6 (0xC0 + a) OR (0x80 + b) mod 64)"
    by (simp only: and_63_word16 push_bit_word16 of_nat_or_eq)
  also have "push_bit 6 (0xC0 + a) OR (0x80 + b) mod 64 = (0xC0 + a) * 64 + b"
    using assms or_disjoint_nat [of b 6 "0xC0 + a"] by (simp add: continuation_mod)
  finally have code: "push_bit 6 (word_of_nat (0xC0 + a) :: u16) OR (word_of_nat (0x80 + b) AND 0x3F)
        = word_of_nat ((0xC0 + a) * 64 + b)" .
  have ascii: "(word_of_nat (0xC0 + a) :: u16) AND 0x80 \<noteq> 0"
    using bit7_word16 [OF lt(1)] by simp
  show ?thesis
    unfolding ConvertToUtf16Be.simps(2) Let_def
    by (simp only: char16_char_of [OF lt(1)] char16_char_of [OF lt(2)] nth_Cons_0 code
          length_Cons zero_less_Suc if_True lead cont ascii if_False drop_Suc_Cons drop_0 One_nat_def simp_thms)
qed

lemma Convert_three:
  assumes "a < 16" "b < 64" "c < 64"
  shows "ConvertToUtf16Be (char_of (0xE0 + a) # char_of (0x80 + b) # char_of (0x80 + c) # cs) out =
         ConvertToUtf16Be cs (out @ hex_digits (word_of_nat ((0xE0 + a) * 4096 + b * 64 + c)))"
proof -
  have lt: "0xE0 + a < 256" "0x80 + b < 256" "0x80 + c < 256" using assms by auto
  have lead: "drop_bit 4 (word_of_nat (0xE0 + a) :: u16) = 0x0E"
    using drop_bit_byte_iff [of "0xE0 + a" 14 4] assms by simp
  have nolead: "drop_bit 5 (word_of_nat (0xE0 + a) :: u16) \<noteq> 0x06"
    using drop_bit_byte_iff [of "0xE0 + a" 6 5] assms by simp
  have cont: "drop_bit 6 (word_of_nat (0x80 + b) :: u16) = 0x02" if "b < 64" for b
    using drop_bit_byte_iff [of "0x80 + b" 2 6] that by simp
  have "push_bit 12 (word_of_nat (0xE0 + a) :: u16) OR push_bit 6 (word_of_nat (0x80 + b) AND 0x3F) OR
        (word_of_nat (0x80 + c) AND 0x3F)
        = word_of_nat (push_bit 12 (0xE0 + a) OR (push_bit 6 ((0x80 + b) mod 64) OR (0x80 + c) mod 64))"
    by (simp only: and_63_word16 push_bit_word16 of_nat_or_eq or.assoc)
  also have "push_bit 12 (0xE0 + a) OR (push_bit 6 ((0x80 + b) mod 64) OR (0x80 + c) mod 64)
             = (0xE0 + a) * 4096 + b * 64 + c"
    using assms or_disjoint_nat [of c 6 b] or_disjoint_nat [of "b * 64 + c" 12 "0xE0 + a"]
    by (simp add: continuation_mod)
  finally have code: "push_bit 12 (word_of_nat (0xE0 + a) :: u16) OR
      push_bit 6 (word_of_nat (0x80 + b) AND 0x3F) OR (word_of_nat (0x80 + c) AND 0x3F)
        = word_of_nat ((0xE0 + a) * 4096 + b * 64 + c)" .
  have ascii: "(word_of_nat (0xE0 + a) :: u16) AND 0x80 \<noteq> 0"
    using bit7_word16 [OF lt(1)] by simp
  show ?thesis
    unfolding ConvertToUtf16Be.simps(2) Let_def
    by (simp only: char16_char_of [OF lt(1)] char16_char_of [OF lt(2)] char16_char_of [OF lt(3)]
          nth_Cons_0 nth_Cons_Suc code length_Cons zero_less_Suc Suc_less_eq if_True lead nolead
          cont [OF assms(2)] cont [OF assms(3)] ascii if_False drop_Suc_Cons drop_0 One_nat_def
          numeral_2_eq_2 simp_thms)
qed

lemma word16_mod: "(word_of_nat n :: u16) = word_of_nat (n mod 65536)"
  by (simp add: word_of_nat_eq_iff take_bit_eq_mod)

lemma utf8_three_digits: "cp div 4096 * 4096 + (cp div 64 mod 64) * 64 + cp mod 64 = (cp :: nat)"
proof -
  have "cp div 4096 = cp div 64 div 64" by (simp add: div_mult2_eq [symmetric])
  then show ?thesis using div_mult_mod_eq [of "cp div 64" 64] div_mult_mod_eq [of cp 64] by linarith
qed

lemma Convert_utf8_three:
  assumes "0x800 \<le> cp" "cp < 0x10000"
  shows "ConvertToUtf16Be (utf8 cp @ cs) out = ConvertToUtf16Be cs (out @ utf16be_hex cp)"
proof -
  have a: "cp div 4096 < 16" using assms by (simp add: less_mult_imp_div_less)
  have n: "(0xE0 + cp div 4096) * 4096 + (cp div 64 mod 64) * 64 + cp mod 64 = cp + 14 * 65536"
    using utf8_three_digits [of cp] by simp
  have "(cp + 14 * 65536) mod 65536 = cp"
    unfolding mod_mult_self1 using assms by simp
  then have h: "hex_digits (word_of_nat (cp + 14 * 65536)) = utf16be_hex cp"
    using assms hex_digits_nat [of cp] word16_mod [of "cp + 14 * 65536"] by argo
  have "cp div 64 mod 64 < 64" "cp mod 64 < 64" by simp_all
  from Convert_three [OF a this, of cs out, unfolded n h] show ?thesis
    using assms by (simp add: utf8_def)
qed

lemma Convert_utf8_two:
  assumes "0x80 \<le> cp" "cp < 0x800"
  shows "ConvertToUtf16Be (utf8 cp @ cs) out = ConvertToUtf16Be cs (out @ utf16be_hex (cp + 0x3000))"
proof -
  have a: "cp div 64 < 32" using assms by (simp add: less_mult_imp_div_less)
  have n: "(0xC0 + cp div 64) * 64 + cp mod 64 = cp + 0x3000" by simp
  have h: "hex_digits (word_of_nat (cp + 0x3000)) = utf16be_hex (cp + 0x3000)"
    using assms by (intro hex_digits_nat) simp
  have "cp mod 64 < 64" by simp
  from Convert_two [OF a this, of cs out, unfolded n h] show ?thesis
    using assms by (simp add: utf8_def)
qed

lemma Convert_utf8_one: "cp < 0x80 \<Longrightarrow>
  ConvertToUtf16Be (utf8 cp @ cs) out = ConvertToUtf16Be cs (out @ utf16be_hex cp)"
  by (simp add: utf8_def Convert_one)

text \<open>
  What the code prints for a code point of the basic plane: the two-byte branch keeps the marker
  bits \<^verbatim>\<open>110\<close> of the lead byte, which adds \<^verbatim>\<open>0x3000\<close>.
\<close>

definition printed_cp :: "nat \<Rightarrow> nat" where
  "printed_cp cp = (if 0x80 \<le> cp \<and> cp < 0x800 then cp + 0x3000 else cp)"

lemma Convert_utf8: "cp < 0x10000 \<Longrightarrow>
  ConvertToUtf16Be (utf8 cp @ cs) out = ConvertToUtf16Be cs (out @ utf16be_hex (printed_cp cp))"
  unfolding printed_cp_def
  using Convert_utf8_one [of cp cs out] Convert_utf8_two [of cp cs out] Convert_utf8_three [of cp cs out]
  by (cases "cp < 0x80"; cases "cp < 0x800") simp_all

lemma Convert_text: "\<forall>cp\<in>set cps. cp < 0x10000 \<Longrightarrow>
  ConvertToUtf16Be (concat (map utf8 cps)) out = out @ concat (map (utf16be_hex \<circ> printed_cp) cps)"
  by (induction cps arbitrary: out) (simp_all add: Convert_utf8)

lemma Convert_cases:
  obtains (skip) n where "1 \<le> n" "ConvertToUtf16Be (c # cs) out = ConvertToUtf16Be (drop n (c # cs)) out"
  | (code) n u where "1 \<le> n"
      "ConvertToUtf16Be (c # cs) out = ConvertToUtf16Be (drop n (c # cs)) (out @ hex_digits u)"
proof -
  have d: "drop 1 cs = drop 2 (c # cs)" "drop 2 cs = drop 3 (c # cs)" "cs = drop 1 (c # cs)"
    by (simp_all add: numeral_3_eq_3 numeral_2_eq_2)
  show thesis
    using that unfolding ConvertToUtf16Be.simps(2) Let_def d(1,2)
    by (smt (verit) d(3) numeral_eq_one_iff one_le_numeral le_refl)
qed

definition is_hex_upper :: "char \<Rightarrow> bool" where
  "is_hex_upper c \<longleftrightarrow> c \<in> set ''0123456789ABCDEF''"

lemma hex_upper_is_hex: "d < 16 \<Longrightarrow> is_hex_upper (hex_upper d)"
proof -
  have "\<forall>d\<in>set [0..<16]. is_hex_upper (hex_upper d)" by code_simp
  then show "d < 16 \<Longrightarrow> ?thesis" by simp
qed

lemma length_utf16be_hex [simp]: "length (utf16be_hex n) = 4"
  by (simp add: utf16be_hex_def)

lemma list_all_utf16be_hex: "list_all is_hex_upper (utf16be_hex n)"
  by (simp add: utf16be_hex_def hex_upper_is_hex)

lemma hex_digits_unat: "hex_digits u = utf16be_hex (unat u)"
proof -
  have "unat u < 65536" using unsigned_less [of u, where ?'a = nat] by simp
  then show ?thesis using hex_digits_nat [of "unat u"] by simp
qed

lemma Convert_shape_aux:
  "list_all is_hex_upper out \<Longrightarrow>
   list_all is_hex_upper (ConvertToUtf16Be s out) \<and>
   length (ConvertToUtf16Be s out) \<le> length out + 4 * length s \<and>
   (4 dvd length out \<longrightarrow> 4 dvd length (ConvertToUtf16Be s out))"
proof (induction s arbitrary: out rule: length_induct)
  case (1 s)
  show ?case
  proof (cases s)
    case Nil
    with 1(2) show ?thesis by simp
  next
    case (Cons c cs)
    have IH: "list_all is_hex_upper o' \<Longrightarrow> 1 \<le> n \<Longrightarrow>
        list_all is_hex_upper (ConvertToUtf16Be (drop n s) o') \<and>
        length (ConvertToUtf16Be (drop n s) o') \<le> length o' + 4 * length (drop n s) \<and>
        (4 dvd length o' \<longrightarrow> 4 dvd length (ConvertToUtf16Be (drop n s) o'))" for n o'
      using 1(1) [rule_format, of "drop n s" o'] Cons by simp
    show ?thesis
    proof (cases rule: Convert_cases [of c cs out])
      case (skip n)
      with IH [OF 1(2), of n] Cons show ?thesis by auto
    next
      case (code n u)
      have "list_all is_hex_upper (out @ hex_digits u)"
        using 1(2) by (simp add: hex_digits_unat list_all_utf16be_hex)
      from IH [OF this code(1)] code Cons show ?thesis by (auto simp: hex_digits_unat)
    qed
  qed
qed

section \<open>Properties\<close>

text \<open>
  C12: on the UTF-8 encoding of a text whose code points are ASCII or take three bytes (all of
  Chinese, the language of the messages), \<^verbatim>\<open>ConvertToUtf16Be\<close> appends exactly the four
  hexadecimal digits of the UTF-16BE code unit of each code point, in order.
\<close>

theorem ConvertToUtf16Be_correct:
  assumes "\<forall>cp\<in>set cps. cp < 0x80 \<or> (0x800 \<le> cp \<and> cp < 0x10000)"
  shows "ConvertToUtf16Be (concat (map utf8 cps)) out = out @ concat (map utf16be_hex cps)"
proof -
  have "\<forall>cp\<in>set cps. cp < 0x10000" and "map (utf16be_hex \<circ> printed_cp) cps = map utf16be_hex cps"
    using assms by (auto simp: printed_cp_def)
  then show ?thesis using Convert_text [of cps out] by argo
qed

theorem ConvertToUtf16Be_correct_witness:
  "ConvertToUtf16Be (concat (map utf8 [0x4E, 0x2D, 0x524D, 0x95E8])) [] = ''004E002D524D95E8''"
proof -
  have h: "\<forall>cp\<in>set [0x4E, 0x2D, 0x524D, 0x95E8 :: nat]. cp < 0x80 \<or> (0x800 \<le> cp \<and> cp < 0x10000)"
    by simp
  show ?thesis
    unfolding ConvertToUtf16Be_correct [OF h]
    by (simp add: utf16be_hex_def hex_upper_def char_of_def bit_Suc_0_iff)
qed

text \<open>
  A code point of two UTF-8 bytes (U+0080 to U+07FF) is printed as a different character: the
  branch does not mask the lead byte, so the unit is the code point plus \<^verbatim>\<open>0x3000\<close>.
\<close>

lemma ConvertToUtf16Be_two_byte_wrong:
  assumes "0x80 \<le> cp" "cp < 0x800"
  shows "ConvertToUtf16Be (utf8 cp) [] = utf16be_hex (cp + 0x3000) \<and>
         ConvertToUtf16Be (utf8 cp) [] \<noteq> utf16be_hex cp"
proof -
  have "ConvertToUtf16Be (utf8 cp) [] = utf16be_hex (cp + 0x3000)"
    using Convert_utf8_two [OF assms, of "[]" "[]"] by simp
  moreover have "(cp + 0x3000) div 4096 = 3" "cp div 4096 = 0" using assms by auto
  then have "utf16be_hex (cp + 0x3000) \<noteq> utf16be_hex cp"
    by (simp add: utf16be_hex_def hex_upper_def char_of_def)
  ultimately show ?thesis by simp
qed

text \<open>
  Whatever the bytes of the input, \<^verbatim>\<open>ConvertToUtf16Be\<close> ends and appends only upper-case
  hexadecimal digits, in whole code units, at most one unit for each input byte.
\<close>

lemma ConvertToUtf16Be_shape:
  "\<exists>ys. ConvertToUtf16Be s out = out @ ys \<and> list_all is_hex_upper ys \<and>
        4 dvd length ys \<and> length ys \<le> 4 * length s"
proof -
  have "ConvertToUtf16Be s out = out @ ConvertToUtf16Be s []"
    using Convert_append [of s out "[]"] by simp
  then show ?thesis using Convert_shape_aux [of "[]" s] by auto
qed

section \<open>The assembled command\<close>

abbreviation msg_head :: string where
  "msg_head \<equiv> ''send_message('' @ [CHR 0x22]"

abbreviation msg_mid :: string where
  "msg_mid \<equiv> [CHR 0x22] @ '','' @ [CHR 0x22]"

abbreviation msg_tail :: string where
  "msg_tail \<equiv> [CHR 0x22] @ '')'' @ [CHR 0x0D, CHR 0x0A]"

text \<open>The fixed texts between the three fields: the title and the two labels, in UTF-16BE.\<close>

abbreviation msg_title :: string where
  "msg_title \<equiv> ''002053D1751F79FB52A84FA66D4B62A58B66000A644450CF673A540D79F0FF1A''"

abbreviation msg_label :: string where
  "msg_label \<equiv> ''000A644450CF673A00490050FF1A''"

lemma strMsgSent_split: "strMsgSent = msg_head @ msg_mid @ msg_title @ msg_label @ msg_tail"
  by (simp add: strMsgSent_def)

lemma length_strMsgSent: "length strMsgSent = 113"
  by (simp add: strMsgSent_def)

lemma str_insert_ex: "n \<le> length str \<Longrightarrow>
  \<exists>r. str_insert n s str = Some r \<and> length r = length str + length s"
  by (simp add: str_insert_def)

lemma str_insert_at: "n = length xs \<Longrightarrow> str_insert n s (xs @ ys) = Some (xs @ s @ ys)"
  by simp

lemma PackMsgToAlarm_fields:
  assumes "strIp \<noteq> []" "length strPhoneNum = 11"
  shows "PackMsgToAlarm strDateTime strIp strName strPhoneNum =
    Some (msg_head @ strPhoneNum @ msg_mid @ ConvertToUtf16Be strDateTime [] @ msg_title @
          ConvertToUtf16Be strName [] @ msg_label @ ConvertToUtf16Be strIp [] @ msg_tail)"
proof -
  let ?d = "ConvertToUtf16Be strDateTime []" and ?n = "ConvertToUtf16Be strName []"
    and ?i = "ConvertToUtf16Be strIp []"
  have ne: "strPhoneNum \<noteq> []" using assms by auto
  have 1: "str_insert 14 strPhoneNum strMsgSent =
      Some (msg_head @ strPhoneNum @ (msg_mid @ msg_title @ msg_label @ msg_tail))"
    unfolding strMsgSent_split by (rule str_insert_at) simp
  have 2: "str_insert 28 ?d (msg_head @ strPhoneNum @ (msg_mid @ msg_title @ msg_label @ msg_tail)) =
      Some ((msg_head @ strPhoneNum @ msg_mid) @ ?d @ (msg_title @ msg_label @ msg_tail))"
    using str_insert_at [of 28 "msg_head @ strPhoneNum @ msg_mid" ?d "msg_title @ msg_label @ msg_tail"]
      assms by simp
  have 3: "str_insert (92 + length ?d) ?n ((msg_head @ strPhoneNum @ msg_mid) @ ?d @ (msg_title @ msg_label @ msg_tail)) =
      Some ((msg_head @ strPhoneNum @ msg_mid @ ?d @ msg_title) @ ?n @ (msg_label @ msg_tail))"
    using str_insert_at [of "92 + length ?d" "msg_head @ strPhoneNum @ msg_mid @ ?d @ msg_title" ?n
      "msg_label @ msg_tail"] assms by simp
  have 4: "str_insert (120 + length ?d + length ?n) ?i
        ((msg_head @ strPhoneNum @ msg_mid @ ?d @ msg_title) @ ?n @ (msg_label @ msg_tail)) =
      Some ((msg_head @ strPhoneNum @ msg_mid @ ?d @ msg_title @ ?n @ msg_label) @ ?i @ msg_tail)"
    using str_insert_at [of "120 + length ?d + length ?n"
      "msg_head @ strPhoneNum @ msg_mid @ ?d @ msg_title @ ?n @ msg_label" ?i msg_tail] assms by simp
  show ?thesis
    unfolding PackMsgToAlarm_def Let_def using assms ne 1 2 3 4 by (simp add: algebra_simps)
qed

text \<open>
  C13: for a mobile number of eleven digits and a non-empty address, the command is the template with
  the number in its first argument, and in its second argument the converted date and time, the
  title, the converted camera name, the label and the converted address, in this order.
\<close>

theorem PackMsgToAlarm_layout:
  assumes "strIp \<noteq> []" "length strPhoneNum = 11"
  shows "PackMsgToAlarm strDateTime strIp strName strPhoneNum =
    Some (msg_head @ strPhoneNum @ msg_mid @ ConvertToUtf16Be strDateTime [] @ msg_title @
          ConvertToUtf16Be strName [] @ msg_label @ ConvertToUtf16Be strIp [] @ msg_tail)"
  using assms by (rule PackMsgToAlarm_fields)

theorem PackMsgToAlarm_layout_witness:
  "''10.0.0.7'' \<noteq> [] \<and> length ''13800000001'' = 11 \<and>
   PackMsgToAlarm ''12:00'' ''10.0.0.7'' ''Gate'' ''13800000001'' \<noteq> None"
  using PackMsgToAlarm_layout [of "''10.0.0.7''" "''13800000001''" "''12:00''" "''Gate''"] by simp

text \<open>
  \<^verbatim>\<open>PackMsgToAlarm\<close> throws \<^verbatim>\<open>std::out_of_range\<close> exactly when the address and the number are
  present and the number is shorter than seven characters: the positions are computed for a
  number of eleven characters, and no length is checked.
\<close>

lemma PackMsgToAlarm_throws_iff:
  "PackMsgToAlarm strDateTime strIp strName strPhoneNum = None \<longleftrightarrow>
   strIp \<noteq> [] \<and> strPhoneNum \<noteq> [] \<and> length strPhoneNum < 7"
proof (cases "strIp = [] \<or> strPhoneNum = []")
  case True
  then show ?thesis by (auto simp: PackMsgToAlarm_def)
next
  case False
  let ?d = "ConvertToUtf16Be strDateTime []" and ?n = "ConvertToUtf16Be strName []"
  have "14 \<le> length strMsgSent" by (simp add: length_strMsgSent)
  then obtain m1 where m1: "str_insert 14 strPhoneNum strMsgSent = Some m1"
    "length m1 = 113 + length strPhoneNum"
    using str_insert_ex [of 14 strMsgSent strPhoneNum] length_strMsgSent by auto
  then obtain m2 where m2: "str_insert 28 ?d m1 = Some m2"
    "length m2 = 113 + length strPhoneNum + length ?d"
    using str_insert_ex [of 28 m1 ?d] by auto
  then obtain m3 where m3: "str_insert (92 + length ?d) ?n m2 = Some m3"
    "length m3 = 113 + length strPhoneNum + length ?d + length ?n"
    using str_insert_ex [of "92 + length ?d" m2 ?n] by auto
  have "PackMsgToAlarm strDateTime strIp strName strPhoneNum =
      str_insert (120 + length ?d + length ?n) (ConvertToUtf16Be strIp []) m3"
    unfolding PackMsgToAlarm_def Let_def using False m1(1) m2(1) m3(1) by (simp add: algebra_simps)
  then show ?thesis using False m3(2) by (auto simp: str_insert_def)
qed

end
