(* ===== verification/Serial_Port.thy ===== *)
theory Serial_Port
  imports Complex_Main Serial_Encoding Std_Map
begin

text \<open>
  The device side of \<^verbatim>\<open>SerialPort\<close> (\<^verbatim>\<open>src/src/SerialPort.cpp\<close>, lines 11 to 44 and 163 to 602): opening and
  configuring the port, buffered line input, output, and the wheel-speed frame.

  The object is a \<open>serial_port\<close> record and the terminal device behind its descriptor a \<open>tty\<close> record:
  the settings, the bytes received and not yet read, and the bytes accepted for output and not yet
  transmitted. What the system decides (whether a device opens, what \<^verbatim>\<open>select\<close> returns, how many
  bytes one \<^verbatim>\<open>read\<close> or \<^verbatim>\<open>write\<close> moves) is an argument. \<^verbatim>\<open>read\<close> moves bytes from the front of the
  received ones, never more than asked for or present; \<^verbatim>\<open>write\<close> appends a prefix of its buffer;
  \<^verbatim>\<open>tcflush(TCOFLUSH)\<close> discards the bytes that wait for transmission.

  The counters of the line buffer are natural numbers: the invariant \<open>line_inv\<close> bounds them by 256,
  so their 32-bit arithmetic does not wrap. \<open>None\<close> is an access outside an array.
\<close>

section \<open>State\<close>

definition UART_FALSE :: int where "UART_FALSE = -1"
definition UART_TRUE :: int where "UART_TRUE = 0"
definition READ_LINE_BUF_SIZE :: nat where "READ_LINE_BUF_SIZE = 256"

record termios =
  c_iflag :: u32
  c_oflag :: u32
  c_cflag :: u32
  c_lflag :: u32
  c_cc :: "u8 list"
  c_ispeed :: u32
  c_ospeed :: u32

record tty =
  settings :: termios
  rx_queue :: "u8 list"
  tx_queue :: "u8 list"

record serial_port =
  fd :: int
  isnormal :: int
  ucReadLineBuf :: "u8 list"
  uiReadLineValidSize :: nat
  uiReadLineIdx :: nat
  Utf16beConvertor :: "(char, string) omap"

text \<open>The assignments of the constructor to \<^verbatim>\<open>Utf16beConvertor\<close>, in their order.\<close>

definition convertor_table :: "(char \<times> string) list" where
  "convertor_table = [(CHR ''0'', ''0030''), (CHR ''1'', ''0031''), (CHR ''2'', ''0032''),
     (CHR ''3'', ''0033''), (CHR ''4'', ''0034''), (CHR ''5'', ''0035''), (CHR ''6'', ''0036''),
     (CHR ''7'', ''0037''), (CHR ''8'', ''0038''), (CHR ''9'', ''0039''), (CHR '' '', ''0020''),
     (CHR ''-'', ''002D''), (CHR ''.'', ''002E''), (CHR '':'', ''003A'')]"

definition SerialPort :: serial_port where
  "SerialPort = \<lparr>fd = UART_FALSE, isnormal = UART_FALSE,
     ucReadLineBuf = replicate READ_LINE_BUF_SIZE 0, uiReadLineValidSize = 0, uiReadLineIdx = 0,
     Utf16beConvertor = fold (\<lambda>(c, s). omap_put c s) convertor_table []\<rparr>"

section \<open>Configuration\<close>

text \<open>The constants of \<^verbatim>\<open>termios.h\<close> on Linux.\<close>

abbreviation "CBAUD \<equiv> 0x100F :: u32"
abbreviation "CBAUDEX \<equiv> 0x1000 :: u32"
abbreviation "IBAUD0 \<equiv> 0x80000000 :: u32"
abbreviation "CLOCAL \<equiv> 0x800 :: u32"
abbreviation "CREAD \<equiv> 0x80 :: u32"
abbreviation "CRTSCTS \<equiv> 0x80000000 :: u32"
abbreviation "IXON \<equiv> 0x400 :: u32"
abbreviation "IXOFF \<equiv> 0x1000 :: u32"
abbreviation "IXANY \<equiv> 0x800 :: u32"
abbreviation "CSIZE \<equiv> 0x30 :: u32"
abbreviation "CS5 \<equiv> 0x00 :: u32"
abbreviation "CS6 \<equiv> 0x10 :: u32"
abbreviation "CS7 \<equiv> 0x20 :: u32"
abbreviation "CS8 \<equiv> 0x30 :: u32"
abbreviation "PARENB \<equiv> 0x100 :: u32"
abbreviation "PARODD \<equiv> 0x200 :: u32"
abbreviation "CSTOPB \<equiv> 0x40 :: u32"
abbreviation "INPCK \<equiv> 0x10 :: u32"
abbreviation "ICRNL \<equiv> 0x100 :: u32"
abbreviation "OPOST \<equiv> 0x01 :: u32"
abbreviation "ISIG \<equiv> 0x01 :: u32"
abbreviation "ICANON \<equiv> 0x02 :: u32"
abbreviation "ECHO \<equiv> 0x08 :: u32"
abbreviation "ECHOE \<equiv> 0x10 :: u32"
abbreviation "VTIME \<equiv> 5 :: nat"
abbreviation "VMIN \<equiv> 6 :: nat"

definition speed_arr :: "u32 list" where
  "speed_arr = [0x1002, 0xE, 0xD, 0xC, 0xB, 0x9, 0x7]"

definition name_arr :: "u32 list" where
  "name_arr = [115200, 19200, 9600, 4800, 2400, 1200, 300]"

text \<open>
  The C library keeps a speed in its own field and as the rate bits of the control word. A code with bits outside
  \<^verbatim>\<open>CBAUD\<close> is refused and changes nothing; the input speed 0 means the output speed and is only marked, in the
  input word.
\<close>

definition cfsetispeed :: "u32 \<Rightarrow> termios \<Rightarrow> termios" where
  "cfsetispeed sp t =
     (if sp AND NOT CBAUD \<noteq> 0 then t
      else if sp = 0 then t\<lparr>c_ispeed := sp, c_iflag := c_iflag t OR IBAUD0\<rparr>
      else t\<lparr>c_ispeed := sp, c_iflag := c_iflag t AND NOT IBAUD0, c_cflag := (c_cflag t AND NOT CBAUD) OR sp\<rparr>)"

definition cfsetospeed :: "u32 \<Rightarrow> termios \<Rightarrow> termios" where
  "cfsetospeed sp t =
     (if sp AND NOT CBAUD \<noteq> 0 then t
      else t\<lparr>c_ospeed := sp, c_cflag := (c_cflag t AND NOT CBAUD) OR sp\<rparr>)"

text \<open>
  The loop runs to \<^verbatim>\<open>sizeof(speed_arr)\<close>, the 28 bytes of the array, over its 7 elements. What the
  stack holds after the two arrays is the argument \<open>past\<close>: a pair of words for each further index.
\<close>

definition arr_at :: "(nat \<Rightarrow> u32 \<times> u32) \<Rightarrow> nat \<Rightarrow> u32 \<times> u32" where
  "arr_at past i = (if i < 7 then (name_arr ! i, speed_arr ! i) else past i)"

fun speed_loop :: "(nat \<Rightarrow> u32 \<times> u32) \<Rightarrow> u32 \<Rightarrow> nat list \<Rightarrow> termios \<Rightarrow> termios" where
  "speed_loop past baundrate [] options = options"
| "speed_loop past baundrate (i # is) options =
     speed_loop past baundrate is
       (if baundrate = fst (arr_at past i)
        then cfsetospeed (snd (arr_at past i)) (cfsetispeed (snd (arr_at past i)) options)
        else options)"

definition flow_flags :: "u32 \<Rightarrow> termios \<Rightarrow> termios" where
  "flow_flags flow_ctrl t =
     (if flow_ctrl = 0 then t\<lparr>c_cflag := c_cflag t AND NOT CRTSCTS\<rparr>
      else if flow_ctrl = 1 then t\<lparr>c_cflag := c_cflag t OR CRTSCTS\<rparr>
      else if flow_ctrl = 2 then t\<lparr>c_cflag := c_cflag t OR (IXON OR IXOFF OR IXANY)\<rparr>
      else t)"

definition data_flags :: "u32 \<Rightarrow> termios \<Rightarrow> termios option" where
  "data_flags databits t0 =
     (let t = t0\<lparr>c_cflag := c_cflag t0 AND NOT CSIZE\<rparr>
      in if databits = 5 then Some (t\<lparr>c_cflag := c_cflag t OR CS5\<rparr>)
         else if databits = 6 then Some (t\<lparr>c_cflag := c_cflag t OR CS6\<rparr>)
         else if databits = 7 then Some (t\<lparr>c_cflag := c_cflag t OR CS7\<rparr>)
         else if databits = 8 then Some (t\<lparr>c_cflag := c_cflag t OR CS8\<rparr>)
         else None)"

definition parity_flags :: "char \<Rightarrow> termios \<Rightarrow> termios option" where
  "parity_flags parity t =
     (if parity = CHR ''n'' \<or> parity = CHR ''N'' then
        Some (t\<lparr>c_cflag := c_cflag t AND NOT PARENB, c_iflag := c_iflag t AND NOT INPCK\<rparr>)
      else if parity = CHR ''o'' \<or> parity = CHR ''O'' then
        Some (t\<lparr>c_cflag := c_cflag t OR (PARODD OR PARENB), c_iflag := c_iflag t OR INPCK\<rparr>)
      else if parity = CHR ''e'' \<or> parity = CHR ''E'' then
        Some (t\<lparr>c_cflag := (c_cflag t OR PARENB) AND NOT PARODD, c_iflag := c_iflag t OR INPCK\<rparr>)
      else if parity = CHR ''s'' \<or> parity = CHR ''S'' then
        Some (t\<lparr>c_cflag := (c_cflag t AND NOT PARENB) AND NOT CSTOPB\<rparr>)
      else None)"

definition stop_flags :: "u32 \<Rightarrow> termios \<Rightarrow> termios option" where
  "stop_flags stopbits t =
     (if stopbits = 1 then Some (t\<lparr>c_cflag := c_cflag t AND NOT CSTOPB\<rparr>)
      else if stopbits = 2 then Some (t\<lparr>c_cflag := c_cflag t OR CSTOPB\<rparr>)
      else None)"

definition raw_mode :: "termios \<Rightarrow> termios" where
  "raw_mode t = t\<lparr>c_oflag := c_oflag t AND NOT OPOST,
     c_iflag := c_iflag t AND NOT ICRNL,
     c_lflag := c_lflag t AND NOT (ICANON OR ECHO OR ECHOE OR ISIG),
     c_cc := (c_cc t)[VTIME := 1, VMIN := 1]\<rparr>"

text \<open>The results of \<^verbatim>\<open>tcgetattr\<close> and \<^verbatim>\<open>tcsetattr\<close> are arguments; \<open>None\<close> of the flags is an early return.\<close>

definition new_options :: "(nat \<Rightarrow> u32 \<times> u32) \<Rightarrow> u32 \<Rightarrow> u32 \<Rightarrow> u32 \<Rightarrow> u32 \<Rightarrow> char \<Rightarrow> termios \<Rightarrow> termios option" where
  "new_options past baundrate flow_ctrl databits stopbits parity options =
     (let t1 = speed_loop past baundrate [0..<28] options;
          t2 = t1\<lparr>c_cflag := (c_cflag t1 OR CLOCAL) OR CREAD\<rparr>
      in do {
        t3 \<leftarrow> data_flags databits (flow_flags flow_ctrl t2);
        t4 \<leftarrow> parity_flags parity t3;
        t5 \<leftarrow> stop_flags stopbits t4;
        Some (raw_mode t5)
      })"

definition Set :: "(nat \<Rightarrow> u32 \<times> u32) \<Rightarrow> int \<Rightarrow> int \<Rightarrow> u32 \<Rightarrow> u32 \<Rightarrow> u32 \<Rightarrow> u32 \<Rightarrow> char \<Rightarrow> tty \<Rightarrow> int \<times> tty" where
  "Set past tcgetattr_ret tcsetattr_ret baundrate flow_ctrl databits stopbits parity d =
     (if tcgetattr_ret \<noteq> 0 then (UART_FALSE, d)
      else case new_options past baundrate flow_ctrl databits stopbits parity (settings d) of
        None \<Rightarrow> (UART_FALSE, d)
      | Some options \<Rightarrow>
          let d1 = d\<lparr>rx_queue := []\<rparr>
          in if tcsetattr_ret \<noteq> 0 then (UART_FALSE, d1)
             else (UART_TRUE, d1\<lparr>settings := options\<rparr>))"

text \<open>
  \<^verbatim>\<open>Open\<close> walks the three device names; \<open>open_ret\<close> is what \<^verbatim>\<open>open\<close> returns for each and \<open>dev\<close> the
  terminal of each name.
\<close>

definition dev_t :: "string list" where
  "dev_t = [''/dev/ttyUSB0'', ''/dev/ttyUSB1'', ''/dev/ttyUSB2'']"

fun open_loop :: "(string \<Rightarrow> int) \<Rightarrow> string list \<Rightarrow> int \<times> string option" where
  "open_loop open_ret [] = (UART_FALSE, None)"
| "open_loop open_ret (n # ns) =
     (if open_ret n = UART_FALSE then open_loop open_ret ns else (open_ret n, Some n))"

definition Open :: "(nat \<Rightarrow> u32 \<times> u32) \<Rightarrow> (string \<Rightarrow> int) \<Rightarrow> int \<Rightarrow> int \<Rightarrow> u32 \<Rightarrow> u32 \<Rightarrow> u32 \<Rightarrow> char \<Rightarrow>
    serial_port \<Rightarrow> (string \<Rightarrow> tty) \<Rightarrow> int \<times> serial_port \<times> (string \<Rightarrow> tty)" where
  "Open past open_ret tcgetattr_ret tcsetattr_ret baundrate databite stopbite parity p dev =
     (case open_loop open_ret dev_t of
        (f, None) \<Rightarrow> (UART_FALSE, p\<lparr>fd := f\<rparr>, dev)
      | (f, Some n) \<Rightarrow>
          let (r, d) = Set past tcgetattr_ret tcsetattr_ret baundrate 0 databite stopbite parity (dev n)
          in (r, p\<lparr>fd := f, isnormal := r\<rparr>, dev(n := d)))"

text \<open>\<^verbatim>\<open>Close\<close>: the descriptor is handed to \<^verbatim>\<open>close\<close>; the object keeps its number.\<close>

definition Close :: "serial_port \<Rightarrow> int list \<Rightarrow> serial_port \<times> int list" where
  "Close p closed_fds = (p, closed_fds @ [fd p])"

section \<open>Input\<close>

text \<open>
  One round of system results: what \<^verbatim>\<open>select\<close> returns and how many bytes \<^verbatim>\<open>read\<close> is ready to move.
\<close>

record os_event =
  select_ret :: int
  read_chunk :: nat

definition os_read :: "nat \<Rightarrow> nat \<Rightarrow> u8 list \<Rightarrow> u8 list \<times> u8 list" where
  "os_read chunk n q = (let k = min chunk n in (take k q, drop k q))"

text \<open>
  \<^verbatim>\<open>readBuffer\<close>: the result is the return value, the bytes stored from \<^verbatim>\<open>read_buf\<close> on, \<^verbatim>\<open>read_len\<close> and
  the device. \<open>is_null\<close> is the test of the pointer. \<^verbatim>\<open>read\<close> returns a positive count exactly when it
  moved bytes.
\<close>

definition readBuffer :: "os_event \<Rightarrow> bool \<Rightarrow> nat \<Rightarrow> nat \<Rightarrow> serial_port \<Rightarrow> tty \<Rightarrow> int \<times> u8 list \<times> nat \<times> tty" where
  "readBuffer ev is_null buf_len read_len p d =
     (if is_null then (UART_FALSE, [], read_len, d)
      else if isnormal p = UART_FALSE then (UART_FALSE, [], read_len, d)
      else if select_ret ev < 0 then (UART_FALSE, [], read_len, d)
      else if select_ret ev = 0 then (UART_FALSE, [], read_len, d)
      else
        let (bytes, rest) = os_read (read_chunk ev) buf_len (rx_queue d)
        in if 0 < length bytes then (UART_TRUE, bytes, length bytes, d\<lparr>rx_queue := rest\<rparr>)
           else (UART_FALSE, [], read_len, d))"

text \<open>\<^verbatim>\<open>memset(buf + n, 0, READ_LINE_BUF_SIZE - n)\<close> and a copy of bytes to \<^verbatim>\<open>buf + off\<close>.\<close>

definition clear_from :: "nat \<Rightarrow> u8 list \<Rightarrow> u8 list" where
  "clear_from n buf = take n buf @ replicate (length buf - n) 0"

definition store_at :: "nat \<Rightarrow> u8 list \<Rightarrow> u8 list \<Rightarrow> u8 list option" where
  "store_at off bytes buf =
     (if off + length bytes \<le> length buf
      then Some (take off buf @ bytes @ drop (off + length bytes) buf) else None)"

text \<open>
  The \<^verbatim>\<open>for\<close> loop of \<^verbatim>\<open>readLine\<close>: it leaves by \<^verbatim>\<open>return UART_TRUE\<close> with a line, by
  \<^verbatim>\<open>return UART_FALSE\<close>, or falls through to the next read (by \<^verbatim>\<open>break\<close> or at its end).
\<close>

datatype scan_exit = ScanLine "u8 list" | ScanFalse | ScanRead

function scan_loop :: "bool \<Rightarrow> nat \<Rightarrow> serial_port \<Rightarrow> (scan_exit \<times> serial_port) option" where
  "scan_loop is_need_return i p =
     (if i < uiReadLineValidSize p then
        if \<not> i < length (ucReadLineBuf p) then None
        else
          let idx = uiReadLineIdx p;
              buf = (if idx > 0 then (ucReadLineBuf p)[i - idx := ucReadLineBuf p ! i] else ucReadLineBuf p);
              p1 = p\<lparr>ucReadLineBuf := buf\<rparr>
          in if buf ! i \<noteq> 0x0A then
               if i = uiReadLineValidSize p - 1 then
                 let p2 = (if idx > 0 then p1\<lparr>uiReadLineValidSize := uiReadLineValidSize p - idx, uiReadLineIdx := 0\<rparr>
                           else p1);
                     p3 = p2\<lparr>ucReadLineBuf := clear_from (uiReadLineValidSize p2) buf\<rparr>
                 in if is_need_return then Some (ScanFalse, p3) else Some (ScanRead, p3)
               else scan_loop is_need_return (i + 1) p1
             else
               let read_len = i + 1 - idx;
                   p2 = p1\<lparr>uiReadLineIdx := i + 1\<rparr>;
                   p3 = (if i + 1 \<ge> uiReadLineValidSize p
                         then p2\<lparr>uiReadLineValidSize := 0, uiReadLineIdx := 0\<rparr> else p2)
               in Some (ScanLine (take read_len buf), p3)
      else Some (ScanRead, p))"
  by pat_completeness auto
termination
  by (relation "measure (\<lambda>(_, i, p). uiReadLineValidSize p - i)") (auto simp: Let_def split: if_splits)

declare scan_loop.simps [simp del]

text \<open>
  The body from the label \<^verbatim>\<open>read_line_handle\<close> on; every \<^verbatim>\<open>goto\<close> takes the next round of system
  results. The result is the return value, the bytes copied to \<^verbatim>\<open>read_buf\<close>, \<^verbatim>\<open>read_len\<close>, the object
  and the device; \<open>None\<close> also when the list of rounds is used up.
\<close>

fun read_line_handle :: "bool \<Rightarrow> nat \<Rightarrow> os_event list \<Rightarrow> serial_port \<Rightarrow> tty \<Rightarrow>
    (int \<times> u8 list \<times> nat \<times> serial_port \<times> tty) option"
and read_more :: "nat \<Rightarrow> os_event list \<Rightarrow> serial_port \<Rightarrow> tty \<Rightarrow>
    (int \<times> u8 list \<times> nat \<times> serial_port \<times> tty) option" where
  "read_line_handle is_need_return read_len evs p d =
     (case (if uiReadLineValidSize p > 0 then scan_loop is_need_return (uiReadLineIdx p) p
            else Some (ScanRead, p)) of
        None \<Rightarrow> None
      | Some (ScanLine l, p1) \<Rightarrow> Some (UART_TRUE, l, length l, p1, d)
      | Some (ScanFalse, p1) \<Rightarrow> Some (UART_FALSE, [], read_len, p1, d)
      | Some (ScanRead, p1) \<Rightarrow> read_more read_len evs p1 d)"
| "read_more read_len [] p d = None"
| "read_more read_len (ev # evs) p d =
     (let v = uiReadLineValidSize p;
          (r, bytes, read_len', d') = readBuffer ev False (READ_LINE_BUF_SIZE - v) read_len p d
      in if r = UART_FALSE then Some (UART_FALSE, [], read_len', p, d')
         else case store_at v bytes (ucReadLineBuf p) of
             None \<Rightarrow> None
           | Some buf \<Rightarrow>
               read_line_handle True read_len' evs
                 (p\<lparr>ucReadLineBuf := buf, uiReadLineValidSize := v + read_len'\<rparr>) d')"

definition readLine :: "bool \<Rightarrow> nat \<Rightarrow> os_event list \<Rightarrow> serial_port \<Rightarrow> tty \<Rightarrow>
    (int \<times> u8 list \<times> nat \<times> serial_port \<times> tty) option" where
  "readLine is_null read_len evs p d =
     (if is_null then Some (UART_FALSE, [], read_len, p, d) else read_line_handle False read_len evs p d)"

section \<open>Output\<close>

definition writeBuffer :: "int \<Rightarrow> u8 list \<Rightarrow> serial_port \<Rightarrow> tty \<Rightarrow> int \<times> tty" where
  "writeBuffer write_ret write_buf p d =
     (if isnormal p = UART_FALSE then (UART_FALSE, d)
      else
        let d1 = d\<lparr>tx_queue := tx_queue d @ take (nat write_ret) write_buf\<rparr>
        in if write_ret > 0 \<and> nat write_ret = length write_buf then (UART_TRUE, d1)
           else (UART_FALSE, d1\<lparr>tx_queue := []\<rparr>))"

text \<open>
  The two overloads of \<^verbatim>\<open>XorCode\<close>: on bytes, and on a string, whose characters are sign-extended to
  \<^verbatim>\<open>int\<close>. Both read element 0 whatever the length.
\<close>

definition XorCode :: "u8 list \<Rightarrow> nat \<Rightarrow> u8 option" where
  "XorCode buf len =
     (if buf = [] \<or> length buf < len then None
      else Some (foldl (\<lambda>ans b. ans XOR b) (buf ! 0) (drop 1 (take len buf)) AND 0x7F))"

definition XorCode_string :: "string \<Rightarrow> nat \<Rightarrow> u8 option" where
  "XorCode_string buf len =
     (if buf = [] \<or> length buf < len then None
      else Some (word_of_int (foldl (\<lambda>ans c. ans XOR schar c) (schar (buf ! 0)) (drop 1 (take len buf)) AND 0x7F)))"

text \<open>A \<^verbatim>\<open>float\<close> is the rational it denotes; its conversion to \<^verbatim>\<open>int\<close> drops the fraction.\<close>

definition float_to_int :: "rat \<Rightarrow> int" where
  "float_to_int x = (if 0 \<le> x then \<lfloor>x\<rfloor> else \<lceil>x\<rceil>)"

definition wheel_frame :: "int \<Rightarrow> int \<Rightarrow> u8 list option" where
  "wheel_frame lspeed rspeed =
     (let body = map word_of_int
            [lspeed, drop_bit 8 lspeed, drop_bit 16 lspeed, drop_bit 24 lspeed,
             rspeed, drop_bit 8 rspeed, drop_bit 16 rspeed, drop_bit 24 rspeed]
      in do {
        code \<leftarrow> XorCode body 8;
        Some (byte_of CHR ''S'' # body @ [code, byte_of CHR ''E''])
      })"

definition sendWheelSpd :: "int \<Rightarrow> rat \<Rightarrow> rat \<Rightarrow> serial_port \<Rightarrow> tty \<Rightarrow> (int \<times> tty) option" where
  "sendWheelSpd write_ret lspd rspd p d =
     do {
       buff \<leftarrow> wheel_frame (float_to_int lspd) (float_to_int rspd);
       Some (writeBuffer write_ret buff p d)
     }"

section \<open>The line buffer as a sequence of pending bytes\<close>

definition line_inv :: "serial_port \<Rightarrow> bool" where
  "line_inv p \<longleftrightarrow> length (ucReadLineBuf p) = READ_LINE_BUF_SIZE \<and>
     uiReadLineValidSize p \<le> READ_LINE_BUF_SIZE \<and>
     (uiReadLineIdx p < uiReadLineValidSize p \<or> uiReadLineIdx p = 0 \<and> uiReadLineValidSize p = 0)"

definition pending :: "serial_port \<Rightarrow> u8 list" where
  "pending p = drop (uiReadLineIdx p) (take (uiReadLineValidSize p) (ucReadLineBuf p))"

text \<open>The parts of the object that line input leaves alone.\<close>

definition same_port :: "serial_port \<Rightarrow> serial_port \<Rightarrow> bool" where
  "same_port p q \<longleftrightarrow> fd p = fd q \<and> isnormal p = isnormal q \<and> Utf16beConvertor p = Utf16beConvertor q"

definition is_line :: "u8 list \<Rightarrow> bool" where
  "is_line l \<longleftrightarrow> l \<noteq> [] \<and> last l = 0x0A \<and> 0x0A \<notin> set (butlast l)"

lemma line_inv_SerialPort: "line_inv SerialPort" and pending_SerialPort: "pending SerialPort = []"
  by (simp_all add: line_inv_def pending_def SerialPort_def READ_LINE_BUF_SIZE_def)

text \<open>The array of the loop at index \<open>i\<close>: the bytes from \<open>d\<close> to \<open>i\<close> have moved to its start.\<close>

abbreviation shifted :: "nat \<Rightarrow> nat \<Rightarrow> u8 list \<Rightarrow> u8 list" where
  "shifted d i b \<equiv> drop d (take i b) @ drop (i - d) b"

lemma shifted_nth: "d \<le> i \<Longrightarrow> i < length b \<Longrightarrow> shifted d i b ! i = b ! i"
  by (auto simp: nth_append)

lemma drop_take_Suc: "d \<le> i \<Longrightarrow> i < length b \<Longrightarrow> drop d (take (Suc i) b) = drop d (take i b) @ [b ! i]"
  by (simp add: take_Suc_conv_app_nth)

lemma shifted_step:
  assumes "d \<le> i" "i < length b"
  shows "(if d > 0 then (shifted d i b)[i - d := shifted d i b ! i] else shifted d i b) = shifted d (Suc i) b"
proof -
  have "drop (i - d) b = b ! (i - d) # drop (Suc i - d) b"
    using assms by (simp add: Cons_nth_drop_Suc Suc_diff_le)
  then have "(drop (i - d) b)[0 := b ! i] = b ! i # drop (Suc i - d) b" by simp
  moreover have "length (drop d (take i b)) = i - d" using assms by simp
  ultimately have "(shifted d i b)[i - d := b ! i] = shifted d (Suc i) b"
    using assms by (simp add: drop_take_Suc list_update_append)
  moreover have "shifted 0 i b = shifted 0 (Suc i) b" by simp
  ultimately show ?thesis using shifted_nth [OF assms] by (cases "d = 0") simp_all
qed

lemma drop_take_split:
  assumes "d \<le> k" "k \<le> v" "v \<le> length b"
  shows "drop d (take v b) = drop d (take k b) @ drop k (take v b)"
proof -
  have "take v b = take k b @ drop k (take v b)"
    using assms append_take_drop_id [of k "take v b"] by (simp add: min_def)
  then have "drop d (take v b) = drop d (take k b @ drop k (take v b))" by simp
  also have "\<dots> = drop d (take k b) @ drop k (take v b)" using assms by simp
  finally show ?thesis .
qed

lemma length_shifted: "d \<le> i \<Longrightarrow> i \<le> length b \<Longrightarrow> length (shifted d i b) = length b"
  by simp

lemma drop_shifted: "d \<le> i \<Longrightarrow> i \<le> length b \<Longrightarrow> drop i (shifted d i b) = drop i b"
  by simp

definition scan_post :: "bool \<Rightarrow> u8 list \<Rightarrow> serial_port \<Rightarrow> scan_exit \<times> serial_port \<Rightarrow> bool" where
  "scan_post ret pend p r \<longleftrightarrow> line_inv (snd r) \<and> same_port p (snd r) \<and>
     (case fst r of
        ScanLine l \<Rightarrow> pend = l @ pending (snd r) \<and> is_line l
      | ScanFalse \<Rightarrow> ret \<and> 0x0A \<notin> set pend \<and> pending (snd r) = pend \<and> uiReadLineIdx (snd r) = 0
      | ScanRead \<Rightarrow> \<not> ret \<and> 0x0A \<notin> set pend \<and> pending (snd r) = pend \<and> uiReadLineIdx (snd r) = 0)"

lemma length_clear_from: "n \<le> length c \<Longrightarrow> length (clear_from n c) = length c"
  by (simp add: clear_from_def)

lemma compacted_state:
  assumes "length c = 256" "0 < n" "n \<le> 256"
    and "q = p\<lparr>ucReadLineBuf := clear_from n c, uiReadLineValidSize := n, uiReadLineIdx := 0\<rparr>"
  shows "line_inv q" "pending q = take n c" "same_port p q" "uiReadLineIdx q = 0"
proof -
  have "length (clear_from n c) = 256" "take n (clear_from n c) = take n c"
    using assms by (simp_all add: clear_from_def)
  then show "line_inv q" "pending q = take n c" "same_port p q" "uiReadLineIdx q = 0"
    using assms(2-4) by (simp_all add: line_inv_def pending_def same_port_def READ_LINE_BUF_SIZE_def)
qed

lemma taken_state:
  assumes "length c = 256" "uiReadLineValidSize p = v" "v \<le> 256"
    and "q = (if k \<ge> v then p\<lparr>ucReadLineBuf := c, uiReadLineValidSize := 0, uiReadLineIdx := 0\<rparr>
              else p\<lparr>ucReadLineBuf := c, uiReadLineIdx := k\<rparr>)"
  shows "line_inv q" "pending q = drop k (take v c)" "same_port p q"
  using assms by (auto simp: line_inv_def pending_def same_port_def READ_LINE_BUF_SIZE_def)

text \<open>One round of the loop on a buffer whose window has been moved up to \<open>i\<close>.\<close>

lemma scan_loop_step:
  assumes "length b = 256" "d \<le> i" "i < v" "v \<le> 256"
    and "ucReadLineBuf p = shifted d i b" "uiReadLineValidSize p = v" "uiReadLineIdx p = d"
  shows "scan_loop ret i p =
      (if b ! i \<noteq> 0x0A then
         if i = v - 1 then
           Some (if ret then ScanFalse else ScanRead,
                 p\<lparr>ucReadLineBuf := clear_from (v - d) (shifted d (Suc i) b),
                   uiReadLineValidSize := v - d, uiReadLineIdx := 0\<rparr>)
         else scan_loop ret (i + 1) (p\<lparr>ucReadLineBuf := shifted d (Suc i) b\<rparr>)
       else Some (ScanLine (take (i + 1 - d) (shifted d (Suc i) b)),
                  if i + 1 \<ge> v then p\<lparr>ucReadLineBuf := shifted d (Suc i) b, uiReadLineValidSize := 0, uiReadLineIdx := 0\<rparr>
                  else p\<lparr>ucReadLineBuf := shifted d (Suc i) b, uiReadLineIdx := i + 1\<rparr>))"
    and "length (shifted d (Suc i) b) = 256"
proof -
  have i: "i < length b" using assms by simp
  have step: "(if d > 0 then (ucReadLineBuf p)[i - d := ucReadLineBuf p ! i] else ucReadLineBuf p) = shifted d (Suc i) b"
    unfolding assms(5) by (rule shifted_step [OF assms(2) i])
  have at: "shifted d (Suc i) b ! i = b ! i"
    using assms(2) i by (cases d) (auto simp: nth_append drop_take_Suc)
  have lt: "i < uiReadLineValidSize p" "i < length (ucReadLineBuf p)" using assms by auto
  show "scan_loop ret i p =
      (if b ! i \<noteq> 0x0A then
         if i = v - 1 then
           Some (if ret then ScanFalse else ScanRead,
                 p\<lparr>ucReadLineBuf := clear_from (v - d) (shifted d (Suc i) b),
                   uiReadLineValidSize := v - d, uiReadLineIdx := 0\<rparr>)
         else scan_loop ret (i + 1) (p\<lparr>ucReadLineBuf := shifted d (Suc i) b\<rparr>)
       else Some (ScanLine (take (i + 1 - d) (shifted d (Suc i) b)),
                  if i + 1 \<ge> v then p\<lparr>ucReadLineBuf := shifted d (Suc i) b, uiReadLineValidSize := 0, uiReadLineIdx := 0\<rparr>
                  else p\<lparr>ucReadLineBuf := shifted d (Suc i) b, uiReadLineIdx := i + 1\<rparr>))"
    using lt assms(6,7) by (subst scan_loop.simps) (simp add: Let_def step at)
  show "length (shifted d (Suc i) b) = 256" using assms(1,2) i length_shifted [of d "Suc i" b] by simp
qed

lemma scan_loop_spec:
  assumes "length b = 256" "d \<le> i" "i < v" "v \<le> 256" "0x0A \<notin> set (drop d (take i b))"
    and "ucReadLineBuf p = shifted d i b" "uiReadLineValidSize p = v" "uiReadLineIdx p = d"
  shows "\<exists>r. scan_loop ret i p = Some r \<and> scan_post ret (drop d (take v b)) p r"
  using assms
proof (induction "v - i" arbitrary: i p)
  case 0
  then show ?case by simp
next
  case (Suc n)
  have i: "i < length b" using Suc.prems by simp
  note cur = scan_loop_step(1) [OF Suc.prems(1-4,6-8), of ret] and len1 = scan_loop_step(2) [OF Suc.prems(1-4,6-8)]
  let ?p1 = "p\<lparr>ucReadLineBuf := shifted d (Suc i) b\<rparr>"
  consider (more) "b ! i \<noteq> 0x0A" "i \<noteq> v - 1" | (finish) "b ! i \<noteq> 0x0A" "i = v - 1" | (line) "b ! i = 0x0A"
    by blast
  then show ?case
  proof cases
    case more
    have "\<exists>r. scan_loop ret (Suc i) ?p1 = Some r \<and> scan_post ret (drop d (take v b)) ?p1 r"
      using Suc.prems Suc.hyps(2) more i
      by (intro Suc.hyps(1)) (auto simp: drop_take_Suc)
    with cur more show ?thesis by (auto simp: scan_post_def same_port_def)
  next
    case finish
    with Suc.prems have v: "v = Suc i" by simp
    have sh: "take (v - d) (shifted d (Suc i) b) = drop d (take v b)" and nl: "0x0A \<notin> set (drop d (take v b))"
      using finish Suc.prems i unfolding v by (simp_all add: drop_take_Suc)
    have "0 < v - d" "v - d \<le> 256" using Suc.prems(2-4) by auto
    note q = compacted_state [OF len1 this refl, of p, unfolded sh]
    have "scan_loop ret i p = Some (if ret then ScanFalse else ScanRead,
        p\<lparr>ucReadLineBuf := clear_from (v - d) (shifted d (Suc i) b), uiReadLineValidSize := v - d,
          uiReadLineIdx := 0\<rparr>)"
      using cur finish by (simp only: if_True not_False_eq_True simp_thms)
    with q nl show ?thesis unfolding scan_post_def by (cases ret) simp_all
  next
    case line
    have l: "take (i + 1 - d) (shifted d (Suc i) b) = drop d (take i b) @ [0x0A]"
      using line i Suc.prems by (simp add: drop_take_Suc)
    have "drop d (take v b) = drop d (take i b) @ [0x0A] @ drop (Suc i) (take v b)"
      using drop_take_split [of d "Suc i" v b] line i Suc.prems by (simp add: drop_take_Suc)
    moreover have "is_line (drop d (take i b) @ [0x0A])"
      using Suc.prems by (simp add: is_line_def)
    moreover have "drop (Suc i) (take v (shifted d (Suc i) b)) = drop (Suc i) (take v b)"
      using drop_shifted [of d "Suc i" b] i Suc.prems by (simp only: drop_take le_SucI Suc_leI)
    moreover note q = taken_state [OF len1 Suc.prems(7,4) refl, of "i + 1"]
    moreover have "scan_loop ret i p = Some (ScanLine (drop d (take i b) @ [0x0A]),
        if i + 1 \<ge> v then ?p1\<lparr>uiReadLineValidSize := 0, uiReadLineIdx := 0\<rparr> else ?p1\<lparr>uiReadLineIdx := i + 1\<rparr>)"
      unfolding cur l using line by simp
    ultimately show ?thesis unfolding scan_post_def by (simp only: Suc_eq_plus1) simp
  qed
qed

lemma scan_start:
  assumes "line_inv p" "uiReadLineValidSize p > 0"
  shows "\<exists>r. scan_loop ret (uiReadLineIdx p) p = Some r \<and> scan_post ret (pending p) p r"
proof -
  have "shifted (uiReadLineIdx p) (uiReadLineIdx p) (ucReadLineBuf p) = ucReadLineBuf p" by simp
  then show ?thesis
    using assms scan_loop_spec [of "ucReadLineBuf p" "uiReadLineIdx p" "uiReadLineIdx p" "uiReadLineValidSize p" p ret]
    by (simp add: line_inv_def pending_def READ_LINE_BUF_SIZE_def)
qed

subsection \<open>The specification of line input\<close>

text \<open>The bytes up to and including the first line feed, and the rest.\<close>

fun split_line :: "u8 list \<Rightarrow> (u8 list \<times> u8 list) option" where
  "split_line [] = None"
| "split_line (b # bs) =
     (if b = 0x0A then Some ([b], bs)
      else case split_line bs of None \<Rightarrow> None | Some (l, r) \<Rightarrow> Some (b # l, r))"

lemma split_line_None: "split_line bs = None \<longleftrightarrow> 0x0A \<notin> set bs"
  by (induction bs) (auto split: option.splits)

lemma split_line_app: "is_line l \<Longrightarrow> split_line (l @ r) = Some (l, r)"
  by (induction l) (auto simp: is_line_def split: if_splits option.splits)

lemma split_line_Some: "split_line bs = Some (l, r) \<Longrightarrow> bs = l @ r \<and> is_line l"
proof (induction bs arbitrary: l)
  case (Cons b bs)
  show ?case
  proof (cases "b = 0x0A")
    case False
    with Cons.prems obtain l' where "split_line bs = Some (l', r)" "l = b # l'"
      by (auto split: option.splits)
    with Cons.IH [of l'] False show ?thesis by (auto simp: is_line_def)
  qed (use Cons.prems in \<open>auto simp: is_line_def\<close>)
qed simp

text \<open>
  One call on the pending bytes and the received bytes: a pending line is handed out with no
  system call; otherwise one read appends what fits into the 256 bytes, and the first line is
  handed out if there is one now.
\<close>

definition line_step :: "bool \<Rightarrow> os_event \<Rightarrow> u8 list \<times> u8 list \<Rightarrow> bool \<times> u8 list \<times> u8 list \<times> u8 list" where
  "line_step normal ev = (\<lambda>(pend, q).
     case split_line pend of
       Some (l, r) \<Rightarrow> (True, l, r, q)
     | None \<Rightarrow>
         let k = (if normal \<and> select_ret ev > 0 then min (read_chunk ev) (256 - length pend) else 0)
         in case split_line (pend @ take k q) of
              Some (l, r) \<Rightarrow> (True, l, r, drop k q)
            | None \<Rightarrow> (False, [], pend @ take k q, drop k q))"

lemma line_step_conserves:
  "line_step normal ev (pend, q) = (b, l, pend', q') \<Longrightarrow>
   l @ pend' @ q' = pend @ q \<and> (if b then is_line l else l = [])"
proof -
  assume h: "line_step normal ev (pend, q) = (b, l, pend', q')"
  define k where "k = (if normal \<and> select_ret ev > 0 then min (read_chunk ev) (256 - length pend) else 0)"
  show ?thesis
  proof (cases "split_line pend")
    case None
    note step = h [unfolded line_step_def prod.case None option.case Let_def, folded k_def]
    show ?thesis
    proof (cases "split_line (pend @ take k q)")
      case None
      with step show ?thesis by auto
    next
      case (Some lr)
      then obtain m r where m: "split_line (pend @ take k q) = Some (m, r)" by (cases lr) auto
      with step have "b" "l = m" "pend' = r" "q' = drop k q" by auto
      moreover have "pend @ q = m @ r @ drop k q"
        using split_line_Some [OF m] append_take_drop_id [of k q] by (metis append.assoc)
      ultimately show ?thesis using split_line_Some [OF m] by simp
    qed
  next
    case (Some lr)
    with h show ?thesis
      by (cases lr) (auto simp: line_step_def dest: split_line_Some)
  qed
qed

subsection \<open>The code implements the specification\<close>

text \<open>The result of a call that the specification's result \<open>(b, l, pend', q')\<close> stands for.\<close>

definition line_result :: "serial_port \<Rightarrow> tty \<Rightarrow> bool \<times> u8 list \<times> u8 list \<times> u8 list \<Rightarrow>
    (int \<times> u8 list \<times> nat \<times> serial_port \<times> tty) option \<Rightarrow> bool" where
  "line_result p d spec res = (case spec of (b, l, pend', q') \<Rightarrow>
     (case res of None \<Rightarrow> False
      | Some (r, out, read_len, p', d') \<Rightarrow>
          r = (if b then UART_TRUE else UART_FALSE) \<and> out = l \<and> (b \<longrightarrow> read_len = length l) \<and>
          line_inv p' \<and> same_port p p' \<and> pending p' = pend' \<and> d' = d\<lparr>rx_queue := q'\<rparr>))"

lemma UART_neq [simp]: "UART_TRUE \<noteq> UART_FALSE" "UART_FALSE \<noteq> UART_TRUE"
  by (simp_all add: UART_TRUE_def UART_FALSE_def)

lemma same_port_trans: "same_port p q \<Longrightarrow> same_port q r \<Longrightarrow> same_port p r"
  by (simp add: same_port_def)

lemma pending_idx0: "uiReadLineIdx p = 0 \<Longrightarrow> pending p = take (uiReadLineValidSize p) (ucReadLineBuf p)"
  by (simp add: pending_def)

lemma length_pending_idx0: "line_inv p \<Longrightarrow> uiReadLineIdx p = 0 \<Longrightarrow> length (pending p) = uiReadLineValidSize p"
  by (simp add: pending_idx0 line_inv_def)

lemma append_state:
  assumes "line_inv p" "uiReadLineIdx p = 0" "bytes \<noteq> []" "uiReadLineValidSize p + length bytes \<le> 256"
  shows "\<exists>buf. store_at (uiReadLineValidSize p) bytes (ucReadLineBuf p) = Some buf \<and>
     (let p' = p\<lparr>ucReadLineBuf := buf, uiReadLineValidSize := uiReadLineValidSize p + length bytes\<rparr>
      in line_inv p' \<and> pending p' = pending p @ bytes \<and> same_port p p' \<and> uiReadLineValidSize p' > 0)"
  using assms by (auto simp: store_at_def line_inv_def pending_def same_port_def READ_LINE_BUF_SIZE_def)

text \<open>The pass after a read: it always leaves the function.\<close>

lemma handle_after_read:
  assumes "line_inv p" "uiReadLineValidSize p > 0"
  shows "line_result p d
     (case split_line (pending p) of Some (l, r) \<Rightarrow> (True, l, r, rx_queue d) | None \<Rightarrow> (False, [], pending p, rx_queue d))
     (read_line_handle True n evs p d)"
proof -
  obtain e p' where scan: "scan_loop True (uiReadLineIdx p) p = Some (e, p')"
    and post: "scan_post True (pending p) p (e, p')"
    using scan_start [OF assms, of True] by (metis surj_pair)
  show ?thesis
  proof (cases e)
    case (ScanLine l)
    with post have "pending p = l @ pending p'" "is_line l" by (simp_all add: scan_post_def)
    then show ?thesis
      using assms(2) scan post ScanLine by (simp add: split_line_app line_result_def scan_post_def)
  next
    case ScanFalse
    then show ?thesis
      using assms(2) scan post
      by (simp add: scan_post_def split_line_None [THEN iffD2] line_result_def)
  next
    case ScanRead
    with post show ?thesis by (simp add: scan_post_def)
  qed
qed

text \<open>The second pass after a read that returned bytes.\<close>

lemma read_more_bytes:
  assumes "line_inv p" "uiReadLineIdx p = 0" "0x0A \<notin> set (pending p)"
    and k: "k = min (read_chunk ev) (256 - uiReadLineValidSize p)"
    and on: "isnormal p \<noteq> UART_FALSE" "select_ret ev > 0" "take k (rx_queue d) \<noteq> []"
  shows "line_result p d (line_step (isnormal p \<noteq> UART_FALSE) ev (pending p, rx_queue d))
           (read_more n (ev # evs) p d)"
proof -
  let ?v = "uiReadLineValidSize p" and ?d' = "d\<lparr>rx_queue := drop k (rx_queue d)\<rparr>"
  define bytes where "bytes = take k (rx_queue d)"
  have v: "length (pending p) = ?v" using assms(1,2) by (simp add: length_pending_idx0)
  have nl: "split_line (pending p) = None" using assms(3) by (simp add: split_line_None)
  have rb: "readBuffer ev False (READ_LINE_BUF_SIZE - ?v) n p d = (UART_TRUE, bytes, length bytes, ?d')"
    using on by (simp add: readBuffer_def os_read_def Let_def bytes_def k READ_LINE_BUF_SIZE_def)
  have "?v \<le> 256" using assms(1) by (simp add: line_inv_def READ_LINE_BUF_SIZE_def)
  then have "?v + length bytes \<le> 256" by (simp add: bytes_def k)
  then obtain buf p' where st: "store_at ?v bytes (ucReadLineBuf p) = Some buf"
    and p': "p' = p\<lparr>ucReadLineBuf := buf, uiReadLineValidSize := ?v + length bytes\<rparr>"
    and inv: "line_inv p'" "pending p' = pending p @ bytes" "same_port p p'" "uiReadLineValidSize p' > 0"
    using append_state [OF assms(1,2) on(3) [folded bytes_def]] by (auto simp: Let_def)
  have run: "read_more n (ev # evs) p d = read_line_handle True (length bytes) evs p' ?d'"
    using rb st p' by (simp add: Let_def del: read_line_handle.simps)
  have spec: "line_step (isnormal p \<noteq> UART_FALSE) ev (pending p, rx_queue d) =
      (case split_line (pending p') of Some (l, r) \<Rightarrow> (True, l, r, rx_queue ?d')
       | None \<Rightarrow> (False, [], pending p', rx_queue ?d'))"
    using on(1,2) nl v inv(2)
    by (simp add: line_step_def k [symmetric] bytes_def [symmetric] Let_def cong: option.case_cong)
  have "line_result p' ?d' (line_step (isnormal p \<noteq> UART_FALSE) ev (pending p, rx_queue d))
      (read_more n (ev # evs) p d)"
    unfolding run spec by (rule handle_after_read [OF inv(1,4)])
  then show ?thesis
    using inv(3) unfolding line_result_def
    by (auto simp: same_port_def split: prod.splits option.splits)
qed

lemma read_more_spec:
  assumes "line_inv p" "uiReadLineIdx p = 0" "0x0A \<notin> set (pending p)"
  shows "line_result p d (line_step (isnormal p \<noteq> UART_FALSE) ev (pending p, rx_queue d))
           (read_more n (ev # evs) p d)"
proof -
  let ?v = "uiReadLineValidSize p"
  have v: "length (pending p) = ?v" using assms by (simp add: length_pending_idx0)
  have nl: "split_line (pending p) = None" using assms(3) by (simp add: split_line_None)
  define k where "k = min (read_chunk ev) (256 - ?v)"
  consider (off) "isnormal p = UART_FALSE \<or> select_ret ev \<le> 0"
    | (none) "isnormal p \<noteq> UART_FALSE" "select_ret ev > 0" "take k (rx_queue d) = []"
    | (some) "isnormal p \<noteq> UART_FALSE" "select_ret ev > 0" "take k (rx_queue d) \<noteq> []"
    by linarith
  then show ?thesis
  proof cases
    case off
    then have "readBuffer ev False (READ_LINE_BUF_SIZE - ?v) n p d = (UART_FALSE, [], n, d)"
      by (auto simp: readBuffer_def)
    then show ?thesis
      using off assms(1) nl by (auto simp: line_step_def line_result_def same_port_def)
  next
    case none
    then have "readBuffer ev False (READ_LINE_BUF_SIZE - ?v) n p d = (UART_FALSE, [], n, d)"
      by (simp add: readBuffer_def os_read_def Let_def k_def READ_LINE_BUF_SIZE_def)
    moreover define bytes where "bytes = take k (rx_queue d)"
    moreover have "drop k (rx_queue d) = rx_queue d" using none(3) by auto
    ultimately show ?thesis
      using none assms(1) nl v
      by (simp add: line_step_def line_result_def same_port_def k_def [symmetric] bytes_def [symmetric])
  next
    case some
    then show ?thesis by (rule read_more_bytes [OF assms k_def])
  qed
qed

lemma readLine_spec:
  assumes "line_inv p"
  shows "line_result p d (line_step (isnormal p \<noteq> UART_FALSE) ev (pending p, rx_queue d))
           (readLine False n (ev # evs) p d)"
proof (cases "uiReadLineValidSize p > 0")
  case False
  then have "uiReadLineIdx p = 0" "pending p = []" using assms by (auto simp: line_inv_def pending_def)
  with False read_more_spec [OF assms, of d ev n evs] show ?thesis
    by (simp add: readLine_def del: read_more.simps)
next
  case True
  obtain e p' where scan: "scan_loop False (uiReadLineIdx p) p = Some (e, p')"
    and post: "scan_post False (pending p) p (e, p')"
    using scan_start [OF assms True, of False] by (metis surj_pair)
  show ?thesis
  proof (cases e)
    case (ScanLine l)
    with post have "pending p = l @ pending p'" "is_line l" by (simp_all add: scan_post_def)
    then show ?thesis
      using True scan post ScanLine
      by (simp add: readLine_def split_line_app line_result_def line_step_def scan_post_def)
  next
    case ScanFalse
    with post show ?thesis by (simp add: scan_post_def)
  next
    case ScanRead
    with post have q: "line_inv p'" "uiReadLineIdx p' = 0" "0x0A \<notin> set (pending p')"
      "pending p' = pending p" "same_port p p'"
      by (simp_all add: scan_post_def)
    have "line_result p' d (line_step (isnormal p \<noteq> UART_FALSE) ev (pending p, rx_queue d))
        (readLine False n (ev # evs) p d)"
      using True scan ScanRead read_more_spec [OF q(1,2,3), of d ev n evs] q(4,5)
      by (simp add: readLine_def same_port_def del: read_more.simps)
    then show ?thesis
      using q(5) unfolding line_result_def
      by (auto simp: same_port_def split: prod.splits option.splits)
  qed
qed

subsection \<open>Sequences of calls\<close>

text \<open>The lines that a sequence of calls hands out, each call with its own system results.\<close>

fun calls :: "('e \<Rightarrow> 's \<Rightarrow> ('b list option \<times> 's) option) \<Rightarrow> 'e list \<Rightarrow> 's \<Rightarrow> ('b list list \<times> 's) option" where
  "calls call [] s = Some ([], s)"
| "calls call (e # es) s =
     (case call e s of
        None \<Rightarrow> None
      | Some (l, s') \<Rightarrow>
          (case calls call es s' of
             None \<Rightarrow> None
           | Some (ls, s'') \<Rightarrow> Some (case l of None \<Rightarrow> ls | Some x \<Rightarrow> x # ls, s'')))"

text \<open>
  The contract of a source of framed data: a call never fails in a valid state, and what it hands
  out is taken from the front of the bytes that remain.
\<close>

locale framed_source =
  fixes call :: "'e \<Rightarrow> 's \<Rightarrow> ('b list option \<times> 's) option"
    and inv :: "'s \<Rightarrow> bool"
    and remaining :: "'s \<Rightarrow> 'b list"
    and frame :: "'b list \<Rightarrow> bool"
  assumes call_total: "inv s \<Longrightarrow> \<exists>l s'. call e s = Some (l, s') \<and> inv s'"
    and call_frame: "inv s \<Longrightarrow> call e s = Some (Some l, s') \<Longrightarrow> frame l \<and> remaining s = l @ remaining s'"
    and call_none: "inv s \<Longrightarrow> call e s = Some (None, s') \<Longrightarrow> remaining s = remaining s'"
begin

lemma calls_conserve:
  "inv s \<Longrightarrow> \<exists>ls s'. calls call es s = Some (ls, s') \<and> inv s' \<and> list_all frame ls \<and>
     remaining s = concat ls @ remaining s'"
proof (induction es arbitrary: s)
  case Nil
  then show ?case by simp
next
  case (Cons e es)
  obtain l s1 where c: "call e s = Some (l, s1)" and i: "inv s1" using call_total [OF Cons.prems] by blast
  obtain ls s2 where r: "calls call es s1 = Some (ls, s2)" "inv s2" "list_all frame ls"
    "remaining s1 = concat ls @ remaining s2"
    using Cons.IH [OF i] by blast
  show ?case
    using c r call_frame [OF Cons.prems, of e _ s1] call_none [OF Cons.prems, of e s1]
    by (cases l) auto
qed

end

text \<open>One call of \<^verbatim>\<open>readLine\<close> with a valid buffer, as a source of lines.\<close>

definition read_call :: "os_event \<Rightarrow> serial_port \<times> tty \<Rightarrow> (u8 list option \<times> serial_port \<times> tty) option" where
  "read_call ev = (\<lambda>(p, d).
     case readLine False 0 [ev] p d of
       None \<Rightarrow> None
     | Some (r, line, read_len, p', d') \<Rightarrow> Some (if r = UART_TRUE then Some (take read_len line) else None, p', d'))"

lemma read_call_spec:
  assumes "line_inv p"
  shows "\<exists>b l pend' q' p'. line_step (isnormal p \<noteq> UART_FALSE) ev (pending p, rx_queue d) = (b, l, pend', q') \<and>
    read_call ev (p, d) = Some (if b then Some l else None, p', d\<lparr>rx_queue := q'\<rparr>) \<and>
    line_inv p' \<and> same_port p p' \<and> pending p' = pend'"
proof -
  obtain b l pend' q' where st: "line_step (isnormal p \<noteq> UART_FALSE) ev (pending p, rx_queue d) = (b, l, pend', q')"
    by (metis prod_cases4)
  have res: "line_result p d (b, l, pend', q') (readLine False 0 [ev] p d)"
    using readLine_spec [OF assms, of d ev 0 "[]"] st by simp
  then obtain x where x: "readLine False 0 [ev] p d = Some x"
    by (cases "readLine False 0 [ev] p d") (auto simp: line_result_def)
  obtain r out n p' d' where "x = (r, out, n, p', d')" by (metis prod_cases5)
  with x have "readLine False 0 [ev] p d = Some (r, out, n, p', d')" by simp
  with res have "read_call ev (p, d) = Some (if b then Some l else None, p', d\<lparr>rx_queue := q'\<rparr>)"
    "line_inv p'" "same_port p p'" "pending p' = pend'"
    by (cases b; simp add: line_result_def read_call_def)+
  with st show ?thesis by blast
qed

interpretation port_lines: framed_source read_call "\<lambda>(p, d). line_inv p" "\<lambda>(p, d). pending p @ rx_queue d" is_line
proof
  fix s :: "serial_port \<times> tty" and e
  assume "case s of (p, d) \<Rightarrow> line_inv p"
  then obtain p d where s: "s = (p, d)" "line_inv p" by (cases s) auto
  obtain b l pend' q' p' where
    st: "line_step (isnormal p \<noteq> UART_FALSE) e (pending p, rx_queue d) = (b, l, pend', q')" and
    c: "read_call e (p, d) = Some (if b then Some l else None, p', d\<lparr>rx_queue := q'\<rparr>)" and
    i: "line_inv p'" "pending p' = pend'"
    using read_call_spec [OF s(2)] by metis
  note cons = line_step_conserves [OF st]
  show "\<exists>l s'. read_call e s = Some (l, s') \<and> (case s' of (p, d) \<Rightarrow> line_inv p)"
    using s c i by auto
  show "is_line m \<and> (case s of (p, d) \<Rightarrow> pending p @ rx_queue d) =
          m @ (case s' of (p, d) \<Rightarrow> pending p @ rx_queue d)"
    if "read_call e s = Some (Some m, s')" for m s'
    using that s c i cons by (cases b) auto
  show "(case s of (p, d) \<Rightarrow> pending p @ rx_queue d) = (case s' of (p, d) \<Rightarrow> pending p @ rx_queue d)"
    if "read_call e s = Some (None, s')" for s'
    using that s c i cons by (cases b) auto
qed

section \<open>Properties of input\<close>

text \<open>
  C24: \<^verbatim>\<open>readLine\<close>, with its moving window over a 256-byte array, implements the specification
  \<open>line_step\<close> on the pending bytes: it returns exactly when the specification has a line, with that
  line and its length, keeps the buffer invariant, and the second pass after a read always
  returns (two rounds of system results are never needed).
\<close>

theorem readLine_refines:
  assumes "line_inv p"
  shows "line_result p d (line_step (isnormal p \<noteq> UART_FALSE) ev (pending p, rx_queue d))
           (readLine False read_len (ev # evs) p d)"
  by (rule readLine_spec [OF assms])

definition demo_port :: serial_port where
  "demo_port = SerialPort\<lparr>isnormal := UART_TRUE\<rparr>"

definition demo_tty :: "u8 list \<Rightarrow> tty" where
  "demo_tty q = \<lparr>settings = \<lparr>c_iflag = 0x500, c_oflag = 5, c_cflag = 0xBF, c_lflag = 0x8A3B, c_cc = replicate 32 0,
     c_ispeed = 0xD, c_ospeed = 0xD\<rparr>, rx_queue = q, tx_queue = []\<rparr>"

lemma demo_port_inv: "line_inv demo_port" and demo_port_pending: "pending demo_port = []"
  using line_inv_SerialPort pending_SerialPort by (simp_all add: demo_port_def line_inv_def pending_def)

theorem readLine_refines_witness:
  "line_inv demo_port \<and>
   line_result demo_port (demo_tty [0x4F, 0x4B, 0x0A, 0x2B]) (True, [0x4F, 0x4B, 0x0A], [0x2B], [])
     (readLine False 0 [\<lparr>select_ret = 1, read_chunk = 64\<rparr>] demo_port (demo_tty [0x4F, 0x4B, 0x0A, 0x2B]))"
proof -
  have "line_step (isnormal demo_port \<noteq> UART_FALSE) \<lparr>select_ret = 1, read_chunk = 64\<rparr>
      (pending demo_port, rx_queue (demo_tty [0x4F, 0x4B, 0x0A, 0x2B])) = (True, [0x4F, 0x4B, 0x0A], [0x2B], [])"
    unfolding demo_port_pending by (simp add: line_step_def demo_port_def demo_tty_def)
  with readLine_refines [OF demo_port_inv, of "demo_tty [0x4F, 0x4B, 0x0A, 0x2B]" "\<lparr>select_ret = 1, read_chunk = 64\<rparr>" 0 "[]"]
  show ?thesis by (simp add: demo_port_inv)
qed

text \<open>
  C25: over any sequence of calls, with any system results, no received byte is lost, repeated or
  reordered: the lines handed out, followed by what is pending and unread, are the bytes received;
  and every line handed out ends in its only line feed.
\<close>

theorem readLine_stream:
  assumes "line_inv p"
  shows "\<exists>ls p' d'. calls read_call evs (p, d) = Some (ls, p', d') \<and> line_inv p' \<and>
     list_all is_line ls \<and> pending p @ rx_queue d = concat ls @ pending p' @ rx_queue d'"
  using port_lines.calls_conserve [of "(p, d)" evs] assms by auto

theorem readLine_stream_witness:
  "line_inv demo_port \<and>
   (\<exists>ls p' d'. calls read_call [\<lparr>select_ret = 1, read_chunk = 3\<rparr>, \<lparr>select_ret = 0, read_chunk = 0\<rparr>] (demo_port, demo_tty [1, 0x0A, 2]) = Some (ls, p', d') \<and>
      line_inv p' \<and> list_all is_line ls \<and>
      pending demo_port @ rx_queue (demo_tty [1, 0x0A, 2]) = concat ls @ pending p' @ rx_queue d')"
  using readLine_stream [OF demo_port_inv] demo_port_inv by blast

text \<open>
  When 256 bytes arrive with no line feed among them, \<^verbatim>\<open>readLine\<close> never returns a line again:
  each call asks \<^verbatim>\<open>read\<close> for 0 bytes, fails, and leaves the buffer and the received bytes as they are.
\<close>

lemma readLine_full_buffer_stalls:
  assumes "line_inv p" "length (pending p) = 256" "0x0A \<notin> set (pending p)"
  shows "\<exists>p'. read_call ev (p, d) = Some (None, p', d) \<and> line_inv p' \<and>
     length (pending p') = 256 \<and> pending p' = pending p"
proof -
  have "split_line (pending p) = None" using assms(3) by (simp add: split_line_None)
  then have "line_step (isnormal p \<noteq> UART_FALSE) ev (pending p, rx_queue d) = (False, [], pending p, rx_queue d)"
    using assms(2) by (simp add: line_step_def)
  with read_call_spec [OF assms(1), of ev d] assms(2) show ?thesis by auto
qed

definition full_port :: serial_port where
  "full_port = SerialPort\<lparr>isnormal := UART_TRUE, ucReadLineBuf := replicate 256 0x41, uiReadLineValidSize := 256\<rparr>"

end
