(* ===== verification/Serial_Config.thy ===== *)
theory Serial_Config
  imports Serial_Port
begin

text \<open>
  What \<^verbatim>\<open>SerialPort::Set\<close> and \<^verbatim>\<open>SerialPort::Open\<close> achieve on the terminal device, and the format of the
  wheel-speed frame. The operations are those of \<open>Serial_Port\<close>.
\<close>

section \<open>The settings of the port\<close>

text \<open>What the flags of a terminal say, read back from its control word.\<close>

datatype parity_kind = NoParity | OddParity | EvenParity

definition data_bits :: "u32 \<Rightarrow> nat" where
  "data_bits c = 5 + (if bit c 4 then 1 else 0) + (if bit c 5 then 2 else 0)"

definition stop_bits :: "u32 \<Rightarrow> nat" where
  "stop_bits c = (if bit c 6 then 2 else 1)"

definition parity_kind :: "u32 \<Rightarrow> parity_kind" where
  "parity_kind c = (if \<not> bit c 8 then NoParity else if bit c 9 then OddParity else EvenParity)"

definition parity_meant :: "char \<Rightarrow> parity_kind" where
  "parity_meant ch = (if ch \<in> set ''oO'' then OddParity else if ch \<in> set ''eE'' then EvenParity else NoParity)"

text \<open>The bits of the control word that the frame format takes, and all that \<^verbatim>\<open>Set\<close> may write in it.\<close>

abbreviation frame_mask :: u32 where "frame_mask \<equiv> 0x370"
abbreviation cflag_mask :: u32 where "cflag_mask \<equiv> 0x80001FFF"

lemma and_not_outside: "a AND NOT m = 0 \<Longrightarrow> (x AND NOT a) AND NOT m = x AND NOT (m :: u32)"
proof -
  assume "a AND NOT m = 0"
  then have "bit (a AND NOT m) n \<longleftrightarrow> False" for n by simp
  then have "bit a n \<Longrightarrow> n < 32 \<Longrightarrow> bit m n" for n by (auto simp: bit_simps)
  then show ?thesis by (intro bit_word_eqI) (auto simp: bit_simps)
qed

lemma or_outside: "a AND NOT m = 0 \<Longrightarrow> (x OR a) AND NOT m = x AND NOT (m :: u32)"
  by (simp add: bit.conj_disj_distrib2)

lemma and_not_apart: "a AND m = 0 \<Longrightarrow> (x AND NOT a) AND m = x AND (m :: u32)"
proof -
  assume "a AND m = 0"
  then have "bit (a AND m) n \<longleftrightarrow> False" for n by simp
  then show ?thesis by (intro bit_word_eqI) (auto simp: bit_simps)
qed

lemma or_apart: "a AND m = 0 \<Longrightarrow> (x OR a) AND m = x AND (m :: u32)"
  by (simp add: bit.conj_disj_distrib2)

text \<open>The rate that a request names: the code beside it in the tables.\<close>

definition rate_code :: "u32 \<Rightarrow> u32 option" where
  "rate_code baundrate = map_of (zip name_arr speed_arr) baundrate"

lemma rate_codeE:
  assumes "rate_code r = Some s"
  shows "s AND NOT CBAUD = 0" "s AND CBAUD = s" "s \<noteq> 0" "s \<in> set speed_arr"
  using assms by (auto simp: rate_code_def name_arr_def speed_arr_def split: if_splits)

definition set_speed :: "u32 \<Rightarrow> termios \<Rightarrow> termios" where
  "set_speed s t = t\<lparr>c_ispeed := s, c_ospeed := s, c_iflag := c_iflag t AND NOT IBAUD0, c_cflag := (c_cflag t AND NOT CBAUD) OR s\<rparr>"

lemma cfset_both:
  assumes "s AND NOT CBAUD = 0" "s \<noteq> 0"
  shows "cfsetospeed s (cfsetispeed s t) = set_speed s t"
proof -
  have "((x AND NOT CBAUD) OR s) AND NOT CBAUD = x AND NOT CBAUD" for x
    using or_outside [OF assms(1), of "x AND NOT CBAUD"] by (simp add: and.assoc)
  then show ?thesis using assms by (simp add: cfsetispeed_def cfsetospeed_def set_speed_def)
qed

lemma speed_loop_append: "speed_loop past r (xs @ ys) t = speed_loop past r ys (speed_loop past r xs t)"
  by (induction xs arbitrary: t) simp_all

lemma speed_loop_id: "\<forall>i\<in>set is. fst (arr_at past i) \<noteq> r \<Longrightarrow> speed_loop past r is t = t"
  by (induction "is" arbitrary: t) auto

lemma speed_loop_in_range:
  "speed_loop past r [0..<7] t = (case rate_code r of None \<Rightarrow> t | Some s \<Rightarrow> set_speed s t)"
proof -
  have u: "[0..<7] = [0, 1, 2, 3, 4, 5, 6 :: nat]" by (simp add: upt_rec)
  have n: "arr_at past 0 = (115200, 0x1002)" "arr_at past (Suc 0) = (19200, 0xE)" "arr_at past 2 = (9600, 0xD)"
    "arr_at past 3 = (4800, 0xC)" "arr_at past 4 = (2400, 0xB)" "arr_at past 5 = (1200, 0x9)"
    "arr_at past 6 = (300, 0x7)"
    by (simp_all add: arr_at_def name_arr_def speed_arr_def)
  show ?thesis by (simp add: u n cfset_both rate_code_def name_arr_def speed_arr_def)
qed

lemma speed_loop_all:
  assumes "\<forall>k. 7 \<le> k \<and> k < 28 \<longrightarrow> fst (past k) \<noteq> r"
  shows "speed_loop past r [0..<28] t = (case rate_code r of None \<Rightarrow> t | Some s \<Rightarrow> set_speed s t)"
proof -
  have "[0..<28] = [0..<7] @ [7..<28]" using upt_add_eq_append [of 0 7 21] by simp
  moreover have "speed_loop past r [7..<28] t' = t'" for t'
    using assms by (intro speed_loop_id) (auto simp: arr_at_def)
  ultimately show ?thesis by (simp only: speed_loop_append speed_loop_in_range)
qed

subsection \<open>Which requests are accepted\<close>

lemma data_flags_Some: "data_flags n t \<noteq> None \<longleftrightarrow> n \<in> {5, 6, 7, 8}"
  by (simp add: data_flags_def Let_def)

lemma parity_flags_Some: "parity_flags ch t \<noteq> None \<longleftrightarrow> ch \<in> set ''nNoOeEsS''"
  by (simp add: parity_flags_def)

lemma stop_flags_Some: "stop_flags n t \<noteq> None \<longleftrightarrow> n \<in> {1, 2}"
  by (simp add: stop_flags_def)

lemma new_options_Some:
  "new_options past r flow n s ch t \<noteq> None \<longleftrightarrow>
   n \<in> {5, 6, 7, 8} \<and> ch \<in> set ''nNoOeEsS'' \<and> s \<in> {1, 2}"
proof -
  obtain t2 where e: "new_options past r flow n s ch t =
      do { t3 \<leftarrow> data_flags n t2; t4 \<leftarrow> parity_flags ch t3; t5 \<leftarrow> stop_flags s t4; Some (raw_mode t5) }"
    unfolding new_options_def Let_def by blast
  show ?thesis
  proof (cases "data_flags n t2")
    case None
    with data_flags_Some [of n t2] e show ?thesis by simp
  next
    case d: (Some t3)
    show ?thesis
    proof (cases "parity_flags ch t3")
      case None
      with d parity_flags_Some [of ch t3] e show ?thesis by simp
    next
      case (Some t4)
      with d data_flags_Some [of n t2] parity_flags_Some [of ch t3] stop_flags_Some [of s t4] e
      show ?thesis by (cases "stop_flags s t4") auto
    qed
  qed
qed

text \<open>
  C26: \<^verbatim>\<open>Set\<close> succeeds exactly when the two system calls do, the data bits are 5, 6, 7 or 8 (the comment above the
  function names only 7 and 8; the code accepts 5 and 6 too), the parity is one of \<^verbatim>\<open>nNoOeEsS\<close> and the stop bits are
  1 or 2; in every other case it returns \<^verbatim>\<open>UART_FALSE\<close> and the settings of the device are unchanged.
\<close>

theorem Set_succeeds_iff:
  "Set past g s baundrate flow_ctrl databits stopbits parity d = (r, d') \<Longrightarrow>
   (r = UART_TRUE \<longleftrightarrow> g = 0 \<and> s = 0 \<and> databits \<in> {5, 6, 7, 8} \<and> parity \<in> set ''nNoOeEsS'' \<and> stopbits \<in> {1, 2}) \<and>
   (r \<noteq> UART_TRUE \<longrightarrow> r = UART_FALSE \<and> settings d' = settings d)"
proof -
  assume h: "Set past g s baundrate flow_ctrl databits stopbits parity d = (r, d')"
  note iff = new_options_Some [of past baundrate flow_ctrl databits stopbits parity "settings d"]
  show ?thesis
  proof (cases "new_options past baundrate flow_ctrl databits stopbits parity (settings d)")
    case None
    with iff have n: "\<not> (databits \<in> {5, 6, 7, 8} \<and> parity \<in> set ''nNoOeEsS'' \<and> stopbits \<in> {1, 2})" by blast
    from None h have "r = UART_FALSE" "d' = d" by (auto simp: Set_def split: if_splits)
    with n show ?thesis by auto
  next
    case (Some t)
    with iff have y: "databits \<in> {5, 6, 7, 8} \<and> parity \<in> set ''nNoOeEsS'' \<and> stopbits \<in> {1, 2}" by blast
    from Some h have "r = (if g = 0 \<and> s = 0 then UART_TRUE else UART_FALSE)"
      "g \<noteq> 0 \<or> s \<noteq> 0 \<Longrightarrow> settings d' = settings d"
      by (auto simp: Set_def Let_def split: if_splits)
    with y show ?thesis by auto
  qed
qed

theorem Set_succeeds_iff_witness:
  "Set (\<lambda>_. (0, 0)) 0 0 9600 0 9 1 CHR ''N'' (demo_tty []) = (UART_FALSE, demo_tty []) \<and>
   settings (demo_tty []) = settings (demo_tty [])"
proof -
  have "data_flags 9 t = None" for t by (simp add: data_flags_def)
  then have h: "Set (\<lambda>_. (0, 0)) 0 0 9600 0 9 1 CHR ''N'' (demo_tty []) = (UART_FALSE, demo_tty [])"
    by (simp add: Set_def new_options_def Let_def)
  from Set_succeeds_iff [OF h] h show ?thesis by simp
qed

subsection \<open>What an accepted request sets\<close>

lemma data_flags_value:
  assumes "data_flags n t0 = Some t"
  shows "data_bits (c_cflag t) = unat n" "c_cflag t AND NOT CSIZE = c_cflag t0 AND NOT CSIZE"
    "t = t0\<lparr>c_cflag := c_cflag t\<rparr>"
  using assms
  by (auto simp: data_flags_def Let_def data_bits_def bit_simps bit.conj_disj_distrib2 and.assoc split: if_splits)

lemma mask_evals:
  "(0x100 :: u32) AND NOT frame_mask = 0" "(0x200 :: u32) AND NOT frame_mask = 0"
  "(0x300 :: u32) AND NOT frame_mask = 0" "(0x40 :: u32) AND NOT frame_mask = 0" "(0x30 :: u32) AND NOT frame_mask = 0"
  by simp_all

lemma line_evals:
  "CLOCAL AND NOT cflag_mask = 0" "CREAD AND NOT cflag_mask = 0" "CRTSCTS AND NOT cflag_mask = 0"
  "(IXON OR IXOFF OR IXANY) AND NOT cflag_mask = 0"
  by simp_all

lemmas outside = mask_evals [THEN and_not_outside] mask_evals [THEN or_outside]

lemma parity_flags_cases:
  assumes "parity_flags ch t0 = Some t"
  obtains (no) "parity_meant ch = NoParity" "t = t0\<lparr>c_cflag := c_cflag t0 AND NOT PARENB, c_iflag := c_iflag t\<rparr>"
  | (odd) "parity_meant ch = OddParity" "t = t0\<lparr>c_cflag := c_cflag t0 OR 0x300, c_iflag := c_iflag t\<rparr>"
  | (even) "parity_meant ch = EvenParity" "t = t0\<lparr>c_cflag := (c_cflag t0 OR PARENB) AND NOT PARODD, c_iflag := c_iflag t\<rparr>"
  | (space) "parity_meant ch = NoParity" "t = t0\<lparr>c_cflag := (c_cflag t0 AND NOT PARENB) AND NOT CSTOPB, c_iflag := c_iflag t\<rparr>"
  using assms by (simp add: parity_flags_def parity_meant_def split: if_splits) force+

lemma parity_flags_value:
  assumes "parity_flags ch t0 = Some t"
  shows "parity_kind (c_cflag t) = parity_meant ch \<and>
    list_all (\<lambda>k. bit (c_cflag t) k = bit (c_cflag t0) k) [4, 5] \<and>
    c_cflag t AND NOT frame_mask = c_cflag t0 AND NOT frame_mask"
  using assms
proof (cases rule: parity_flags_cases)
  case no
  have c: "c_cflag t = c_cflag t0 AND NOT PARENB" by (subst no(2)) simp
  show ?thesis unfolding c no(1) outside by (simp add: parity_kind_def bit_simps)
next
  case odd
  have c: "c_cflag t = c_cflag t0 OR 0x300" by (subst odd(2)) simp
  show ?thesis unfolding c odd(1) outside by (simp add: parity_kind_def bit_simps)
next
  case even
  have c: "c_cflag t = (c_cflag t0 OR PARENB) AND NOT PARODD" by (subst even(2)) simp
  show ?thesis unfolding c even(1) outside by (simp add: parity_kind_def bit_simps)
next
  case space
  have c: "c_cflag t = (c_cflag t0 AND NOT PARENB) AND NOT CSTOPB" by (subst space(2)) simp
  show ?thesis unfolding c space(1) outside by (simp add: parity_kind_def bit_simps)
qed

text \<open>The rest of the settings that the three stages of the frame format leave.\<close>

definition same_rest :: "termios \<Rightarrow> termios \<Rightarrow> bool" where
  "same_rest t t0 \<longleftrightarrow> c_oflag t = c_oflag t0 \<and> c_lflag t = c_lflag t0 \<and> c_cc t = c_cc t0 \<and>
     c_ispeed t = c_ispeed t0 \<and> c_ospeed t = c_ospeed t0"

definition parity_input :: "char \<Rightarrow> u32 \<Rightarrow> u32" where
  "parity_input ch i = (if ch \<in> set ''sS'' then i else if parity_meant ch = NoParity then i AND NOT INPCK else i OR INPCK)"

lemma frame_rest:
  "data_flags n t0 = Some t \<Longrightarrow> same_rest t t0 \<and> c_iflag t = c_iflag t0"
  "parity_flags ch t0 = Some t \<Longrightarrow> same_rest t t0 \<and> c_iflag t = parity_input ch (c_iflag t0)"
  "stop_flags m t0 = Some t \<Longrightarrow> same_rest t t0 \<and> c_iflag t = c_iflag t0"
proof -
  show "data_flags n t0 = Some t \<Longrightarrow> same_rest t t0 \<and> c_iflag t = c_iflag t0"
    by (simp add: data_flags_def Let_def split: if_splits) (auto simp: same_rest_def)
  show "stop_flags m t0 = Some t \<Longrightarrow> same_rest t t0 \<and> c_iflag t = c_iflag t0"
    by (simp add: stop_flags_def split: if_splits) (auto simp: same_rest_def)
  assume p: "parity_flags ch t0 = Some t"
  then have t: "t = the (parity_flags ch t0)" by simp
  have "ch \<in> set ''nNoOeEsS''" using p parity_flags_Some [of ch t0] by simp
  then consider "ch = CHR ''n''" | "ch = CHR ''N''" | "ch = CHR ''o''" | "ch = CHR ''O''" | "ch = CHR ''e''" | "ch = CHR ''E''" |
      "ch = CHR ''s''" | "ch = CHR ''S''" by auto
  then show "same_rest t t0 \<and> c_iflag t = parity_input ch (c_iflag t0)"
    unfolding t by cases (simp_all add: parity_flags_def same_rest_def parity_input_def parity_meant_def)
qed

lemma stop_flags_value:
  assumes "stop_flags n t0 = Some t"
  shows "stop_bits (c_cflag t) = unat n \<and>
    list_all (\<lambda>k. bit (c_cflag t) k = bit (c_cflag t0) k) [4, 5, 8, 9] \<and>
    c_cflag t AND NOT frame_mask = c_cflag t0 AND NOT frame_mask"
proof -
  from assms consider "n = 1" "c_cflag t = c_cflag t0 AND NOT CSTOPB" | "n = 2" "c_cflag t = c_cflag t0 OR CSTOPB"
    by (auto simp: stop_flags_def split: if_splits)
  then show ?thesis
  proof cases
    case 1
    show ?thesis unfolding 1 outside by (simp add: stop_bits_def bit_simps)
  next
    case 2
    show ?thesis unfolding 2 outside by (simp add: stop_bits_def bit_simps)
  qed
qed

text \<open>
  The settings that an accepted request means, for a device with settings \<open>t0\<close>. A rate outside the table leaves the
  speed alone; software flow control sets three bits of the control word, of which one belongs to the rate.
\<close>

definition configured :: "u32 \<Rightarrow> u32 option \<Rightarrow> u32 \<Rightarrow> u32 \<Rightarrow> char \<Rightarrow> termios \<Rightarrow> termios \<Rightarrow> bool" where
  "configured flow rate databits stopbits parity t0 t \<longleftrightarrow>
     (case rate of Some s \<Rightarrow> c_ispeed t = s \<and> c_ospeed t = s | None \<Rightarrow> c_ispeed t = c_ispeed t0 \<and> c_ospeed t = c_ospeed t0) \<and>
     c_cflag t AND CBAUD = (case rate of Some s \<Rightarrow> s | None \<Rightarrow> c_cflag t0 AND CBAUD) OR (if flow = 2 then CBAUDEX else 0) \<and>
     data_bits (c_cflag t) = unat databits \<and> stop_bits (c_cflag t) = unat stopbits \<and>
     parity_kind (c_cflag t) = parity_meant parity \<and> bit (c_cflag t) 11 \<and> bit (c_cflag t) 7 \<and>
     (bit (c_cflag t) 31 \<longleftrightarrow> flow = 1 \<or> flow \<noteq> 0 \<and> bit (c_cflag t0) 31) \<and>
     (bit (c_cflag t) 10 \<longleftrightarrow> flow = 2 \<or> bit (c_cflag t0) 10) \<and>
     c_cflag t AND NOT cflag_mask = c_cflag t0 AND NOT cflag_mask \<and>
     c_iflag t = parity_input parity (if rate = None then c_iflag t0 else c_iflag t0 AND NOT IBAUD0) AND NOT ICRNL \<and>
     c_oflag t = c_oflag t0 AND NOT OPOST \<and> c_lflag t = c_lflag t0 AND NOT (ICANON OR ECHO OR ECHOE OR ISIG) \<and>
     c_cc t = (c_cc t0)[VTIME := 1, VMIN := 1]"

lemma outside_bits:
  assumes "x AND NOT frame_mask = y AND NOT frame_mask"
  shows "m AND frame_mask = 0 \<Longrightarrow> x AND m = y AND m" "k \<in> {7, 10, 11, 31} \<Longrightarrow> bit x k = bit y k"
proof -
  have "bit (x AND NOT frame_mask) n = bit (y AND NOT frame_mask) n" for n using assms by simp
  then have b: "n < 32 \<Longrightarrow> \<not> bit frame_mask n \<Longrightarrow> bit x n = bit y n" for n by (auto simp: bit_simps)
  show "x AND m = y AND m" if "m AND frame_mask = 0"
  proof (rule bit_word_eqI)
    fix n assume n: "n < LENGTH(32)"
    have "bit (m AND frame_mask) n \<longleftrightarrow> False" using that by simp
    then show "bit (x AND m) n = bit (y AND m) n" using b [of n] n by (auto simp: bit_simps)
  qed
  show "k \<in> {7, 10, 11, 31} \<Longrightarrow> bit x k = bit y k" using b [of k] by auto
qed

text \<open>The control word behind the speed and the flow control.\<close>

lemma line_word:
  fixes c0 c1 :: u32
  assumes c1: "c1 = (case rate_code r of None \<Rightarrow> c0 | Some s \<Rightarrow> (c0 AND NOT CBAUD) OR s)"
    and c2: "c2 = c_cflag (flow_flags flow (t\<lparr>c_cflag := (c1 OR CLOCAL) OR CREAD\<rparr>))"
  shows "c2 AND CBAUD = (case rate_code r of Some s \<Rightarrow> s | None \<Rightarrow> c0 AND CBAUD) OR (if flow = 2 then CBAUDEX else 0)"
    "bit c2 11" "bit c2 7" "bit c2 31 \<longleftrightarrow> flow = 1 \<or> flow \<noteq> 0 \<and> bit c0 31" "bit c2 10 \<longleftrightarrow> flow = 2 \<or> bit c0 10"
    "c2 AND NOT cflag_mask = c0 AND NOT cflag_mask"
proof -
  have r: "c1 AND CBAUD = (case rate_code r of Some s \<Rightarrow> s | None \<Rightarrow> c0 AND CBAUD)" "bit c1 31 = bit c0 31" "bit c1 10 = bit c0 10"
    "c1 AND NOT cflag_mask = c0 AND NOT cflag_mask"
  proof -
    show "c1 AND CBAUD = (case rate_code r of Some s \<Rightarrow> s | None \<Rightarrow> c0 AND CBAUD)"
      using rate_codeE(2) by (auto simp: c1 bit.conj_disj_distrib2 and.assoc split: option.split)
    show "bit c1 31 = bit c0 31" "bit c1 10 = bit c0 10"
      using rate_codeE(4) [of r] by (auto simp: c1 bit_simps speed_arr_def split: option.split)
    show "c1 AND NOT cflag_mask = c0 AND NOT cflag_mask"
    proof (cases "rate_code r")
      case (Some s)
      have s: "s AND NOT cflag_mask = 0" using rate_codeE(4) [OF Some] by (auto simp: speed_arr_def)
      have "CBAUD AND NOT cflag_mask = 0" by simp
      from or_outside [OF s] and_not_outside [OF this] show ?thesis by (simp only: c1 Some option.case)
    qed (simp add: c1)
  qed
  consider "flow = 0" | "flow = 1" | "flow = 2" | "flow \<noteq> 0" "flow \<noteq> 1" "flow \<noteq> 2" by blast
  then show "c2 AND CBAUD = (case rate_code r of Some s \<Rightarrow> s | None \<Rightarrow> c0 AND CBAUD) OR (if flow = 2 then CBAUDEX else 0)"
    unfolding r(1) [symmetric] by cases (simp_all add: c2 flow_flags_def or_apart and_not_apart bit.conj_disj_distrib2 and.assoc)
  show "bit c2 11" "bit c2 7" "bit c2 31 \<longleftrightarrow> flow = 1 \<or> flow \<noteq> 0 \<and> bit c0 31" "bit c2 10 \<longleftrightarrow> flow = 2 \<or> bit c0 10"
    using r(2,3) by (auto simp: c2 flow_flags_def bit_simps)
  show "c2 AND NOT cflag_mask = c0 AND NOT cflag_mask"
  proof -
    define d where "d = (c1 OR CLOCAL) OR CREAD"
    consider "c2 = d AND NOT CRTSCTS" | "c2 = d OR CRTSCTS" | "c2 = d OR (IXON OR IXOFF OR IXANY)" | "c2 = d"
      unfolding d_def by (cases "flow = 0"; cases "flow = 1"; cases "flow = 2") (auto simp: c2 flow_flags_def)
    moreover have "d AND NOT cflag_mask = c0 AND NOT cflag_mask"
      unfolding d_def line_evals [THEN or_outside] by (rule r(4))
    ultimately show ?thesis by cases (simp_all only: line_evals [THEN or_outside] line_evals [THEN and_not_outside])
  qed
qed

lemma new_options_configured:
  assumes "new_options past r flow n s ch t0 = Some t" "\<forall>k. 7 \<le> k \<and> k < 28 \<longrightarrow> fst (past k) \<noteq> r"
  shows "configured flow (rate_code r) n s ch t0 t"
proof -
  define t1 where "t1 = (case rate_code r of None \<Rightarrow> t0 | Some s \<Rightarrow> set_speed s t0)"
  define t2 where "t2 = flow_flags flow (t1\<lparr>c_cflag := (c_cflag t1 OR CLOCAL) OR CREAD\<rparr>)"
  from assms(1) obtain t3 t4 t5 where
    d: "data_flags n t2 = Some t3" and p: "parity_flags ch t3 = Some t4" and st: "stop_flags s t4 = Some t5"
    and t: "t = raw_mode t5"
    unfolding new_options_def Let_def speed_loop_all [OF assms(2)] t1_def [symmetric] t2_def [symmetric]
    by (auto simp: bind_eq_Some_conv)
  have "c_cflag t1 = (case rate_code r of None \<Rightarrow> c_cflag t0 | Some s \<Rightarrow> (c_cflag t0 AND NOT CBAUD) OR s)"
    by (simp add: t1_def set_speed_def split: option.split)
  note w2 = line_word [OF this refl, of flow t1, folded t2_def]
  have "c_cflag t3 AND NOT frame_mask = (c_cflag t3 AND NOT CSIZE) AND NOT frame_mask" by (rule outside(5) [symmetric])
  also have "\<dots> = (c_cflag t2 AND NOT CSIZE) AND NOT frame_mask" by (simp only: data_flags_value(2) [OF d])
  also have "\<dots> = c_cflag t2 AND NOT frame_mask" by (rule outside(5))
  finally have c3: "c_cflag t3 AND NOT frame_mask = c_cflag t2 AND NOT frame_mask" .
  note p4 = parity_flags_value [OF p] and p5 = stop_flags_value [OF st]
  from p4 p5 c3 have "c_cflag t5 AND NOT frame_mask = c_cflag t2 AND NOT frame_mask" by simp
  note o = outside_bits [OF this]
  have mask: "c_cflag t5 AND NOT cflag_mask = c_cflag t2 AND NOT cflag_mask" by (rule o(1)) simp
  have rate: "c_cflag t5 AND CBAUD = c_cflag t2 AND CBAUD" by (rule o(1)) simp
  have frame: "data_bits (c_cflag t5) = unat n" "parity_kind (c_cflag t5) = parity_meant ch" "stop_bits (c_cflag t5) = unat s"
  proof -
    have "data_bits (c_cflag t5) = data_bits (c_cflag t3)" using p4 p5 by (simp add: data_bits_def)
    then show "data_bits (c_cflag t5) = unat n" using data_flags_value(1) [OF d] by simp
    have "parity_kind (c_cflag t5) = parity_kind (c_cflag t4)" using p5 by (simp add: parity_kind_def)
    then show "parity_kind (c_cflag t5) = parity_meant ch" using p4 by simp
    show "stop_bits (c_cflag t5) = unat s" using p5 by simp
  qed
  have rest: "same_rest t5 t2" "c_iflag t5 = parity_input ch (c_iflag t2)"
    using frame_rest(1) [OF d] frame_rest(2) [OF p] frame_rest(3) [OF st] by (simp_all add: same_rest_def)
  have r2: "c_oflag t2 = c_oflag t0" "c_lflag t2 = c_lflag t0" "c_cc t2 = c_cc t0"
    "case rate_code r of Some s \<Rightarrow> c_ispeed t2 = s \<and> c_ospeed t2 = s | None \<Rightarrow> c_ispeed t2 = c_ispeed t0 \<and> c_ospeed t2 = c_ospeed t0"
    "c_iflag t2 = (if rate_code r = None then c_iflag t0 else c_iflag t0 AND NOT IBAUD0)"
    by (auto simp: t2_def t1_def flow_flags_def set_speed_def split: option.split)
  show ?thesis
    unfolding configured_def t
    using w2 frame rest r2 mask rate o(2) by (simp add: raw_mode_def same_rest_def cong: option.case_cong)
qed

text \<open>
  C27: a request with supported data bits, parity and stop bits, of any rate and any flow control, leaves the device
  so: a rate of the table becomes the speed in both directions and in the rate bits of the control word, any other
  rate changes no speed; the frame format is the one asked for; receiver and local line are on; hardware flow
  control is on exactly for the value 1, off for 0, and otherwise as it was; the value 2 sets the bits of \<^verbatim>\<open>HUPCL\<close> and
  \<^verbatim>\<open>CBAUDEX\<close> (the latter falsifies the rate bits); input and output are raw; and no other bit of the four words is
  changed. This needs that no word behind the two tables on the stack equals the requested rate.
\<close>

theorem Set_configures:
  assumes "\<forall>k. 7 \<le> k \<and> k < 28 \<longrightarrow> fst (past k) \<noteq> baundrate"
    and "databits \<in> {5, 6, 7, 8}" "parity \<in> set ''nNoOeEsS''" "stopbits \<in> {1, 2}"
  shows "\<exists>t. Set past 0 0 baundrate flow_ctrl databits stopbits parity d = (UART_TRUE, d\<lparr>rx_queue := [], settings := t\<rparr>) \<and>
     configured flow_ctrl (rate_code baundrate) databits stopbits parity (settings d) t"
proof -
  obtain t where t: "new_options past baundrate flow_ctrl databits stopbits parity (settings d) = Some t"
    using new_options_Some [of past baundrate flow_ctrl databits stopbits parity "settings d"] assms(2-4) by auto
  then show ?thesis
    using new_options_configured [OF t assms(1)] by (intro exI [of _ t]) (simp add: Set_def Let_def)
qed

theorem Set_configures_witness:
  "\<exists>t. Set (\<lambda>_. (0, 0)) 0 0 9600 2 8 1 CHR ''N'' (demo_tty [7]) = (UART_TRUE, demo_tty []\<lparr>settings := t\<rparr>) \<and>
     configured 2 (Some 0xD) 8 1 CHR ''N'' (settings (demo_tty [7])) t \<and> c_cflag t AND CBAUD = 0x100D"
proof -
  have r: "rate_code 9600 = Some 0xD" by (simp add: rate_code_def name_arr_def speed_arr_def)
  obtain t where t: "Set (\<lambda>_. (0, 0)) 0 0 9600 2 8 1 CHR ''N'' (demo_tty [7]) = (UART_TRUE, demo_tty [7]\<lparr>rx_queue := [], settings := t\<rparr>)"
    "configured 2 (Some 0xD) 8 1 CHR ''N'' (settings (demo_tty [7])) t"
    using Set_configures [of "\<lambda>_. (0, 0)" 9600 8 "CHR ''N''" 1 2 "demo_tty [7]", unfolded r] by auto
  have "c_cflag t AND CBAUD = 0x100D" using t(2) by (simp add: configured_def)
  moreover have "demo_tty [7]\<lparr>rx_queue := [], settings := t\<rparr> = demo_tty []\<lparr>settings := t\<rparr>" by (simp add: demo_tty_def)
  ultimately show ?thesis using t by auto
qed

text \<open>
  The loop over the rate tables runs to \<^verbatim>\<open>sizeof(speed_arr)\<close> = 28, four times the number of
  elements: when one of the 21 words read behind the tables equals the requested rate, the word
  beside it becomes the speed of the port if it is a speed code, even for a rate the tables hold.
\<close>

lemma Set_reads_past_tables:
  assumes "7 \<le> k" "k < 28" "past k = (baundrate, other)" "\<forall>i. k < i \<and> i < 28 \<longrightarrow> fst (past i) \<noteq> baundrate"
    and "other AND NOT CBAUD = 0" "other \<noteq> 0"
  shows "c_ispeed (speed_loop past baundrate [0..<28] t) = other \<and>
         c_ospeed (speed_loop past baundrate [0..<28] t) = other"
proof -
  have "[0..<28] = [0..<k] @ k # [Suc k..<28]"
    using assms(2) upt_add_eq_append [of 0 k "28 - k"] by (simp add: upt_conv_Cons del: upt.simps)
  moreover have "speed_loop past baundrate [Suc k..<28] t' = t'" for t'
    using assms(1,4) by (intro speed_loop_id) (auto simp: arr_at_def)
  moreover have "arr_at past k = (baundrate, other)" using assms(1,3) by (simp add: arr_at_def)
  ultimately show ?thesis
    using cfset_both [OF assms(5,6)] by (simp only: speed_loop_append speed_loop.simps) (simp add: set_speed_def)
qed

section \<open>Opening\<close>

lemma open_loop_None: "(\<forall>n\<in>set ns. open_ret n = UART_FALSE) \<Longrightarrow> open_loop open_ret ns = (UART_FALSE, None)"
  by (induction ns) auto

lemma open_loop_Some: "(\<forall>n\<in>set ms. open_ret n = UART_FALSE) \<Longrightarrow> open_ret n \<noteq> UART_FALSE \<Longrightarrow>
  open_loop open_ret (ms @ n # ns) = (open_ret n, Some n)"
  by (induction ms) auto

text \<open>
  \<^verbatim>\<open>Open\<close> takes the first of the three USB ports that opens, configures that one only, keeps its
  descriptor, and returns the result of the configuration, which is also the state that reads and
  writes test; when none opens it fails and leaves every device alone.
\<close>

lemma Open_first_available:
  assumes "dev_t = ms @ n # ns" "\<forall>m\<in>set ms. open_ret m = UART_FALSE" "open_ret n \<noteq> UART_FALSE"
  shows "Open past open_ret g s baundrate databite stopbite parity p dev =
     (let (r, d) = Set past g s baundrate 0 databite stopbite parity (dev n)
      in (r, p\<lparr>fd := open_ret n, isnormal := r\<rparr>, dev(n := d))) \<and>
     ((\<forall>m\<in>set dev_t. open_ret' m = UART_FALSE) \<longrightarrow>
      Open past open_ret' g s baundrate databite stopbite parity p dev = (UART_FALSE, p\<lparr>fd := UART_FALSE\<rparr>, dev))"
  using open_loop_Some [OF assms(2,3), of ns] open_loop_None [of dev_t open_ret'] assms(1)
  by (simp add: Open_def)

section \<open>The wheel-speed frame\<close>

text \<open>A receiver of the frame: it checks both marks and the checksum and reads two little-endian numbers.\<close>

definition le32 :: "u8 \<Rightarrow> u8 \<Rightarrow> u8 \<Rightarrow> u8 \<Rightarrow> int" where
  "le32 b0 b1 b2 b3 =
     sint (word_of_int (uint b0 + 256 * uint b1 + 65536 * uint b2 + 16777216 * uint b3) :: u32)"

fun decode_frame :: "u8 list \<Rightarrow> (int \<times> int) option" where
  "decode_frame [s, a0, a1, a2, a3, b0, b1, b2, b3, code, e] =
     (if s = 0x53 \<and> e = 0x45 \<and> code = (a0 XOR a1 XOR a2 XOR a3 XOR b0 XOR b1 XOR b2 XOR b3) AND 0x7F
      then Some (le32 a0 a1 a2 a3, le32 b0 b1 b2 b3) else None)"
| "decode_frame _ = None"

lemma bytes_of_int:
  "l mod 256 + 256 * (l div 256 mod 256) + 65536 * (l div 65536 mod 256) + 16777216 * (l div 16777216 mod 256)
   = (l :: int) mod 4294967296"
proof -
  have d: "l div 256 div 256 = l div 65536" "l div 65536 div 256 = l div 16777216"
    by (simp_all add: zdiv_zmult2_eq [symmetric])
  have "l mod 4294967296 = 256 * (l div 256 mod 16777216) + l mod 256"
    using zmod_zmult2_eq [of 16777216 l 256] by simp
  moreover have "l div 256 mod 16777216 = 256 * (l div 65536 mod 65536) + l div 256 mod 256"
    using zmod_zmult2_eq [of 65536 "l div 256" 256] d by simp
  moreover have "l div 65536 mod 65536 = 256 * (l div 16777216 mod 256) + l div 65536 mod 256"
    using zmod_zmult2_eq [of 256 "l div 65536" 256] d by simp
  moreover have "x = 256 * y + a \<Longrightarrow> y = 256 * z + b \<Longrightarrow> z = 256 * w + c \<Longrightarrow>
      a + 256 * b + 65536 * c + 16777216 * w = x" for x y z w a b c :: int
    by linarith
  ultimately show ?thesis by blast
qed

lemma le32_bytes:
  assumes "- (2 ^ 31) \<le> l" "l < 2 ^ 31"
  shows "le32 (word_of_int l) (word_of_int (drop_bit 8 l)) (word_of_int (drop_bit 16 l)) (word_of_int (drop_bit 24 l)) = l"
proof -
  have u: "uint (word_of_int x :: u8) = x mod 256" for x
    by (simp add: unsigned_of_int take_bit_eq_mod)
  have "le32 (word_of_int l) (word_of_int (drop_bit 8 l)) (word_of_int (drop_bit 16 l)) (word_of_int (drop_bit 24 l))
      = sint (word_of_int (l mod 4294967296) :: u32)"
    unfolding le32_def u bytes_of_int [of l, symmetric] by (simp add: drop_bit_eq_div)
  also have "(word_of_int (l mod 4294967296) :: u32) = word_of_int l"
    by (simp add: word_of_int_eq_iff take_bit_eq_mod)
  also have "sint (word_of_int l :: u32) = l"
    using assms by (simp add: signed_of_int signed_take_bit_int_eq_self)
  finally show ?thesis .
qed

lemma wheel_frame_decodes:
  assumes "- (2 ^ 31) \<le> l" "l < 2 ^ 31" "- (2 ^ 31) \<le> r" "r < 2 ^ 31"
  shows "\<exists>frame. wheel_frame l r = Some frame \<and> length frame = 11 \<and> decode_frame frame = Some (l, r)"
proof -
  have e: "byte_of CHR ''S'' = 0x53" "byte_of CHR ''E'' = 0x45"
    by (simp_all add: byte_of_def of_char_def)
  show ?thesis
    using le32_bytes [OF assms(1,2)] le32_bytes [OF assms(3,4)]
    by (simp add: wheel_frame_def XorCode_def Let_def e xor.assoc)
qed

text \<open>
  For speeds in the range of \<^verbatim>\<open>int\<close> and a port that accepts the whole frame, \<^verbatim>\<open>sendWheelSpd\<close>
  succeeds and queues eleven bytes that decode, with a matching checksum, to the two truncated speeds.
\<close>

lemma sendWheelSpd_roundtrip:
  assumes "- (2 ^ 31) \<le> float_to_int lspd" "float_to_int lspd < 2 ^ 31"
    and "- (2 ^ 31) \<le> float_to_int rspd" "float_to_int rspd < 2 ^ 31" "isnormal p \<noteq> UART_FALSE"
  shows "\<exists>frame. sendWheelSpd 11 lspd rspd p d = Some (UART_TRUE, d\<lparr>tx_queue := tx_queue d @ frame\<rparr>) \<and>
     decode_frame frame = Some (float_to_int lspd, float_to_int rspd)"
proof -
  obtain frame where "wheel_frame (float_to_int lspd) (float_to_int rspd) = Some frame"
    "length frame = 11" "decode_frame frame = Some (float_to_int lspd, float_to_int rspd)"
    using wheel_frame_decodes [OF assms(1-4)] by blast
  with assms(5) show ?thesis
    by (intro exI [of _ frame]) (simp add: sendWheelSpd_def writeBuffer_def)
qed

section \<open>Output and flow control\<close>

text \<open>
  \<^verbatim>\<open>writeBuffer\<close> succeeds exactly when the port is configured and the system accepts the whole,
  non-empty buffer in one call, and then the buffer is queued behind what was there; every other
  outcome of the call fails and also discards the earlier messages that still waited for transmission.
\<close>

lemma writeBuffer_all_or_nothing:
  assumes "isnormal p \<noteq> UART_FALSE" "write_ret \<le> int (length write_buf)"
  shows "writeBuffer write_ret write_buf p d =
    (if write_ret = int (length write_buf) \<and> write_buf \<noteq> []
     then (UART_TRUE, d\<lparr>tx_queue := tx_queue d @ write_buf\<rparr>)
     else (UART_FALSE, d\<lparr>tx_queue := []\<rparr>))"
proof (cases "write_ret = int (length write_buf) \<and> write_buf \<noteq> []")
  case True
  with assms(1) show ?thesis by (simp add: writeBuffer_def)
next
  case False
  with assms(2) have "\<not> (write_ret > 0 \<and> nat write_ret = length write_buf)" by auto
  with assms(1) False show ?thesis by (auto simp: writeBuffer_def Let_def)
qed

text \<open>
  Software flow control sets \<^verbatim>\<open>IXON | IXOFF | IXANY\<close>, which are flags of the input word, in the control
  word, where the same bits mean \<^verbatim>\<open>HUPCL\<close>, \<^verbatim>\<open>CBAUDEX\<close> and \<^verbatim>\<open>CLOCAL\<close>; the input word keeps its value.
\<close>

lemma software_flow_wrong_word:
  "c_iflag (flow_flags 2 t) = c_iflag t \<and> bit (c_cflag (flow_flags 2 t)) 10 \<and> bit (c_cflag (flow_flags 2 t)) 12"
  by (simp add: flow_flags_def bit_simps)

text \<open>The two overloads of \<^verbatim>\<open>XorCode\<close> agree.\<close>

lemma word_of_int_schar: "(word_of_int (schar c) :: u8) = byte_of c"
proof -
  have "schar c = int (of_char c) \<or> schar c = int (of_char c) - 256"
    unfolding schar_def by (simp add: of_nat_of_char)
  then have "(word_of_int (schar c) :: u8) = word_of_int (int (of_char c))"
    by (auto simp: word_of_int_eq_iff take_bit_eq_mod simp del: of_nat_of_char)
  then show ?thesis by (simp add: byte_of_def)
qed

lemma xor_fold_bytes:
  "(word_of_int (foldl (\<lambda>ans c. ans XOR schar c) i cs) :: u8) =
   foldl (\<lambda>ans b. ans XOR b) (word_of_int i) (map byte_of cs)"
  by (induction cs arbitrary: i) (simp_all add: of_int_xor_eq word_of_int_schar)

lemma XorCode_overloads_agree: "XorCode_string s len = XorCode (map byte_of s) len"
proof -
  have "(word_of_int (x AND 0x7F) :: u8) = word_of_int x AND 0x7F" for x by (simp add: of_int_and_eq)
  then show ?thesis
    by (auto simp: XorCode_string_def XorCode_def xor_fold_bytes word_of_int_schar take_map drop_map)
qed

text \<open>
  The table of the constructor, which an earlier conversion used, agrees with the present conversion
  on every character it holds.
\<close>

lemma convertor_table_agrees: "list_all (\<lambda>(c, s). ConvertToUtf16Be [c] [] = s) convertor_table"
proof -
  have "list_all (\<lambda>(c, s). (of_char c :: nat) < 128 \<and> s = utf16be_hex (of_char c)) convertor_table"
    by (simp add: convertor_table_def utf16be_hex_def hex_upper_def char_of_def of_char_def bit_Suc_0_iff)
  moreover have "ConvertToUtf16Be [c] [] = s" if "(of_char c :: nat) < 128" "s = utf16be_hex (of_char c)" for c s
    using Convert_one [of "of_char c" "[]" "[]"] that by simp
  ultimately show ?thesis by (simp add: list_all_iff split_beta)
qed

end
