(* ===== verification/Hik_Device.thy ===== *)
theory Hik_Device
  imports Alarm_Ring "HOL-Library.Monad_Syntax"
begin

text \<open>
  The device side of \<^verbatim>\<open>HikDevOperate\<close> (\<^verbatim>\<open>src/src/HikDev.cpp\<close>): start and end of the SDK, login, the
  motion-detection set-up and the arming of a camera, and the printing of device, network and alarm
  information. The SDK is a parameter, the record \<open>hik_sdk\<close> of what its calls return; the calls that
  change something outside the program are recorded in order in a trace of \<open>sdk_call\<close>s.

  \<open>None\<close> is an access outside an array: a \<^verbatim>\<open>strcpy\<close> that does not fit, a write behind a buffer, or the
  printing of a character array without a NUL byte.
\<close>

section \<open>Structures of the SDK\<close>

record NET_DVR_USER_LOGIN_INFO =
  sDeviceAddress :: "char list"
  byUseTransport :: u8
  wPort :: u16
  sUserName :: "char list"
  sPassword :: "char list"
  cbLoginResult :: bool
  pUser :: bool
  bUseAsynLogin :: bool
  byProxyType :: u8
  byUseUTCTime :: u8
  byLoginMode :: u8
  byHttps :: u8
  iProxyID :: int
  byVerifyMode :: u8
  byRes3 :: "u8 list"

record NET_DVR_SCHEDTIME =
  byStartHour :: u8
  byStartMin :: u8
  byStopHour :: u8
  byStopMin :: u8

record NET_DVR_HANDLEEXCEPTION_V30 =
  dwHandleType :: u32
  byRelAlarmOut :: "u8 list"

record NET_DVR_MOTION_V30 =
  byMotionScope :: "u8 list list"
  byMotionSensitive :: u8
  byEnableHandleMotion :: u8
  byEnableDisplay :: u8
  reservedData :: char
  struMotionHandleType :: NET_DVR_HANDLEEXCEPTION_V30
  struAlarmTime :: "NET_DVR_SCHEDTIME list list"
  byRelRecordChan :: "u8 list"

record NET_DVR_VILOST_V30 =
  byEnableHandleVILost :: u8
  strVILostHandleType :: NET_DVR_HANDLEEXCEPTION_V30
  vilost_AlarmTime :: "NET_DVR_SCHEDTIME list list"

record NET_DVR_HIDEALARM_V30 =
  dwEnableHideAlarm :: u32
  wHideAlarmAreaTopLeftX :: u16
  wHideAlarmAreaTopLeftY :: u16
  wHideAlarmAreaWidth :: u16
  wHideAlarmAreaHeight :: u16
  strHideAlarmHandleType :: NET_DVR_HANDLEEXCEPTION_V30
  hide_AlarmTime :: "NET_DVR_SCHEDTIME list list"

record NET_DVR_SHELTER =
  wHideAreaTopLeftX :: u16
  wHideAreaTopLeftY :: u16
  wHideAreaWidth :: u16
  wHideAreaHeight :: u16

text \<open>
  The picture configuration. The service reads and writes only \<open>struMotion\<close>; the members of the
  on-screen display that follow \<open>dwShowOsd\<close> travel as the bytes \<open>osd_bytes\<close>.
\<close>

record NET_DVR_PICCFG_V30 =
  pic_dwSize :: u32
  sChanName :: "u8 list"
  dwVideoFormat :: u32
  byReservedData :: "u8 list"
  dwShowChanName :: u32
  wShowNameTopLeftX :: u16
  wShowNameTopLeftY :: u16
  struVILost :: NET_DVR_VILOST_V30
  struRes :: NET_DVR_VILOST_V30
  struMotion :: NET_DVR_MOTION_V30
  struHideAlarm :: NET_DVR_HIDEALARM_V30
  dwEnableHide :: u32
  struShelter :: "NET_DVR_SHELTER list"
  dwShowOsd :: u32
  osd_bytes :: "u8 list"

text \<open>The parameter of the arming call; the program sets its size and leaves the rest zero.\<close>

record NET_DVR_SETUPALARM_PARAM =
  setup_dwSize :: u32
  byLevel :: u8
  byAlarmInfoType :: u8
  byRetAlarmTypeV40 :: u8
  byRetDevInfoVersion :: u8
  byRetVQDAlarmType :: u8
  byFaceAlarmDetection :: u8
  setup_bySupport :: u8
  byBrokenNetHttp :: u8
  wTaskNo :: u16
  byDeployType :: u8
  setup_byRes1 :: "u8 list"
  byAlarmTypeURL :: u8
  byCustomCtrl :: u8

definition zero_setup :: NET_DVR_SETUPALARM_PARAM where
  "zero_setup = \<lparr>setup_dwSize = 0, byLevel = 0, byAlarmInfoType = 0, byRetAlarmTypeV40 = 0,
     byRetDevInfoVersion = 0, byRetVQDAlarmType = 0, byFaceAlarmDetection = 0, setup_bySupport = 0,
     byBrokenNetHttp = 0, wTaskNo = 0, byDeployType = 0, setup_byRes1 = replicate 3 0,
     byAlarmTypeURL = 0, byCustomCtrl = 0\<rparr>"

definition zero_login :: NET_DVR_USER_LOGIN_INFO where
  "zero_login = \<lparr>sDeviceAddress = replicate 129 NUL, byUseTransport = 0, wPort = 0,
     sUserName = replicate 64 NUL, sPassword = replicate 64 NUL, cbLoginResult = False, pUser = False,
     bUseAsynLogin = False, byProxyType = 0, byUseUTCTime = 0, byLoginMode = 0, byHttps = 0,
     iProxyID = 0, byVerifyMode = 0, byRes3 = replicate 119 0\<rparr>"

text \<open>The login data of a camera, \<^verbatim>\<open>HikDevHandl\<close>.\<close>

record HikDevHandl =
  sDevIp :: string
  wDevPort :: u16
  sDevUserName :: string
  sDevPassword :: string
  lUserId :: int

section \<open>The SDK as a parameter\<close>

record hik_sdk =
  NET_DVR_Init_ret :: bool
  NET_DVR_Cleanup_ret :: bool
  NET_DVR_Login_V40 :: "NET_DVR_USER_LOGIN_INFO \<Rightarrow> int"
  get_piccfg :: "int \<Rightarrow> int \<Rightarrow> NET_DVR_PICCFG_V30 option"
  set_piccfg_ret :: "int \<Rightarrow> int \<Rightarrow> NET_DVR_PICCFG_V30 \<Rightarrow> bool"
  set_callback_ret :: bool
  NET_DVR_SetupAlarmChan_V41 :: "int \<Rightarrow> NET_DVR_SETUPALARM_PARAM \<Rightarrow> int"
  close_alarm_ret :: "int \<Rightarrow> bool"

datatype sdk_call =
    CallInit
  | CallSdkPath string
  | CallCleanup
  | CallLogin NET_DVR_USER_LOGIN_INFO
  | CallSetPicCfg int int NET_DVR_PICCFG_V30
  | CallSetCallback
  | CallSetupAlarm int NET_DVR_SETUPALARM_PARAM
  | CallCloseAlarm int

section \<open>Start, end and login\<close>

text \<open>The C string that \<^verbatim>\<open>std::string::c_str()\<close> is read as.\<close>

definition c_str :: "string \<Rightarrow> string" where
  "c_str s = takeWhile (\<lambda>c. c \<noteq> NUL) s"

text \<open>\<^verbatim>\<open>strcpy(dst, src)\<close> into an array: the bytes of \<open>src\<close> and its NUL, the rest unchanged.\<close>

definition strcpy :: "char list \<Rightarrow> string \<Rightarrow> char list option" where
  "strcpy dst src =
     (if length src < length dst then Some (src @ NUL # drop (length src + 1) dst) else None)"

definition InitialSDK :: "hik_sdk \<Rightarrow> bool \<times> sdk_call list" where
  "InitialSDK sdk =
     (if \<not> NET_DVR_Init_ret sdk then (False, [CallInit])
      else (True, [CallInit, CallSdkPath ''/usr/local/mdalarm/lib'']))"

definition DeinitialSDK :: "hik_sdk \<Rightarrow> bool \<times> sdk_call list" where
  "DeinitialSDK sdk = (NET_DVR_Cleanup_ret sdk, [CallCleanup])"

definition HikDevLogin :: "hik_sdk \<Rightarrow> HikDevHandl \<Rightarrow> (int \<times> sdk_call list) option" where
  "HikDevLogin sdk DevHdl =
     do {
       addr \<leftarrow> strcpy (sDeviceAddress zero_login) (c_str (sDevIp DevHdl));
       user \<leftarrow> strcpy (sUserName zero_login) (c_str (sDevUserName DevHdl));
       pass \<leftarrow> strcpy (sPassword zero_login) (c_str (sDevPassword DevHdl));
       let info = zero_login\<lparr>sDeviceAddress := addr, wPort := wDevPort DevHdl, sUserName := user, sPassword := pass\<rparr>;
           UserId = NET_DVR_Login_V40 sdk info
       in Some (if UserId < 0 then -1 else UserId, [CallLogin info])
     }"

section \<open>Motion detection\<close>

text \<open>
  A line of the parameter text: \<^verbatim>\<open>snprintf\<close> into the 64-byte buffer, then \<^verbatim>\<open>append\<close>.
\<close>

definition put_line :: "string \<Rightarrow> string \<Rightarrow> string" where
  "put_line txt out = out @ snprintf_str 64 txt"

abbreviation newline :: string where
  "newline \<equiv> [CHR 0x0A]"

definition enable_text :: "u8 \<Rightarrow> string" where
  "enable_text b = (if b = 0 then ''disable'' else ''enable'')"

definition handle_types :: "(u32 \<times> string) list" where
  "handle_types = [(0x01, ''monitor alarm''), (0x02, ''voice alarm''), (0x04, ''upload to center''),
     (0x08, ''trigger alarm output''), (0x10, ''capture and email''),
     (0x20, ''wireless, voice, light alarm together''), (0x40, ''electronic map''),
     (0x200, ''capture and ftp''), (0x1000, ''capture and upload to clound'')]"

definition handle_type_lines :: "u32 \<Rightarrow> string \<Rightarrow> string" where
  "handle_type_lines t out =
     (let out1 = (if t = 0 then put_line ('' '' @ ''do nothing'' @ newline) out else out)
      in foldl (\<lambda>o' (m, txt). if t AND m \<noteq> 0 then put_line ('' '' @ txt @ newline) o' else o') out1 handle_types)"

fun alarm_out_lines :: "nat \<Rightarrow> u8 list \<Rightarrow> string \<Rightarrow> string" where
  "alarm_out_lines i [] out = out"
| "alarm_out_lines i (b # bs) out =
     alarm_out_lines (i + 1) bs
       (if b = 0 then out else put_line (''  '' @ dec i @ '' '' @ newline) out)"

definition motion_text :: "NET_DVR_MOTION_V30 \<Rightarrow> string" where
  "motion_text m =
     (let o1 = put_line (''motion detect parameter : {'' @ newline) [];
          o2 = put_line ('' '' @ ''sensitive : '' @ dec (unat (byMotionSensitive m)) @ newline) o1;
          o3 = put_line ('' '' @ ''motion detect handle : '' @ enable_text (byEnableHandleMotion m) @ newline) o2;
          o4 = put_line ('' '' @ ''motion detect high displa : '' @ enable_text (byEnableDisplay m) @ newline) o3;
          o5 = handle_type_lines (dwHandleType (struMotionHandleType m)) o4;
          o6 = put_line ('' '' @ ''channel for triggering alarm : { '' @ newline) o5;
          o7 = alarm_out_lines 0 (take 96 (byRelAlarmOut (struMotionHandleType m))) o6
      in put_line ('' }'' @ newline @ ''}'' @ newline) o7)"

text \<open>The result: the return value, the text \<^verbatim>\<open>strParamOut\<close>, and the calls made.\<close>

definition HikDevMotionDetectCfg :: "hik_sdk \<Rightarrow> int \<Rightarrow> bool \<times> string \<times> sdk_call list" where
  "HikDevMotionDetectCfg sdk UserId =
     (case get_piccfg sdk UserId 1 of
        None \<Rightarrow> (False, [], [])
      | Some struPicCfg \<Rightarrow>
          let strParamOut = motion_text (struMotion struPicCfg);
              IsNeedToSetCfg = (byEnableHandleMotion (struMotion struPicCfg) = 0)
          in if IsNeedToSetCfg then
               let cfg = struPicCfg\<lparr>struMotion :=
                     (struMotion struPicCfg)\<lparr>byEnableHandleMotion := 1, byMotionSensitive := 4\<rparr>\<rparr>
               in (set_piccfg_ret sdk UserId 1 cfg, strParamOut, [CallSetPicCfg UserId 1 cfg])
             else (True, strParamOut, []))"

definition HikDevStartAlarm :: "hik_sdk \<Rightarrow> int \<Rightarrow> hik_state \<Rightarrow> bool \<times> hik_state \<times> sdk_call list" where
  "HikDevStartAlarm sdk UserId s =
     (case HikDevMotionDetectCfg sdk UserId of (ok, _, cs) \<Rightarrow>
        if \<not> ok then (False, s, cs)
        else if \<not> set_callback_ret sdk then (False, s, cs @ [CallSetCallback])
        else
          let AlarmParam = zero_setup\<lparr>setup_dwSize := 20\<rparr>;
              h = NET_DVR_SetupAlarmChan_V41 sdk UserId AlarmParam;
              s' = s\<lparr>lAlarmHandle := h\<rparr>
          in (\<not> h < 0, s', cs @ [CallSetCallback, CallSetupAlarm UserId AlarmParam]))"

definition HikDevStopAlarm :: "hik_sdk \<Rightarrow> hik_state \<Rightarrow> bool \<times> sdk_call list" where
  "HikDevStopAlarm sdk s = (close_alarm_ret sdk (lAlarmHandle s), [CallCloseAlarm (lAlarmHandle s)])"

section \<open>Alarm texts\<close>

text \<open>
  \<^verbatim>\<open>snprintf(sMacStr + offset, len, txt)\<close> into an array: it writes at most \<open>len - 1\<close> characters and a NUL
  (nothing when \<open>len\<close> is 0).
\<close>

definition snprintf_at :: "nat \<Rightarrow> nat \<Rightarrow> string \<Rightarrow> char list \<Rightarrow> char list option" where
  "snprintf_at off len txt a =
     (if len = 0 then Some a
      else
        let w = snprintf_str len txt @ [NUL]
        in if off + length w \<le> length a then Some (take off a @ w @ drop (off + length w) a) else None)"

text \<open>
  \<^verbatim>\<open>HikDevMacHexToStr\<close>, with the array it writes to. The room left, \<^verbatim>\<open>dwMacStrLen - offset\<close>, is computed
  on 32-bit unsigned numbers.
\<close>

fun mac_loop :: "u8 list \<Rightarrow> u32 \<Rightarrow> u32 \<Rightarrow> char list \<Rightarrow> char list option" where
  "mac_loop [] offset dwMacStrLen sMacStr = Some sMacStr"
| "mac_loop [b] offset dwMacStrLen sMacStr =
     snprintf_at (unat offset) (unat (dwMacStrLen - offset)) (hex02 b) sMacStr"
| "mac_loop (b # c # bs) offset dwMacStrLen sMacStr =
     do {
       a \<leftarrow> snprintf_at (unat offset) (unat (dwMacStrLen - offset)) (hex02 b @ ''-'') sMacStr;
       mac_loop (c # bs) (offset + 3) dwMacStrLen a
     }"

definition HikDevMacHexToStr :: "u8 list \<Rightarrow> char list \<Rightarrow> u32 \<Rightarrow> char list option" where
  "HikDevMacHexToStr bMacHex sMacStr dwMacStrLen = mac_loop (take 6 bMacHex) 0 dwMacStrLen sMacStr"

definition field_text :: "u8 \<Rightarrow> string \<Rightarrow> string option \<Rightarrow> string option" where
  "field_text valid label v =
     (if valid \<noteq> 0 then do { t \<leftarrow> v; Some (''  '' @ label @ t @ newline) }
      else Some (''  '' @ label @ ''invalid'' @ newline))"

text \<open>
  \<^verbatim>\<open>stack\<close> is what the uninitialised array \<^verbatim>\<open>sMacStr\<close> holds. The device version is printed with
  \<^verbatim>\<open>%d\<close>.
\<close>

definition HikDevOutputAlarmDevInfo :: "char list \<Rightarrow> NET_DVR_ALARMER \<Rightarrow> string \<Rightarrow> string option" where
  "HikDevOutputAlarmDevInfo stack d strOut =
     do {
       let o1 = put_line ('' '' @ ''alarm device information : {'' @ newline) strOut;
       t2 \<leftarrow> field_text (byUserIDValid d) ''user id : '' (Some (dec_int (lUserID d)));
       t3 \<leftarrow> field_text (bySerialValid d) ''serial number : '' (cstr (sSerialNumber d));
       t4 \<leftarrow> field_text (byVersionValid d) ''device version : '' (Some (dec_int (sint (dwDeviceVersion d))));
       t5 \<leftarrow> field_text (byDeviceNameValid d) ''device name : '' (cstr (sDeviceName d));
       t6 \<leftarrow> field_text (byMacAddrValid d) ''mac addr : ''
               (do { a \<leftarrow> HikDevMacHexToStr (byMacAddr d) stack 13; cstr a });
       t7 \<leftarrow> field_text (byLinkPortValid d) ''link port : '' (Some (dec (unat (wLinkPort d))));
       t8 \<leftarrow> field_text (byDeviceIPValid d) ''device ip : '' (cstr (sDeviceIP d));
       t9 \<leftarrow> field_text (bySocketIPValid d) ''socket ip : '' (cstr (sSocketIP d));
       Some (foldl (\<lambda>o' t. put_line t o') o1 [t2, t3, t4, t5, t6, t7, t8, t9, '' }'' @ newline])
     }"

text \<open>\<^verbatim>\<open>HikDevOutputAlarmInfo\<close>: \<open>None\<close> also for an index outside the ring.\<close>

definition HikDevOutputAlarmInfo :: "(int \<Rightarrow> tm) \<Rightarrow> char list \<Rightarrow> u32 \<Rightarrow> hik_state \<Rightarrow> string option" where
  "HikDevOutputAlarmInfo localtime_r stack uiAlarmIdx s =
     (if \<not> unat uiAlarmIdx < length (struAlarmMotionDetect s) then None
      else
        let a = struAlarmMotionDetect s ! unat uiAlarmIdx;
            t = localtime_r (AlarmTime a)
        in do {
          o1 \<leftarrow> HikDevOutputAlarmDevInfo stack (struAlarmDevInfo a) (put_line (''motion detect alarm : {'' @ newline) []);
          Some (foldl (\<lambda>o' x. put_line x o') o1
            ['' '' @ ''channel No. : '' @ dec (unat (byChannel a)) @ newline,
             '' '' @ ''alarm date and time : '' @ dec_int (tm_year t + 1900) @ ''-'' @ dec_int (tm_mon t + 1) @ ''-'' @
               dec_int (tm_mday t) @ '' '' @ dec_int (tm_hour t) @ '':'' @ dec_int (tm_min t) @ '':'' @
               dec_int (tm_sec t) @ newline,
             ''}'' @ newline])
        })"

section \<open>Login\<close>

lemma c_str_id: "NUL \<notin> set s \<Longrightarrow> c_str s = s"
  unfolding c_str_def by (rule takeWhile_eq_all_conv [THEN iffD2]) auto

lemma NUL_c_str: "NUL \<notin> set (c_str s)"
  unfolding c_str_def by (auto dest: set_takeWhileD)

lemma strcpy_cstr: "strcpy dst (c_str s) = Some a \<Longrightarrow> cstr a = Some (c_str s) \<and> length a = length dst"
  using NUL_c_str [of s] by (auto simp: strcpy_def cstr_terminated split: if_splits)

lemma strcpy_None: "strcpy dst s = None \<longleftrightarrow> length dst \<le> length s"
  by (simp add: strcpy_def)

text \<open>
  \<^verbatim>\<open>HikDevLogin\<close> with an address under 129 characters and a user name and password under 64 makes
  one login call whose structure holds exactly these strings and the port and is otherwise zero, and
  returns the user id or -1; with a longer string it writes behind an array of the structure.
\<close>

lemma HikDevLogin_safe_iff:
  "(case HikDevLogin sdk h of
      None \<Rightarrow> 129 \<le> length (c_str (sDevIp h)) \<or> 64 \<le> length (c_str (sDevUserName h)) \<or>
              64 \<le> length (c_str (sDevPassword h))
    | Some (r, cs) \<Rightarrow>
        length (c_str (sDevIp h)) < 129 \<and> length (c_str (sDevUserName h)) < 64 \<and>
        length (c_str (sDevPassword h)) < 64 \<and>
        (\<exists>info. cs = [CallLogin info] \<and> cstr (sDeviceAddress info) = Some (c_str (sDevIp h)) \<and>
          cstr (sUserName info) = Some (c_str (sDevUserName h)) \<and>
          cstr (sPassword info) = Some (c_str (sDevPassword h)) \<and> wPort info = wDevPort h \<and>
          byUseTransport info = 0 \<and> byProxyType info = 0 \<and> byHttps info = 0 \<and> \<not> bUseAsynLogin info \<and>
          r = (if NET_DVR_Login_V40 sdk info < 0 then -1 else NET_DVR_Login_V40 sdk info)))"
proof -
  have l: "length (sDeviceAddress zero_login) = 129" "length (sUserName zero_login) = 64"
    "length (sPassword zero_login) = 64"
    by (simp_all add: zero_login_def)
  show ?thesis
  proof (cases "HikDevLogin sdk h")
    case None
    then have "strcpy (sDeviceAddress zero_login) (c_str (sDevIp h)) = None \<or>
        strcpy (sUserName zero_login) (c_str (sDevUserName h)) = None \<or>
        strcpy (sPassword zero_login) (c_str (sDevPassword h)) = None"
      unfolding HikDevLogin_def by (auto simp: Let_def bind_eq_None_conv)
    with None l show ?thesis by (auto simp: strcpy_None)
  next
    case (Some x)
    then obtain a u p where
      "strcpy (sDeviceAddress zero_login) (c_str (sDevIp h)) = Some a"
      "strcpy (sUserName zero_login) (c_str (sDevUserName h)) = Some u"
      "strcpy (sPassword zero_login) (c_str (sDevPassword h)) = Some p"
      unfolding HikDevLogin_def by (auto simp: bind_eq_Some_conv)
    moreover from this Some have "x = (let info = zero_login\<lparr>sDeviceAddress := a, wPort := wDevPort h,
         sUserName := u, sPassword := p\<rparr> in (if NET_DVR_Login_V40 sdk info < 0 then -1
           else NET_DVR_Login_V40 sdk info, [CallLogin info]))"
      by (simp add: HikDevLogin_def Let_def)
    moreover from calculation have "length (c_str (sDevIp h)) < 129" "length (c_str (sDevUserName h)) < 64"
      "length (c_str (sDevPassword h)) < 64"
      using l by (auto simp: strcpy_def split: if_splits)
    ultimately show ?thesis
      unfolding Some by (simp add: Let_def strcpy_cstr zero_login_def)
  qed
qed

section \<open>Arming a camera\<close>

text \<open>The picture configuration of its first channel that a camera has after a sequence of calls.\<close>

fun cfg_after :: "int \<Rightarrow> sdk_call list \<Rightarrow> NET_DVR_PICCFG_V30 \<Rightarrow> NET_DVR_PICCFG_V30" where
  "cfg_after u [] cfg = cfg"
| "cfg_after u (CallSetPicCfg v ch c # cs) cfg = cfg_after u cs (if u = v \<and> ch = 1 then c else cfg)"
| "cfg_after u (_ # cs) cfg = cfg_after u cs cfg"

text \<open>
  C28: when \<^verbatim>\<open>HikDevStartAlarm\<close> succeeds, motion detection is enabled on the first channel of the camera: a
  configuration that had it enabled is not written, one that had it disabled is written once with only the switch
  and the sensitivity changed; the alarm callback is registered before the camera is armed, with parameters that
  are zero but for their size; the handle that arming returned, which is not negative, is stored; and nothing else
  of the state, in particular the alarm ring, is changed.
\<close>

theorem HikDevStartAlarm_arms:
  assumes "HikDevStartAlarm sdk u s = (True, s', cs)"
  shows "\<exists>cfg pre. get_piccfg sdk u 1 = Some cfg \<and> cs = pre @ [CallSetCallback, CallSetupAlarm u (zero_setup\<lparr>setup_dwSize := 20\<rparr>)] \<and>
     (let m = struMotion cfg; cfg' = cfg_after u cs cfg
      in byEnableHandleMotion (struMotion cfg') \<noteq> 0 \<and>
         (if byEnableHandleMotion m \<noteq> 0 then pre = [] \<and> cfg' = cfg
          else pre = [CallSetPicCfg u 1 cfg'] \<and>
               cfg' = cfg\<lparr>struMotion := m\<lparr>byEnableHandleMotion := 1, byMotionSensitive := 4\<rparr>\<rparr>)) \<and>
     (let h = NET_DVR_SetupAlarmChan_V41 sdk u (zero_setup\<lparr>setup_dwSize := 20\<rparr>) in 0 \<le> h \<and> s' = s\<lparr>lAlarmHandle := h\<rparr>)"
proof (cases "get_piccfg sdk u 1")
  case None
  with assms show ?thesis by (simp add: HikDevStartAlarm_def HikDevMotionDetectCfg_def)
next
  case (Some cfg)
  show ?thesis
  proof (cases "byEnableHandleMotion (struMotion cfg) = 0")
    case True
    with assms Some show ?thesis
      by (auto simp: HikDevStartAlarm_def HikDevMotionDetectCfg_def Let_def split: if_splits)
  next
    case False
    with assms Some show ?thesis
      by (auto simp: HikDevStartAlarm_def HikDevMotionDetectCfg_def Let_def split: if_splits)
  qed
qed

definition demo_cfg :: NET_DVR_PICCFG_V30 where
  "demo_cfg =
     (let h = \<lparr>dwHandleType = 4, byRelAlarmOut = replicate 96 0\<rparr>;
          v = \<lparr>byEnableHandleVILost = 0, strVILostHandleType = h, vilost_AlarmTime = []\<rparr>
      in \<lparr>pic_dwSize = 0, sChanName = replicate 32 0, dwVideoFormat = 2, byReservedData = replicate 64 0,
          dwShowChanName = 1, wShowNameTopLeftX = 0, wShowNameTopLeftY = 0, struVILost = v, struRes = v,
          struMotion = \<lparr>byMotionScope = [], byMotionSensitive = 0, byEnableHandleMotion = 0,
            byEnableDisplay = 1, reservedData = NUL, struMotionHandleType = h, struAlarmTime = [],
            byRelRecordChan = []\<rparr>,
          struHideAlarm = \<lparr>dwEnableHideAlarm = 0, wHideAlarmAreaTopLeftX = 0, wHideAlarmAreaTopLeftY = 0,
            wHideAlarmAreaWidth = 0, wHideAlarmAreaHeight = 0, strHideAlarmHandleType = h, hide_AlarmTime = []\<rparr>,
          dwEnableHide = 0, struShelter = [], dwShowOsd = 1, osd_bytes = []\<rparr>)"

definition demo_sdk :: hik_sdk where
  "demo_sdk = \<lparr>NET_DVR_Init_ret = True, NET_DVR_Cleanup_ret = True, NET_DVR_Login_V40 = (\<lambda>_. 3),
     get_piccfg = (\<lambda>_ _. Some demo_cfg), set_piccfg_ret = (\<lambda>_ _ _. True), set_callback_ret = True,
     NET_DVR_SetupAlarmChan_V41 = (\<lambda>u _. u + 10), close_alarm_ret = (\<lambda>_. True)\<rparr>"

theorem HikDevStartAlarm_arms_witness:
  "\<exists>cs. HikDevStartAlarm demo_sdk 3 hik_static = (True, hik_static\<lparr>lAlarmHandle := 13\<rparr>, cs) \<and>
        byEnableHandleMotion (struMotion (cfg_after 3 cs demo_cfg)) \<noteq> 0"
proof -
  obtain cs where cs: "HikDevStartAlarm demo_sdk 3 hik_static = (True, hik_static\<lparr>lAlarmHandle := 13\<rparr>, cs)"
    by (simp add: HikDevStartAlarm_def HikDevMotionDetectCfg_def demo_sdk_def Let_def demo_cfg_def)
  have "get_piccfg demo_sdk 3 1 = Some demo_cfg" by (simp add: demo_sdk_def)
  with HikDevStartAlarm_arms [OF cs] cs show ?thesis by (auto simp: Let_def)
qed

text \<open>
  All cameras share one handle: after a second camera is armed the first handle is lost, and
  \<^verbatim>\<open>HikDevStopAlarm\<close> closes the second only.
\<close>

lemma HikDevStopAlarm_last_only:
  assumes "HikDevStartAlarm sdk u s = (True, s1, cs1)" "HikDevStartAlarm sdk v s1 = (True, s2, cs2)"
  shows "snd (HikDevStopAlarm sdk s2) = [CallCloseAlarm (NET_DVR_SetupAlarmChan_V41 sdk v (zero_setup\<lparr>setup_dwSize := 20\<rparr>))]"
  using assms(2) by (auto simp: HikDevStartAlarm_def HikDevStopAlarm_def Let_def split: prod.splits if_splits)

section \<open>Addresses and alarm texts\<close>

definition mac_text :: "u8 list \<Rightarrow> string" where
  "mac_text bs = concat (map (\<lambda>b. hex02 b @ ''-'') (butlast bs)) @ hex02 (last bs)"

lemma length_hex02 [simp]: "length (hex02 b) = 2"
  by (simp add: hex02_def)

lemma list6: "length xs = 6 \<Longrightarrow> \<exists>a b c d e f. xs = [a, b, c, d, e, f]"
  by (auto simp: length_Suc_conv eval_nat_numeral)

lemma list_replace: "length a = n + m \<Longrightarrow> length w = m \<Longrightarrow> take n a @ w @ drop (n + m) a = take n a @ w"
  by simp

lemma snprintf_at_fits: "length txt < len \<Longrightarrow> off + length txt < length a \<Longrightarrow>
  snprintf_at off len txt a = Some (take off a @ txt @ NUL # drop (off + length txt + 1) a)"
  by (simp add: snprintf_at_def snprintf_str_fits Let_def)

lemma mac_room:
  assumes "length mac = 6"
  shows "(length a = 18 \<longrightarrow> (\<exists>r. HikDevMacHexToStr mac a 18 = Some r \<and> cstr r = Some (mac_text mac))) \<and>
         (length b = 13 \<longrightarrow> HikDevMacHexToStr mac b 13 = None)"
proof -
  obtain x0 x1 x2 x3 x4 x5 where m: "mac = [x0, x1, x2, x3, x4, x5]" using list6 [OF assms] by blast
  have hx: "\<exists>p q. hex02 y = [p, q] \<and> p \<noteq> NUL \<and> q \<noteq> NUL" for y
  proof -
    have "hex_char d \<noteq> NUL" if "d < 16" for d
    proof -
      have "(of_char (hex_char d) :: nat) \<noteq> 0" using that by (auto simp: hex_char_def)
      then show ?thesis by auto
    qed
    moreover have "unat y div 16 < 16" "unat y mod 16 < 16" 
      using unsigned_less [of y, where ?'a = nat] by (auto simp: less_mult_imp_div_less)
    ultimately show ?thesis by (simp add: hex02_def)
  qed
  from hx obtain p0 q0 p1 q1 p2 q2 p3 q3 p4 q4 p5 q5 where h:
    "hex02 x0 = [p0, q0]" "hex02 x1 = [p1, q1]" "hex02 x2 = [p2, q2]" "hex02 x3 = [p3, q3]"
    "hex02 x4 = [p4, q4]" "hex02 x5 = [p5, q5]"
    and n: "NUL \<notin> {p0, q0, p1, q1, p2, q2, p3, q3, p4, q4, p5, q5}"
    by (metis empty_iff insert_iff)
  have neg: "unat (- 2 :: u32) = 4294967294" by simp
  show ?thesis
  proof (intro conjI impI)
    assume "length a = 18"
    then obtain r where "HikDevMacHexToStr mac a 18 = Some (mac_text mac @ [NUL])"
      unfolding m by (auto simp: HikDevMacHexToStr_def snprintf_at_def snprintf_str_def h mac_text_def Let_def)
    moreover have "NUL \<notin> set (mac_text mac)"
      using n unfolding m by (simp add: mac_text_def h)
    ultimately show "\<exists>r. HikDevMacHexToStr mac a 18 = Some r \<and> cstr r = Some (mac_text mac)"
      by (simp add: cstr_terminated)
  next
    assume "length b = 13"
    then show "HikDevMacHexToStr mac b 13 = None"
      unfolding m by (simp add: HikDevMacHexToStr_def snprintf_at_def snprintf_str_def h Let_def neg)
  qed
qed


text \<open>
  \<^verbatim>\<open>HikDevMacHexToStr\<close> prints the six bytes in hexadecimal with dashes when the array has the 18
  bytes this takes; called with the 13-byte array and length that \<^verbatim>\<open>HikDevOutputAlarmDevInfo\<close> passes,
  it writes behind the array, because the remaining room 13 - 15 wraps to a huge unsigned number.
\<close>

lemma HikDevMacHexToStr_room:
  assumes "length mac = 6"
  shows "(length a = 18 \<longrightarrow> (\<exists>r. HikDevMacHexToStr mac a 18 = Some r \<and> cstr r = Some (mac_text mac))) \<and>
         (length b = 13 \<longrightarrow> HikDevMacHexToStr mac b 13 = None)"
  by (rule mac_room [OF assms])

lemma field_text_None: "field_text valid label v = None \<longleftrightarrow> valid \<noteq> 0 \<and> v = None"
  by (simp add: field_text_def bind_eq_None_conv)

text \<open>
  The alarm text is printed without leaving an array exactly when every name the alarm marks as
  valid is NUL-terminated and no MAC address is marked as valid: every alarm with a MAC address
  overruns the stack buffer.
\<close>

lemma HikDevOutputAlarmDevInfo_defined_iff:
  assumes "length stack = 13" "length (byMacAddr d) = 6"
  shows "HikDevOutputAlarmDevInfo stack d strOut \<noteq> None \<longleftrightarrow>
     byMacAddrValid d = 0 \<and>
     (bySerialValid d = 0 \<or> NUL \<in> set (sSerialNumber d)) \<and>
     (byDeviceNameValid d = 0 \<or> NUL \<in> set (sDeviceName d)) \<and>
     (byDeviceIPValid d = 0 \<or> NUL \<in> set (sDeviceIP d)) \<and>
     (bySocketIPValid d = 0 \<or> NUL \<in> set (sSocketIP d))"
proof -
  have mac: "HikDevMacHexToStr (byMacAddr d) stack 13 = None"
    using mac_room [OF assms(2), of "[]" stack] assms(1) by simp
  have c: "cstr x = None \<longleftrightarrow> NUL \<notin> set x" for x by (simp add: cstr_def)
  show ?thesis
    unfolding HikDevOutputAlarmDevInfo_def Let_def
    by (auto simp: bind_eq_None_conv field_text_None mac c)
qed

end
