(* ===== verification/Hik_Config.thy ===== *)
theory Hik_Config
  imports Hik_Device
begin

text \<open>
  The two configuration reports of \<^verbatim>\<open>HikDevOperate\<close> (\<^verbatim>\<open>src/src/HikDev.cpp\<close>, lines 139 to 408): what
  \<^verbatim>\<open>HikDevGetDevCfg\<close> and \<^verbatim>\<open>HikDevGetNetCfg\<close> print for the structures that the SDK returns. A byte array
  that is printed with \<^verbatim>\<open>operator<<\<close> is a C string; \<open>None\<close> is the printing of an array without NUL.
\<close>

section \<open>Structures of the SDK\<close>

record NET_DVR_DEVICECFG_V40 =
  dev_dwSize :: u32
  sDVRName :: "char list"
  dwDVRID :: u32
  dwRecycleRecord :: u32
  dev_sSerialNumber :: "char list"
  dwSoftwareVersion :: u32
  dwSoftwareBuildDate :: u32
  dwDSPSoftwareVersion :: u32
  dwDSPSoftwareBuildDate :: u32
  dwPanelVersion :: u32
  dwHardwareVersion :: u32
  byAlarmInPortNum :: u8
  byAlarmOutPortNum :: u8
  byRS232Num :: u8
  byRS485Num :: u8
  byNetworkPortNum :: u8
  byDiskCtrlNum :: u8
  byDiskNum :: u8
  byDVRType :: u8
  byChanNum :: u8
  byStartChan :: u8
  byDecordChans :: u8
  byVGANum :: u8
  byUSBNum :: u8
  byAuxoutNum :: u8
  byAudioNum :: u8
  byIPChanNum :: u8
  byZeroChanNum :: u8
  dev_bySupport :: u8
  byEsataUseage :: u8
  byIPCPlug :: u8
  byStorageMode :: u8
  bySupport1 :: u8
  wDevType :: u16
  byDevTypeName :: "char list"
  bySupport2 :: u8
  byAnalogAlarmInPortNum :: u8
  byStartAlarmInNo :: u8
  byStartAlarmOutNo :: u8
  byStartIPAlarmInNo :: u8
  byStartIPAlarmOutNo :: u8
  byHighIPChanNum :: u8
  byEnableRemotePowerOn :: u8
  wDevClass :: u16
  dev_byRes2 :: "u8 list"

record NET_DVR_IPADDR =
  sIpV4 :: "char list"
  byIPv6 :: "char list"

record NET_DVR_ETHERNET_V30 =
  struDVRIP :: NET_DVR_IPADDR
  struDVRIPMask :: NET_DVR_IPADDR
  dwNetInterface :: u32
  wDVRPort :: u16
  wMTU :: u16
  byMACAddr :: "u8 list"
  byEthernetPortNo :: u8
  eth_byRes :: "u8 list"

record NET_DVR_PPPOECFG =
  dwPPPOE :: u32
  sPPPoEUser :: "char list"
  sPPPoEPassword :: "char list"
  struPPPoEIP :: NET_DVR_IPADDR

record NET_DVR_NETCFG_V50 =
  net_dwSize :: u32
  struEtherNet :: "NET_DVR_ETHERNET_V30 list"
  struRes1 :: "NET_DVR_IPADDR list"
  struAlarmHostIpAddr :: NET_DVR_IPADDR
  net_byRes2 :: "u8 list"
  wAlarmHostIpPort :: u16
  byUseDhcp :: u8
  byIPv6Mode :: u8
  struDnsServer1IpAddr :: NET_DVR_IPADDR
  struDnsServer2IpAddr :: NET_DVR_IPADDR
  byIpResolver :: "char list"
  wIpResolverPort :: u16
  wHttpPortNo :: u16
  struMulticastIpAddr :: NET_DVR_IPADDR
  struGatewayIpAddr :: NET_DVR_IPADDR
  struPPPoE :: NET_DVR_PPPOECFG
  byEnablePrivateMulticastDiscovery :: u8
  byEnableOnvifMulticastDiscovery :: u8
  wAlarmHost2IpPort :: u16
  struAlarmHost2IpAddr :: NET_DVR_IPADDR
  byEnableDNS :: u8
  net_byRes :: "u8 list"

section \<open>Fields as text\<close>

definition say :: "string \<Rightarrow> string \<Rightarrow> string" where
  "say label v = label @ v @ newline"

definition num8 :: "u8 \<Rightarrow> string" where "num8 b = dec (unat b)"
definition num16 :: "u16 \<Rightarrow> string" where "num16 w = dec (unat w)"
definition num32 :: "u32 \<Rightarrow> string" where "num32 w = dec (unat w)"

text \<open>A version: \<^verbatim>\<open>HighVer\<close> and \<^verbatim>\<open>LowVer\<close>; a build date: \<^verbatim>\<open>year\<close>, \<^verbatim>\<open>month\<close> and \<^verbatim>\<open>day\<close>.\<close>

definition version_text :: "u32 \<Rightarrow> string" where
  "version_text v = num32 (drop_bit 16 v) @ ''.'' @ num32 (v AND 0x0000ffff)"

definition software_version_text :: "u32 \<Rightarrow> string" where
  "software_version_text v = num32 (drop_bit 16 (v AND 0xffff0000)) @ ''.'' @ num32 (v AND 0x0000ffff)"

definition date_text :: "u32 \<Rightarrow> string" where
  "date_text d = num32 (drop_bit 16 d) @ ''.'' @ num32 (drop_bit 8 (d AND 0x0000ff00)) @ ''.'' @ num32 (d AND 0x000000ff)"

definition yes_no :: "u8 \<Rightarrow> string" where
  "yes_no b = (if b = 0 then ''no'' else ''yes'')"

definition ip_channels :: "NET_DVR_DEVICECFG_V40 \<Rightarrow> u32" where
  "ip_channels c = push_bit 8 (ucast (byHighIPChanNum c)) OR ucast (byIPChanNum c)"

section \<open>The device report\<close>

definition device_counts :: "NET_DVR_DEVICECFG_V40 \<Rightarrow> string" where
  "device_counts c =
     say ''alarm in port number : '' (num8 (byAlarmInPortNum c)) @
     say ''alarm out port number : '' (num8 (byAlarmOutPortNum c)) @
     say ''analog alarm inpot number : '' (num8 (byAnalogAlarmInPortNum c)) @
     say ''analog start alarm in port number : '' (num8 (byStartAlarmInNo c)) @
     say ''analog start alarm out port number : '' (num8 (byStartAlarmOutNo c)) @
     say ''IP start alarm in port number : '' (num8 (byStartIPAlarmInNo c)) @
     say ''IP start alarm out port number : '' (num8 (byStartIPAlarmOutNo c)) @
     say ''rs232 number : '' (num8 (byRS232Num c)) @
     say ''rs485 number : '' (num8 (byRS485Num c)) @
     say ''net port number : '' (num8 (byNetworkPortNum c)) @
     say ''disk ctrl number : '' (num8 (byDiskCtrlNum c)) @
     say ''disk number : '' (num8 (byDiskNum c)) @
     say ''channel number : '' (num8 (byChanNum c)) @
     say ''start channel number : '' (num8 (byStartChan c)) @
     say ''decord chaanel number : '' (num8 (byDecordChans c)) @
     say ''VGA port number : '' (num8 (byVGANum c)) @
     say ''usb port number : '' (num8 (byUSBNum c)) @
     say ''aux out port number : '' (num8 (byAuxoutNum c)) @
     say ''audio port number : '' (num8 (byAudioNum c)) @
     say ''ip channel number : '' (num32 (ip_channels c)) @
     say ''zero channel number : '' (num8 (byZeroChanNum c))"

definition device_support :: "NET_DVR_DEVICECFG_V40 \<Rightarrow> string" where
  "device_support c =
     say ''Support Intelligent Search : '' (yes_no (dev_bySupport c AND 1)) @
     say ''Support Backup : '' (yes_no (dev_bySupport c AND 2)) @
     say ''Support Compress Ability Get : '' (yes_no (dev_bySupport c AND 4)) @
     say ''Support Double NetCard : '' (yes_no (dev_bySupport c AND 8)) @
     say ''Support Remote SADP : '' (yes_no (dev_bySupport c AND 0x10)) @
     say ''Support RaidCard Func : '' (yes_no (dev_bySupport c AND 0x20)) @
     say ''Support IPSAN Search : '' (yes_no (dev_bySupport c AND 0x40)) @
     say ''Support RTP Over RTSP : '' (yes_no (dev_bySupport c AND 0x80)) @
     say ''Support SNMP V30 : '' (yes_no (bySupport1 c AND 1)) @
     say ''Support Playback Download : '' (yes_no (bySupport1 c AND 2)) @
     say ''Support Expand OSD : '' (yes_no (bySupport2 c AND 1)) @
     say ''esata useage : '' (if byEsataUseage c = 0 then ''backup'' else ''record'') @
     say ''ipc plug : '' (if byIPCPlug c = 0 then ''close'' else ''open'') @
     say ''storage mode : '' (num8 (byStorageMode c)) @
     say ''remote power on : '' (enable_text (byEnableRemotePowerOn c))"

definition device_report :: "NET_DVR_DEVICECFG_V40 \<Rightarrow> string option" where
  "device_report c =
     do {
       name \<leftarrow> cstr (sDVRName c);
       type_name \<leftarrow> cstr (byDevTypeName c);
       serial \<leftarrow> cstr (dev_sSerialNumber c);
       Some (
         say ''structrue size : '' (num32 (dev_dwSize c)) @
         say ''device name : '' name @
         say ''device id : '' (num32 (dwDVRID c)) @
         say ''dvr type : '' (num8 (byDVRType c)) @
         say ''device type : '' (num16 (wDevType c)) @
         say ''device type name : '' type_name @
         say ''record cycle or not : '' (if dwRecycleRecord c = 0 then ''false'' else ''true'') @
         say ''device serial number : '' serial @
         say ''device software version : '' (software_version_text (dwSoftwareVersion c)) @
         say ''device software build date : '' (date_text (dwSoftwareBuildDate c)) @
         say ''dsp software version : '' (version_text (dwDSPSoftwareVersion c)) @
         say ''dsp software build date : '' (date_text (dwDSPSoftwareBuildDate c)) @
         say ''panel version : '' (version_text (dwPanelVersion c)) @
         say ''hardware version : '' (version_text (dwHardwareVersion c)) @
         device_counts c @ device_support c)
     }"

text \<open>
  \<^verbatim>\<open>HikDevGetDevCfg\<close>: the argument is what \<^verbatim>\<open>NET_DVR_GetDVRConfig\<close> returns for each user id; the
  result is the return value and the text printed.
\<close>

definition HikDevGetDevCfg :: "(int \<Rightarrow> NET_DVR_DEVICECFG_V40 option) \<Rightarrow> int \<Rightarrow> (bool \<times> string) option" where
  "HikDevGetDevCfg get_cfg UserId =
     (case get_cfg UserId of
        None \<Rightarrow> Some (False, [])
      | Some DevCfg \<Rightarrow> do { txt \<leftarrow> device_report DevCfg; Some (True, txt) })"

section \<open>The network report\<close>

definition interface_text :: "u32 \<Rightarrow> string" where
  "interface_text n =
     (if n = 1 then ''10MBase-T''
      else if n = 2 then ''10MBase-T Full Duplex''
      else if n = 3 then ''100MBase-TX''
      else if n = 4 then ''100M Full Duplex''
      else if n = 5 then ''10M/100M/1000M Self-adaption''
      else if n = 6 then ''1000M Full Duplex''
      else ''Invalid'')"

fun mac_print :: "u8 list \<Rightarrow> string" where
  "mac_print [] = []"
| "mac_print [b] = hex02 b"
| "mac_print (b # bs) = hex02 b @ ''-'' @ mac_print bs"

definition ethernet_report :: "nat \<Rightarrow> NET_DVR_ETHERNET_V30 \<Rightarrow> string option" where
  "ethernet_report i e =
     do {
       ip4 \<leftarrow> cstr (sIpV4 (struDVRIP e));
       ip6 \<leftarrow> cstr (byIPv6 (struDVRIP e));
       mask4 \<leftarrow> cstr (sIpV4 (struDVRIPMask e));
       mask6 \<leftarrow> cstr (byIPv6 (struDVRIPMask e));
       Some (
         say (''ethernet '' @ dec i) '' cfg : {'' @
         say ''ipv4 : '' ip4 @ say ''ipv6 : '' ip6 @ say ''ipv4 mask : '' mask4 @ say ''ipv6 mask : '' mask6 @
         say ''net interface : '' (interface_text (dwNetInterface e)) @
         say ''dvr port : '' (num16 (wDVRPort e)) @
         say ''MTU : '' (num16 (wMTU e)) @
         say ''mac addr : '' (mac_print (take 6 (byMACAddr e))) @
         say ''ethernet port No. : '' (if byEthernetPortNo e = 0 then ''invalid''
           else dec_int (int (unat (byEthernetPortNo e)) - 1)) @
         say ''}'' [])
     }"

fun ethernets_report :: "nat \<Rightarrow> NET_DVR_ETHERNET_V30 list \<Rightarrow> string option" where
  "ethernets_report i [] = Some []"
| "ethernets_report i (e # es) =
     do { t \<leftarrow> ethernet_report i e; ts \<leftarrow> ethernets_report (i + 1) es; Some (t @ ts) }"

definition ip_pair :: "string \<Rightarrow> string \<Rightarrow> NET_DVR_IPADDR \<Rightarrow> string option" where
  "ip_pair l4 l6 a =
     do { v4 \<leftarrow> cstr (sIpV4 a); v6 \<leftarrow> cstr (byIPv6 a); Some (say l4 v4 @ say l6 v6) }"

definition dhcp_text :: "u8 \<Rightarrow> string" where
  "dhcp_text b = (if b = 0 then ''disable'' else if b = 1 then ''enable'' else ''invalide'')"

definition ipv6_mode_text :: "u8 \<Rightarrow> string" where
  "ipv6_mode_text b =
     (if b = 0 then ''router advertise'' else if b = 1 then ''manual setting''
      else if b = 2 then ''using dhcp'' else ''invalid'')"

text \<open>The two discovery switches: for any other value nothing, not even a line end, is printed.\<close>

definition discovery_text :: "u8 \<Rightarrow> string" where
  "discovery_text b =
     (if b = 0 then ''default'' @ newline else if b = 1 then ''disable'' @ newline
      else if b = 2 then ''enable'' @ newline else [])"

definition network_report :: "NET_DVR_NETCFG_V50 \<Rightarrow> string option" where
  "network_report c =
     do {
       eths \<leftarrow> ethernets_report 0 (take 2 (struEtherNet c));
       host1 \<leftarrow> ip_pair ''alarm host ip addr v4 : '' ''alarm host ip addr v6 : '' (struAlarmHostIpAddr c);
       host2 \<leftarrow> ip_pair ''alarm host2 ip addr v4 : '' ''alarm host2 ip addr v6 : '' (struAlarmHost2IpAddr c);
       dns1 \<leftarrow> ip_pair ''dns server1 ip addr v4 : '' ''dns server1 ip addr v6 : '' (struDnsServer1IpAddr c);
       dns2 \<leftarrow> ip_pair ''dns server2 ip addr v4 : '' ''dns server2 ip addr v6 : '' (struDnsServer2IpAddr c);
       resolver \<leftarrow> cstr (byIpResolver c);
       multicast \<leftarrow> ip_pair ''multicast ipv4 : '' ''multicast ipv6 : '' (struMulticastIpAddr c);
       gateway \<leftarrow> ip_pair ''gateway ipv4 : '' ''gateway ipv6 : '' (struGatewayIpAddr c);
       ppp_user \<leftarrow> cstr (sPPPoEUser (struPPPoE c));
       ppp_pass \<leftarrow> cstr (sPPPoEPassword (struPPPoE c));
       ppp_ip \<leftarrow> ip_pair ''PPPoE ipv4 : '' ''PPPoE ipv6 : '' (struPPPoEIP (struPPPoE c));
       Some (
         say ''structure size : '' (num32 (net_dwSize c)) @ eths @
         host1 @ say ''alarm host ip port : '' (num16 (wAlarmHostIpPort c)) @
         host2 @ say ''alarm host2 ip port : '' (num16 (wAlarmHost2IpPort c)) @
         say ''use dhcp : '' (dhcp_text (byUseDhcp c)) @
         say ''ipv6 mode : '' (ipv6_mode_text (byIPv6Mode c)) @
         dns1 @ dns2 @
         say ''dns mode : '' (if byEnableDNS c = 0 then ''automatic getting'' else ''manual setting'') @
         say ''ip resolver : '' resolver @
         say ''ip resolver port : '' (num16 (wIpResolverPort c)) @
         say ''http port : '' (num16 (wHttpPortNo c)) @
         multicast @ gateway @
         say ''PPPoE : '' (if dwPPPOE (struPPPoE c) = 0 then ''disable'' else ''enable'') @
         say ''PPPoE user name : '' ppp_user @ say ''PPPoE pass word : '' ppp_pass @ ppp_ip @
         ''private multicast discovery : '' @ discovery_text (byEnablePrivateMulticastDiscovery c) @
         ''onvif multicast discovery : '' @ discovery_text (byEnableOnvifMulticastDiscovery c))
     }"

definition HikDevGetNetCfg :: "(int \<Rightarrow> NET_DVR_NETCFG_V50 option) \<Rightarrow> int \<Rightarrow> (bool \<times> string) option" where
  "HikDevGetNetCfg get_cfg UserId =
     (case get_cfg UserId of
        None \<Rightarrow> Some (False, [])
      | Some struNetCfg \<Rightarrow> do { txt \<leftarrow> network_report struNetCfg; Some (True, txt) })"

section \<open>What the fields say\<close>

lemma and_mask32: "v AND mask n = take_bit n (v :: u32)"
  by (simp add: take_bit_eq_mask)

lemma unat_take32: "unat (take_bit n v :: u32) = unat v mod 2 ^ n"
  unfolding unsigned_take_bit_eq by (simp add: take_bit_eq_mod)

lemma unat_drop32: "unat (drop_bit n v :: u32) = unat v div 2 ^ n"
  unfolding unat_drop_bit_eq by (simp add: drop_bit_eq_div)

lemma and_ffff: "unat (v AND 0x0000ffff :: u32) = unat v mod 65536"
  using and_mask32 [of v 16] unat_take32 [of 16 v] by (simp add: mask_eq_exp_minus_1)

lemma and_ff: "unat (v AND 0x000000ff :: u32) = unat v mod 256"
  using and_mask32 [of v 8] unat_take32 [of 8 v] by (simp add: mask_eq_exp_minus_1)

lemma high_masked: "drop_bit 16 (v AND 0xffff0000) = drop_bit 16 (v :: u32)"
proof -
  have "drop_bit 16 (0xffff0000 :: u32) = mask 16" by (simp add: mask_eq_exp_minus_1)
  moreover have "drop_bit 16 v AND mask 16 = drop_bit 16 v"
    unfolding and_mask32 by (rule bit_word_eqI) (auto simp: bit_simps dest: bit_imp_le_length)
  ultimately show ?thesis by (simp only: drop_bit_and)
qed

lemma month_masked: "unat (drop_bit 8 (v AND 0x0000ff00 :: u32)) = unat v div 256 mod 256"
proof -
  have "drop_bit 8 (0x0000ff00 :: u32) = mask 8" by (simp add: mask_eq_exp_minus_1)
  then have "drop_bit 8 (v AND 0x0000ff00) = take_bit 8 (drop_bit 8 v)"
    by (simp only: drop_bit_and and_mask32)
  then show ?thesis using unat_take32 [of 8 "drop_bit 8 v"] unat_drop32 [of 8 v] by simp
qed

lemma unat_ip_channels: "unat (ip_channels c) = 256 * unat (byHighIPChanNum c) + unat (byIPChanNum c)"
proof -
  let ?h = "unat (byHighIPChanNum c)" and ?l = "unat (byIPChanNum c)"
  have lt: "?h < 256" "?l < 256"
    using unsigned_less [of "byHighIPChanNum c", where ?'a = nat] unsigned_less [of "byIPChanNum c", where ?'a = nat]
    by simp_all
  have "ip_channels c = word_of_nat (push_bit 8 ?h OR ?l)"
    by (simp only: ip_channels_def of_nat_or_eq of_nat_push_bit of_nat_unat)
  also have "push_bit 8 ?h OR ?l = 256 * ?h + ?l"
    using lt or_disjoint_nat [of ?l 8 ?h] by simp
  finally have e: "ip_channels c = word_of_nat (256 * ?h + ?l)" .
  have "256 * ?h + ?l < 2 ^ 32" using lt by simp
  then have "unat (word_of_nat (256 * ?h + ?l) :: u32) = 256 * ?h + ?l"
    unfolding unat_of_nat by (simp add: take_bit_nat_eq_self)
  then show ?thesis unfolding e .
qed

lemma no_dot_dec: "CHR ''.'' \<notin> set (dec n)"
proof
  assume "CHR ''.'' \<in> set (dec n)"
  then have "is_digit CHR ''.''" by (rule dec_digits)
  then show False by (simp add: is_digit_def of_char_def)
qed

lemma append_sep_inject:
  "c \<notin> set a \<Longrightarrow> c \<notin> set a' \<Longrightarrow> a @ c # b = a' @ c # b' \<Longrightarrow> a = a' \<and> b = b'"
proof (induction a arbitrary: a')
  case Nil
  then show ?case by (cases a') auto
next
  case (Cons x a)
  then show ?case by (cases a') auto
qed

lemma version_text_nat: "version_text v = dec (unat v div 65536) @ ''.'' @ dec (unat v mod 65536)"
  unfolding version_text_def num32_def using unat_drop32 [of 16 v] and_ffff [of v] by simp

text \<open>
  The numbers of the device report are the fields of the packed words: a version is its high and low
  half, a date its year, month and day bytes, the channel count both bytes of the count; and a printed
  version determines the version word, so two different versions never print alike.
\<close>

lemma report_numbers:
  "version_text v = dec (unat v div 65536) @ ''.'' @ dec (unat v mod 65536) \<and>
   software_version_text v = version_text v \<and>
   date_text v = dec (unat v div 65536) @ ''.'' @ dec (unat v div 256 mod 256) @ ''.'' @ dec (unat v mod 256) \<and>
   unat (ip_channels c) = 256 * unat (byHighIPChanNum c) + unat (byIPChanNum c) \<and>
   (version_text v = version_text w \<longleftrightarrow> v = w)"
proof -
  have inj: "version_text v = version_text w \<Longrightarrow> v = w"
  proof -
    assume "version_text v = version_text w"
    then have "dec (unat v div 65536) = dec (unat w div 65536) \<and> dec (unat v mod 65536) = dec (unat w mod 65536)"
      unfolding version_text_nat by (intro append_sep_inject [of "CHR ''.''"]) (simp_all add: no_dot_dec)
    then have "unat v = unat w" by (metis dec_inject div_mult_mod_eq)
    then show "v = w" by (simp add: word_unat_eq_iff)
  qed
  have "software_version_text v = version_text v"
    by (simp add: software_version_text_def version_text_def high_masked del: drop_bit_and)
  moreover have "date_text v = dec (unat v div 65536) @ ''.'' @ dec (unat v div 256 mod 256) @ ''.'' @ dec (unat v mod 256)"
    unfolding date_text_def num32_def using unat_drop32 [of 16 v] month_masked [of v] and_ff [of v] by simp
  ultimately show ?thesis using inj version_text_nat unat_ip_channels by blast
qed

text \<open>
  The header of the SDK documents the build date as \<^verbatim>\<open>0xYYYYMMDD\<close> and the discovery switches as 1 for
  enabled and 2 for disabled; the reports print such a date in decimal halves and the switches the other
  way round.
\<close>

lemma date_text_example: "date_text 0x20190512 = ''8217.5.18''"
  by (simp add: date_text_def num32_def dec.simps digit_char_def char_of_def bit_Suc_0_iff)

lemma discovery_text_reversed: "discovery_text 1 = ''disable'' @ newline \<and> discovery_text 2 = ''enable'' @ newline"
  by (simp add: discovery_text_def)

text \<open>A report is printed exactly when every array it prints holds a NUL byte.\<close>

lemma cstr_None: "cstr a = None \<longleftrightarrow> NUL \<notin> set a"
  by (simp add: cstr_def)

lemma device_report_defined:
  "device_report c \<noteq> None \<longleftrightarrow>
   NUL \<in> set (sDVRName c) \<and> NUL \<in> set (byDevTypeName c) \<and> NUL \<in> set (dev_sSerialNumber c)"
  unfolding device_report_def by (auto simp: bind_eq_None_conv cstr_None)

lemma ip_pair_defined: "ip_pair a b x \<noteq> None \<longleftrightarrow> NUL \<in> set (sIpV4 x) \<and> NUL \<in> set (byIPv6 x)"
  unfolding ip_pair_def by (auto simp: bind_eq_None_conv cstr_None)

lemma HikDevGetDevCfg_result:
  "HikDevGetDevCfg get_cfg u = Some (r, txt) \<Longrightarrow> r = (get_cfg u \<noteq> None) \<and> (\<not> r \<longrightarrow> txt = [])"
  by (auto simp: HikDevGetDevCfg_def bind_eq_Some_conv split: option.splits)

end
