(* ===== verification/Csv_Error.thy ===== *)
theory Csv_Error
  imports Prelude
begin

text \<open>
  The error classes of \<^verbatim>\<open>src/src/csv.h\<close> (lines 58 to 153 and 569 to 760). A class is a constructor of
  \<open>error_kind\<close>; the members that its bases \<^verbatim>\<open>with_file_name\<close>, \<^verbatim>\<open>with_file_line\<close>, \<^verbatim>\<open>with_errno\<close>,
  \<^verbatim>\<open>with_column_name\<close> and \<^verbatim>\<open>with_column_content\<close> add are fields of one record, and the predicates
  \<open>has_file_line\<close> and so on say which class has which base, which decides what a \<^verbatim>\<open>catch\<close> clause
  catches.

  A computation that may throw or leave an array returns a \<open>'a res\<close>: \<open>None\<close> is an access outside an
  array, \<open>Inl\<close> an exception, \<open>Inr\<close> a result.
\<close>

section \<open>Error objects\<close>

definition max_file_name_length :: nat where "max_file_name_length = 255"
definition max_column_name_length :: nat where "max_column_name_length = 63"
definition max_column_content_length :: nat where "max_column_content_length = 63"

datatype error_kind =
    can_not_open_file
  | line_length_limit_exceeded
  | extra_column_in_header
  | missing_column_in_header
  | duplicated_column_in_header
  | header_missing
  | too_few_columns
  | too_many_columns
  | escaped_string_not_closed
  | integer_must_be_positive
  | no_digit
  | integer_overflow
  | integer_underflow
  | invalid_single_character

record csv_error =
  kind :: error_kind
  err_file_name :: "char list"
  err_file_line :: int
  errno_value :: int
  err_column_name :: "char list"
  err_column_content :: "char list"

text \<open>Every class has a file name; the other bases:\<close>

definition has_errno :: "error_kind \<Rightarrow> bool" where
  "has_errno k \<longleftrightarrow> k = can_not_open_file"

definition has_file_line :: "error_kind \<Rightarrow> bool" where
  "has_file_line k \<longleftrightarrow> k \<in> {line_length_limit_exceeded, too_few_columns, too_many_columns,
     escaped_string_not_closed, integer_must_be_positive, no_digit, integer_overflow, integer_underflow,
     invalid_single_character}"

definition has_column_content :: "error_kind \<Rightarrow> bool" where
  "has_column_content k \<longleftrightarrow> k \<in> {integer_must_be_positive, no_digit, integer_overflow, integer_underflow,
     invalid_single_character}"

definition has_column_name :: "error_kind \<Rightarrow> bool" where
  "has_column_name k \<longleftrightarrow> has_column_content k \<or>
     k \<in> {extra_column_in_header, missing_column_in_header, duplicated_column_in_header}"

text \<open>The object that the default constructor makes: cleared arrays, line -1, errno 0.\<close>

definition new_error :: "error_kind \<Rightarrow> csv_error" where
  "new_error k = \<lparr>kind = k, err_file_name = replicate (max_file_name_length + 1) NUL, err_file_line = -1,
     errno_value = 0, err_column_name = replicate (max_column_name_length + 1) NUL,
     err_column_content = replicate (max_column_content_length + 1) NUL\<rparr>"

text \<open>
  \<^verbatim>\<open>strncpy(dst, src, n)\<close>: \<open>n\<close> bytes, the string cut or padded with NUL; then the last byte of the
  array is cleared.
\<close>

definition strncpy :: "char list \<Rightarrow> string \<Rightarrow> nat \<Rightarrow> char list" where
  "strncpy dst src n = take n src @ replicate (n - length src) NUL @ drop n dst"

definition set_file_name :: "string option \<Rightarrow> char list \<Rightarrow> char list" where
  "set_file_name name a =
     (case name of
        Some s \<Rightarrow> (strncpy a s (max_file_name_length + 1))[max_file_name_length := NUL]
      | None \<Rightarrow> a[0 := NUL])"

definition set_column_name :: "string option \<Rightarrow> char list \<Rightarrow> char list" where
  "set_column_name name a =
     (case name of
        Some s \<Rightarrow> (strncpy a s max_column_name_length)[max_column_name_length := NUL]
      | None \<Rightarrow> a[0 := NUL])"

definition set_column_content :: "string option \<Rightarrow> char list \<Rightarrow> char list" where
  "set_column_content name a =
     (case name of
        Some s \<Rightarrow> (strncpy a s max_column_content_length)[max_column_content_length := NUL]
      | None \<Rightarrow> a[0 := NUL])"

definition set_file_line :: "int \<Rightarrow> csv_error \<Rightarrow> csv_error" where
  "set_file_line n e = e\<lparr>err_file_line := n\<rparr>"

definition set_errno :: "int \<Rightarrow> csv_error \<Rightarrow> csv_error" where
  "set_errno n e = e\<lparr>errno_value := n\<rparr>"

section \<open>Messages\<close>

abbreviation quoted :: "string \<Rightarrow> string" where
  "quoted s \<equiv> [CHR 0x22] @ s @ [CHR 0x22]"

text \<open>The text of each class before it is cut to the buffer; \<open>strerror\<close> is the text of an errno value.\<close>

definition number_message :: "string \<Rightarrow> string \<Rightarrow> string \<Rightarrow> string \<Rightarrow> string \<Rightarrow> string \<Rightarrow> string" where
  "number_message pre mid f l c v =
     pre @ quoted v @ mid @ quoted c @ '' in file '' @ quoted f @ '' in line '' @ quoted l @ ''.''"

fun message :: "(int \<Rightarrow> string) \<Rightarrow> error_kind \<Rightarrow> string \<Rightarrow> int \<Rightarrow> int \<Rightarrow> string \<Rightarrow> string \<Rightarrow> string" where
  "message strerror can_not_open_file f n en c v =
     (if en \<noteq> 0 then ''Can not open file '' @ quoted f @ '' because '' @ quoted (strerror en) @ ''.''
      else ''Can not open file '' @ quoted f @ ''.'')"
| "message strerror line_length_limit_exceeded f n en c v =
     ''Line number '' @ dec_int n @ '' in file '' @ quoted f @ '' exceeds the maximum length of 2^24-1.''"
| "message strerror extra_column_in_header f n en c v =
     ''Extra column '' @ quoted c @ '' in header of file '' @ quoted f @ ''.''"
| "message strerror missing_column_in_header f n en c v =
     ''Missing column '' @ quoted c @ '' in header of file '' @ quoted f @ ''.''"
| "message strerror duplicated_column_in_header f n en c v =
     ''Duplicated column '' @ quoted c @ '' in header of file '' @ quoted f @ ''.''"
| "message strerror header_missing f n en c v = ''Header missing in file '' @ quoted f @ ''.''"
| "message strerror too_few_columns f n en c v =
     ''Too few columns in line '' @ dec_int n @ '' in file '' @ quoted f @ ''.''"
| "message strerror too_many_columns f n en c v =
     ''Too many columns in line '' @ dec_int n @ '' in file '' @ quoted f @ ''.''"
| "message strerror escaped_string_not_closed f n en c v =
     ''Escaped string was not closed in line '' @ dec_int n @ '' in file '' @ quoted f @ ''.''"
| "message strerror integer_must_be_positive f n en c v =
     number_message ''The integer '' '' must be positive or 0 in column '' f (dec_int n) c v"
| "message strerror no_digit f n en c v =
     number_message ''The integer '' '' contains an invalid digit in column '' f (dec_int n) c v"
| "message strerror integer_overflow f n en c v =
     number_message ''The integer '' '' overflows in column '' f (dec_int n) c v"
| "message strerror integer_underflow f n en c v =
     number_message ''The integer '' '' underflows in column '' f (dec_int n) c v"
| "message strerror invalid_single_character f n en c v =
     ''The content '' @ quoted v @ '' of column '' @ quoted c @ '' in file '' @ quoted f @ '' in line '' @
     quoted (dec_int n) @ '' is not a single character.''"

text \<open>\<^verbatim>\<open>what()\<close>: the message formatted into the 512-byte buffer; \<open>None\<close> when a name array has no NUL.\<close>

definition what :: "(int \<Rightarrow> string) \<Rightarrow> csv_error \<Rightarrow> string option" where
  "what strerror e =
     (case (cstr (err_file_name e), cstr (err_column_name e), cstr (err_column_content e)) of
        (Some f, Some c, Some v) \<Rightarrow>
          Some (snprintf_str 512 (message strerror (kind e) f (err_file_line e) (errno_value e) c v))
      | _ \<Rightarrow> None)"

section \<open>Results\<close>

type_synonym 'a res = "(csv_error + 'a) option"

definition ret :: "'a \<Rightarrow> 'a res" where "ret x = Some (Inr x)"
definition throw :: "csv_error \<Rightarrow> 'a res" where "throw e = Some (Inl e)"

definition res_bind :: "'a res \<Rightarrow> ('a \<Rightarrow> 'b res) \<Rightarrow> 'b res" where
  "res_bind r f = (case r of None \<Rightarrow> None | Some (Inl e) \<Rightarrow> Some (Inl e) | Some (Inr x) \<Rightarrow> f x)"

text \<open>A \<^verbatim>\<open>catch\<close> clause that updates the object and throws it again.\<close>

definition rethrow :: "(error_kind \<Rightarrow> bool) \<Rightarrow> (csv_error \<Rightarrow> csv_error) \<Rightarrow> 'a res \<Rightarrow> 'a res" where
  "rethrow base upd r =
     (case r of Some (Inl e) \<Rightarrow> Some (Inl (if base (kind e) then upd e else e)) | _ \<Rightarrow> r)"

lemma res_bind_simps [simp]:
  "res_bind (ret x) f = f x" "res_bind (throw e) f = throw e" "res_bind None f = None"
  by (simp_all add: res_bind_def ret_def throw_def)

lemma ret_throw_simps [simp]:
  "ret x = ret y \<longleftrightarrow> x = y" "throw e = throw e' \<longleftrightarrow> e = e'" "ret x \<noteq> throw e" "throw e \<noteq> ret x"
  "ret x \<noteq> None" "throw e \<noteq> None" "None \<noteq> ret x" "None \<noteq> throw e"
  by (simp_all add: ret_def throw_def)

lemma rethrow_simps [simp]:
  "rethrow b u (ret x) = ret x" "rethrow b u None = None"
  "rethrow b u (throw e) = throw (if b (kind e) then u e else e)"
  by (simp_all add: rethrow_def ret_def throw_def)

lemma res_cases:
  obtains (fault) "r = None" | (exn) e where "r = throw e" | (ok) x where "r = ret x"
  unfolding ret_def throw_def by (cases r) (auto, metis sum.exhaust)

section \<open>Names and messages are bounded\<close>

lemma cstr_nth:
  assumes "k < length x" "x ! k = NUL" "\<And>i. i < k \<Longrightarrow> x ! i \<noteq> NUL"
  shows "cstr x = Some (take k x)"
proof -
  have "x = take k x @ NUL # drop (Suc k) x"
    using id_take_nth_drop [OF assms(1)] assms(2) by simp
  moreover have "NUL \<notin> set (take k x)"
    using assms(1,3) by (auto simp: in_set_conv_nth)
  ultimately show ?thesis by (metis cstr_terminated)
qed

lemma strncpy_nth: "i < m \<Longrightarrow> m \<le> length a \<Longrightarrow> strncpy a s m ! i = (if i < length s then s ! i else NUL)"
  by (auto simp: strncpy_def nth_append)

lemma length_strncpy: "m \<le> length a \<Longrightarrow> length (strncpy a s m) = length a"
  by (auto simp: strncpy_def)

lemma copied_cstr:
  assumes "NUL \<notin> set s" "n < length a" "n \<le> m" "m \<le> length a"
  shows "cstr ((strncpy a s m)[n := NUL]) = Some (take n s)"
proof -
  let ?x = "(strncpy a s m)[n := NUL]" and ?k = "min n (length s)"
  have len: "length ?x = length a" by (simp add: length_strncpy [OF assms(4)])
  have lt: "?x ! i = s ! i" if "i < ?k" for i
    using that assms(3,4) by (simp add: strncpy_nth)
  have "?x ! ?k = NUL"
  proof (cases "n \<le> length s")
    case True
    then show ?thesis using assms(2) len by (simp add: min_def length_strncpy [OF assms(4)])
  next
    case False
    then show ?thesis using assms(3,4) by (simp add: min_def strncpy_nth)
  qed
  moreover have "?x ! i \<noteq> NUL" if "i < ?k" for i
    using lt [OF that] that assms(1) by (metis min_less_iff_conj nth_mem)
  moreover have "?k < length ?x" using len assms(2) by simp
  ultimately have "cstr ?x = Some (take ?k ?x)" by (intro cstr_nth)
  moreover have "take ?k ?x = take n s"
    using lt len assms(2) by (intro nth_equalityI) auto
  ultimately show ?thesis by simp
qed

lemma set_file_name_cstr: "length a = 256 \<Longrightarrow> NUL \<notin> set s \<Longrightarrow>
  cstr (set_file_name (Some s) a) = Some (take 255 s) \<and> length (set_file_name (Some s) a) = 256"
  by (simp add: set_file_name_def max_file_name_length_def copied_cstr length_strncpy)

lemma set_column_name_cstr: "length a = 64 \<Longrightarrow> NUL \<notin> set s \<Longrightarrow>
  cstr (set_column_name (Some s) a) = Some (take 63 s) \<and> length (set_column_name (Some s) a) = 64"
  by (simp add: set_column_name_def max_column_name_length_def copied_cstr length_strncpy)

lemma set_column_content_cstr: "length a = 64 \<Longrightarrow> NUL \<notin> set s \<Longrightarrow>
  cstr (set_column_content (Some s) a) = Some (take 63 s) \<and> length (set_column_content (Some s) a) = 64"
  by (simp add: set_column_content_def max_column_content_length_def copied_cstr length_strncpy)

lemma length_dec_int:
  assumes "- (2 ^ 31) \<le> n" "n < 2 ^ 31"
  shows "length (dec_int n) \<le> 11"
proof -
  have "length (dec (nat \<bar>n\<bar>)) \<le> 10"
    using assms by (intro length_dec_le) (auto simp: nat_less_iff abs_if)
  then show ?thesis by (auto simp: dec_int_def abs_if split: if_splits)
qed

lemma length_message:
  assumes "length f \<le> 255" "length c \<le> 63" "length v \<le> 63" "length (dec_int n) \<le> 11"
    and "length (strerror en) \<le> 200"
  shows "length (message strerror k f n en c v) < 512"
  using assms by (cases k) (simp_all add: number_message_def)

text \<open>
  An error object whose arrays hold C strings always has a message of fewer than 512 bytes, so
  \<^verbatim>\<open>what()\<close> never cuts one, as long as the system's error text has at most 200 characters and the line
  number is an \<^verbatim>\<open>int\<close>.
\<close>

lemma what_never_truncated:
  assumes "length (err_file_name e) = 256" "length (err_column_name e) = 64" "length (err_column_content e) = 64"
    and "cstr (err_file_name e) = Some f" "cstr (err_column_name e) = Some c" "cstr (err_column_content e) = Some v"
    and "- (2 ^ 31) \<le> err_file_line e" "err_file_line e < 2 ^ 31" "length (strerror (errno_value e)) \<le> 200"
  shows "what strerror e = Some (message strerror (kind e) f (err_file_line e) (errno_value e) c v)"
proof -
  have "length f \<le> 255" "length c \<le> 63" "length v \<le> 63"
    using cstr_length [OF assms(4)] cstr_length [OF assms(5)] cstr_length [OF assms(6)] assms(1-3) by simp_all
  with assms show ?thesis
    by (simp add: what_def snprintf_str_fits length_message length_dec_int)
qed

end
