(* ===== verification/Csv_Line_Reader.thy ===== *)
theory Csv_Line_Reader
  imports Csv_Error
begin

text \<open>
  Byte sources and the line reader of \<^verbatim>\<open>src/src/csv.h\<close> (lines 155 to 563).

  A source is the list of the bytes that remain to be read; the locale \<open>byte_source\<close> is what a class
  derived from \<^verbatim>\<open>ByteSourceBase\<close> promises, and the three classes of the header are interpretations of
  it. \<^verbatim>\<open>LineReader\<close> keeps three blocks of \<open>B\<close> bytes (\<^verbatim>\<open>block_len\<close>, \<open>2 ^ 20\<close> in the header, is an argument so
  that small instances evaluate); a pointer into the buffer is an index.

  The reader that fills the third block is the asynchronous one: its worker ends when a read returns no
  bytes, and a later \<^verbatim>\<open>finish_read\<close> would wait for ever, which is \<open>None\<close> here, as is an access outside the
  buffer and a failed \<^verbatim>\<open>assert\<close>.
\<close>

section \<open>Byte sources\<close>

locale byte_source =
  fixes read :: "nat \<Rightarrow> 's \<Rightarrow> (char list \<times> 's) option"
    and valid :: "'s \<Rightarrow> bool"
    and remaining :: "'s \<Rightarrow> char list"
  assumes read_total: "valid s \<Longrightarrow> \<exists>bs s'. read n s = Some (bs, s')"
    and read_bytes: "valid s \<Longrightarrow> read n s = Some (bs, s') \<Longrightarrow> bs = take n (remaining s)"
    and read_rest: "valid s \<Longrightarrow> read n s = Some (bs, s') \<Longrightarrow> valid s' \<and> remaining s' = drop n (remaining s)"
begin

lemma read_short_only_at_end:
  "valid s \<Longrightarrow> read n s = Some (bs, s') \<Longrightarrow> length bs < n \<Longrightarrow> remaining s' = []"
  using read_bytes [of s n bs s'] read_rest [of s n bs s'] by auto

lemma two_reads:
  assumes "valid s" "read m s = Some (as, s1)" "read n s1 = Some (bs, s2)"
  shows "as @ bs = take (m + n) (remaining s)"
  using read_bytes [OF assms(1,2)] read_rest [OF assms(1,2)] read_bytes [OF _ assms(3)] by (simp add: take_add)

end

text \<open>\<^verbatim>\<open>NonOwningStringByteSource\<close>: the bytes behind \<^verbatim>\<open>str\<close>, and how many of them belong to the source.\<close>

record NonOwningStringByteSource =
  str :: "char list"
  remaining_byte_count :: int

definition string_source_read :: "nat \<Rightarrow> NonOwningStringByteSource \<Rightarrow> (char list \<times> NonOwningStringByteSource) option" where
  "string_source_read desired s =
     (let n = (if remaining_byte_count s < int desired then remaining_byte_count s else int desired)
      in if n < 0 \<or> int (length (str s)) < n then None
         else Some (take (nat n) (str s),
                s\<lparr>str := drop (nat n) (str s), remaining_byte_count := remaining_byte_count s - n\<rparr>))"

interpretation string_source: byte_source string_source_read
  "\<lambda>s. 0 \<le> remaining_byte_count s \<and> remaining_byte_count s \<le> int (length (str s))"
  "\<lambda>s. take (nat (remaining_byte_count s)) (str s)"
proof
  fix s :: NonOwningStringByteSource and n bs s'
  assume v: "0 \<le> remaining_byte_count s \<and> remaining_byte_count s \<le> int (length (str s))"
  define k where "k = min (nat (remaining_byte_count s)) n"
  have r: "string_source_read n s = Some (take k (str s),
      s\<lparr>str := drop k (str s), remaining_byte_count := remaining_byte_count s - int k\<rparr>)"
  proof -
    have "(if remaining_byte_count s < int n then remaining_byte_count s else int n) = int k"
      using v by (auto simp: k_def min_def)
    moreover have "int k \<le> int (length (str s))" using v by (auto simp: k_def)
    ultimately show ?thesis by (simp add: string_source_read_def Let_def)
  qed
  show "\<exists>bs s'. string_source_read n s = Some (bs, s')" using r by blast
  show "bs = take n (take (nat (remaining_byte_count s)) (str s))" if "string_source_read n s = Some (bs, s')"
    using that r by (simp add: k_def min.commute)
  show "(0 \<le> remaining_byte_count s' \<and> remaining_byte_count s' \<le> int (length (str s'))) \<and>
      take (nat (remaining_byte_count s')) (str s') = drop n (take (nat (remaining_byte_count s)) (str s))"
    if "string_source_read n s = Some (bs, s')"
  proof -
    have s': "s' = s\<lparr>str := drop k (str s), remaining_byte_count := remaining_byte_count s - int k\<rparr>"
      using that r by simp
    have "nat (remaining_byte_count s - int k) = nat (remaining_byte_count s) - k" by auto
    moreover have "drop n (take (nat (remaining_byte_count s)) (str s)) =
        drop k (take (nat (remaining_byte_count s)) (str s))"
      using v by (auto simp: k_def min_def)
    ultimately show ?thesis using v by (auto simp: s' drop_take k_def)
  qed
qed

text \<open>
  \<^verbatim>\<open>OwningStdIOByteSourceBase\<close> and \<^verbatim>\<open>NonOwningIStreamByteSource\<close>: \<^verbatim>\<open>fread\<close> and \<^verbatim>\<open>istream::read\<close> with
  \<^verbatim>\<open>gcount\<close> deliver the next bytes of the file, fewer than asked for only at its end. The file is its
  contents and the position.
\<close>

record file_stream =
  contents :: "char list"
  position :: nat

definition stream_read :: "nat \<Rightarrow> file_stream \<Rightarrow> (char list \<times> file_stream) option" where
  "stream_read n f =
     (let bs = take n (drop (position f) (contents f))
      in Some (bs, f\<lparr>position := position f + length bs\<rparr>))"

interpretation stream_source: byte_source stream_read
  "\<lambda>f. position f \<le> length (contents f)" "\<lambda>f. drop (position f) (contents f)"
  by unfold_locales (auto simp: stream_read_def Let_def min_def add.commute)

section \<open>The line reader\<close>

definition block_len :: nat where "block_len = 2 ^ 20"

record async_reader =
  ar_source :: "char list"
  ar_done :: bool

record LineReader =
  lr_buffer :: "char list"
  data_begin :: nat
  data_end :: nat
  reader :: "async_reader option"
  lr_file_name :: "char list"
  file_line :: u32

text \<open>Bytes stored at an offset of the buffer, and \<^verbatim>\<open>memcpy\<close> of one block to another.\<close>

definition put_bytes :: "nat \<Rightarrow> char list \<Rightarrow> char list \<Rightarrow> char list option" where
  "put_bytes off bs buf =
     (if off + length bs \<le> length buf then Some (take off buf @ bs @ drop (off + length bs) buf) else None)"

definition copy_block :: "nat \<Rightarrow> nat \<Rightarrow> nat \<Rightarrow> char list \<Rightarrow> char list option" where
  "copy_block dst src n buf =
     (if src + n \<le> length buf then put_bytes dst (take n (drop src buf)) buf else None)"

text \<open>
  \<^verbatim>\<open>finish_read\<close> of a read of \<open>n\<close> bytes: the number of bytes read and the bytes; the worker ends with an
  empty read.
\<close>

definition finish_read :: "nat \<Rightarrow> async_reader \<Rightarrow> (char list \<times> async_reader) option" where
  "finish_read n r =
     (if ar_done r then None
      else let bs = take n (ar_source r)
           in Some (bs, r\<lparr>ar_source := drop n (ar_source r), ar_done := (bs = [])\<rparr>))"

text \<open>\<^verbatim>\<open>LineReader::init\<close>; \<open>junk\<close> is what the new buffer holds.\<close>

definition lr_init :: "nat \<Rightarrow> char list \<Rightarrow> char list \<Rightarrow> char list \<Rightarrow> LineReader option" where
  "lr_init B junk name src =
     (let bs = take (2 * B) src
      in case put_bytes 0 bs junk of
           None \<Rightarrow> None
         | Some buf \<Rightarrow>
             let e = length bs;
                 b = (if e \<ge> 3 \<and> buf ! 0 = CHR 0xEF \<and> buf ! 1 = CHR 0xBB \<and> buf ! 2 = CHR 0xBF then 3 else 0)
             in Some \<lparr>lr_buffer = buf, data_begin = b, data_end = e,
                  reader = (if e = 2 * B then Some \<lparr>ar_source = drop (2 * B) src, ar_done = False\<rparr> else None),
                  lr_file_name = name, file_line = 0\<rparr>)"

text \<open>
  \<^verbatim>\<open>open_file\<close> and the constructor from a file name: \<open>fopen\<close> gives the contents or an errno value.
\<close>

definition open_file :: "(string \<Rightarrow> int + char list) \<Rightarrow> string \<Rightarrow> char list res" where
  "open_file fopen name =
     (case fopen name of
        Inl x \<Rightarrow>
          let err = set_errno x (new_error can_not_open_file)
          in throw (err\<lparr>err_file_name := set_file_name (Some name) (err_file_name err)\<rparr>)
      | Inr bytes \<Rightarrow> ret bytes)"

definition LineReader_open :: "nat \<Rightarrow> (string \<Rightarrow> int + char list) \<Rightarrow> char list \<Rightarrow> string \<Rightarrow> LineReader res" where
  "LineReader_open B fopen junk name =
     res_bind (open_file fopen name) (\<lambda>bytes.
       case lr_init B junk (set_file_name (Some name) (replicate (max_file_name_length + 1) NUL)) bytes of
         None \<Rightarrow> None
       | Some lr \<Rightarrow> ret lr)"

text \<open>
  The other constructors: from a byte source, from the bytes of a range of memory, from an open file and
  from an input stream. The name may be a null pointer. A range that does not lie in the memory is \<open>None\<close>.
\<close>

definition LineReader_source :: "nat \<Rightarrow> char list \<Rightarrow> string option \<Rightarrow> char list \<Rightarrow> LineReader res" where
  "LineReader_source B junk name src =
     (case lr_init B junk (set_file_name name (replicate (max_file_name_length + 1) NUL)) src of
        None \<Rightarrow> None
      | Some lr \<Rightarrow> ret lr)"

definition LineReader_data :: "nat \<Rightarrow> char list \<Rightarrow> string option \<Rightarrow> char list \<Rightarrow> nat \<Rightarrow> nat \<Rightarrow> LineReader res" where
  "LineReader_data B junk name mem b e =
     (let s = \<lparr>str = drop b mem, remaining_byte_count = int e - int b\<rparr>
      in if b \<le> e \<and> e \<le> length mem
         then LineReader_source B junk name (take (nat (remaining_byte_count s)) (str s))
         else None)"

definition LineReader_file :: "nat \<Rightarrow> char list \<Rightarrow> string option \<Rightarrow> file_stream \<Rightarrow> LineReader res" where
  "LineReader_file B junk name f = LineReader_source B junk name (drop (position f) (contents f))"

definition LineReader_istream :: "nat \<Rightarrow> char list \<Rightarrow> string option \<Rightarrow> file_stream \<Rightarrow> LineReader res" where
  "LineReader_istream B junk name f = LineReader_source B junk name (drop (position f) (contents f))"

definition lr_set_file_name :: "string option \<Rightarrow> LineReader \<Rightarrow> LineReader" where
  "lr_set_file_name name lr = lr\<lparr>lr_file_name := set_file_name name (lr_file_name lr)\<rparr>"

definition get_truncated_file_name :: "LineReader \<Rightarrow> char list" where
  "get_truncated_file_name lr = lr_file_name lr"

definition lr_set_file_line :: "u32 \<Rightarrow> LineReader \<Rightarrow> LineReader" where
  "lr_set_file_line n lr = lr\<lparr>file_line := n\<rparr>"

definition get_file_line :: "LineReader \<Rightarrow> u32" where
  "get_file_line lr = file_line lr"

text \<open>The step of \<^verbatim>\<open>next_line\<close> that moves the second block to the first and takes in the third.\<close>

definition shift_blocks :: "nat \<Rightarrow> LineReader \<Rightarrow> LineReader option" where
  "shift_blocks B lr =
     (if data_begin lr \<ge> B then
        case copy_block 0 B B (lr_buffer lr) of
          None \<Rightarrow> None
        | Some buf \<Rightarrow>
            let lr1 = lr\<lparr>lr_buffer := buf, data_begin := data_begin lr - B, data_end := data_end lr - B\<rparr>
            in (case reader lr of
                  None \<Rightarrow> Some lr1
                | Some r \<Rightarrow>
                    (case finish_read B r of
                       None \<Rightarrow> None
                     | Some (bs, r') \<Rightarrow>
                         (case put_bytes (2 * B) bs buf of
                            None \<Rightarrow> None
                          | Some buf2 \<Rightarrow>
                              (case copy_block B (2 * B) B buf2 of
                                 None \<Rightarrow> None
                               | Some buf3 \<Rightarrow>
                                   Some (lr1\<lparr>lr_buffer := buf3, data_end := data_end lr1 + length bs,
                                             reader := Some r'\<rparr>)))))
      else Some lr)"

text \<open>The search for the end of the line, from \<open>i\<close> on.\<close>

function find_line_end :: "char list \<Rightarrow> nat \<Rightarrow> nat \<Rightarrow> nat option" where
  "find_line_end buf e i =
     (if \<not> i < length buf then None
      else if buf ! i \<noteq> CHR 0x0A \<and> i \<noteq> e then find_line_end buf e (i + 1)
      else Some i)"
  by pat_completeness auto
termination
  by (relation "measure (\<lambda>(buf, e, i). length buf - i)") auto

declare find_line_end.simps [simp del]

definition limit_error :: "LineReader \<Rightarrow> csv_error" where
  "limit_error lr =
     (let err = new_error line_length_limit_exceeded
      in set_file_line (sint (file_line lr))
           (err\<lparr>err_file_name := set_file_name (cstr (lr_file_name lr)) (err_file_name err)\<rparr>))"

text \<open>The last part of \<^verbatim>\<open>next_line\<close>: the end of the line and a CR before it become NUL.\<close>

definition cut_line :: "nat \<Rightarrow> LineReader \<Rightarrow> LineReader" where
  "cut_line line_end lr =
     (let e = (if lr_buffer lr ! line_end = CHR 0x0A \<and> line_end \<noteq> data_end lr
               then data_end lr else data_end lr + 1);
          buf = (lr_buffer lr)[line_end := NUL];
          buf2 = (if line_end \<noteq> data_begin lr \<and> buf ! (line_end - 1) = CHR 0x0D
                  then buf[line_end - 1 := NUL] else buf)
      in lr\<lparr>lr_buffer := buf2, data_end := e, data_begin := line_end + 1\<rparr>)"

text \<open>The result of \<^verbatim>\<open>next_line\<close>: the pointer (\<open>None\<close> at the end of the input) and the new state.\<close>

definition next_line :: "nat \<Rightarrow> LineReader \<Rightarrow> (nat option \<times> LineReader) res" where
  "next_line B lr0 =
     (if data_begin lr0 = data_end lr0 then ret (None, lr0)
      else if \<not> (data_begin lr0 < data_end lr0 \<and> data_end lr0 \<le> B * 2) then None
      else
        case shift_blocks B (lr0\<lparr>file_line := file_line lr0 + 1\<rparr>) of
          None \<Rightarrow> None
        | Some lr \<Rightarrow>
            (case find_line_end (lr_buffer lr) (data_end lr) (data_begin lr) of
               None \<Rightarrow> None
             | Some line_end \<Rightarrow>
                 if line_end - data_begin lr + 1 > B then throw (limit_error lr)
                 else ret (Some (data_begin lr), cut_line line_end lr)))"

section \<open>The text that remains\<close>

definition source_left :: "LineReader \<Rightarrow> char list" where
  "source_left lr = (case reader lr of None \<Rightarrow> [] | Some r \<Rightarrow> ar_source r)"

definition text_left :: "LineReader \<Rightarrow> char list" where
  "text_left lr = drop (data_begin lr) (take (data_end lr) (lr_buffer lr)) @ source_left lr"

text \<open>
  The invariant: while bytes remain in the source, both blocks are full and the read position lies inside
  them; once the worker has ended, no second block is left to move.
\<close>

definition lr_inv :: "nat \<Rightarrow> LineReader \<Rightarrow> bool" where
  "lr_inv B lr \<longleftrightarrow> 0 < B \<and> length (lr_buffer lr) = 3 * B \<and> data_begin lr \<le> data_end lr \<and>
     data_end lr \<le> 2 * B \<and>
     (source_left lr \<noteq> [] \<longrightarrow> data_end lr = 2 * B \<and> data_begin lr < 2 * B) \<and>
     (\<forall>r. reader lr = Some r \<and> ar_done r \<longrightarrow>
        ar_source r = [] \<and> (data_end lr \<le> B \<or> data_begin lr = data_end lr)) \<and>
     length (lr_file_name lr) = 256 \<and> NUL \<in> set (lr_file_name lr)"

lemma put_bytes_Some: "off + length bs \<le> length buf \<Longrightarrow>
  put_bytes off bs buf = Some (take off buf @ bs @ drop (off + length bs) buf)"
  by (simp add: put_bytes_def)

lemma copy_block_down: "length buf = 3 * B \<Longrightarrow>
  copy_block 0 B B buf = Some (take B (drop B buf) @ drop B buf)"
  by (simp add: copy_block_def put_bytes_def)

lemma copy_block_third: "length buf = 3 * B \<Longrightarrow>
  copy_block B (2 * B) B buf = Some (take B buf @ drop (2 * B) buf @ drop (2 * B) buf)"
  by (simp add: copy_block_def put_bytes_def mult_2)

lemma text_left_Nil: "lr_inv B lr \<Longrightarrow> text_left lr = [] \<longleftrightarrow> data_begin lr = data_end lr"
  by (auto simp: lr_inv_def text_left_def)

lemma shift_blocks_reader:
  assumes "data_begin lr \<ge> B" "reader lr = Some r" "\<not> ar_done r" "copy_block 0 B B (lr_buffer lr) = Some buf1"
    and "put_bytes (2 * B) (take B (ar_source r)) buf1 = Some buf2" "copy_block B (2 * B) B buf2 = Some buf3"
  shows "shift_blocks B lr = Some (lr\<lparr>lr_buffer := buf3, data_begin := data_begin lr - B,
     data_end := data_end lr - B + length (take B (ar_source r)),
     reader := Some (r\<lparr>ar_source := drop B (ar_source r), ar_done := (take B (ar_source r) = [])\<rparr>)\<rparr>)"
  using assms by (simp add: shift_blocks_def finish_read_def Let_def)

text \<open>The buffer after the third block has been filled with \<open>bs\<close> and copied to the second.\<close>

lemma shift_buffers:
  assumes len: "length buf = 3 * B" and bs: "length bs \<le> B"
  obtains buf2 rest where
    "put_bytes (2 * B) bs (take B (drop B buf) @ drop B buf) = Some buf2"
    "copy_block B (2 * B) B buf2 = Some (take B (drop B buf) @ rest @ rest)"
    "length rest = B" "take (length bs) rest = bs"
proof -
  define buf1 where "buf1 = take B (drop B buf) @ drop B buf"
  define buf2 where "buf2 = take (2 * B) buf1 @ bs @ drop (2 * B + length bs) buf1"
  have l1: "length buf1 = 3 * B" using len by (simp add: buf1_def)
  have l2: "length buf2 = 3 * B" using l1 bs by (simp add: buf2_def)
  have "take B buf2 = take B (take (2 * B) buf1)" using l1 by (simp add: buf2_def)
  then have "take B buf2 = take B (drop B buf)" using len by (simp add: buf1_def)
  then have "copy_block B (2 * B) B buf2 = Some (take B (drop B buf) @ drop (2 * B) buf2 @ drop (2 * B) buf2)"
    using copy_block_third [OF l2] by simp
  moreover have "put_bytes (2 * B) bs buf1 = Some buf2"
    unfolding buf2_def using l1 bs by (intro put_bytes_Some) simp
  moreover have "take (length bs) (drop (2 * B) buf2) = bs" using l1 by (simp add: buf2_def)
  ultimately show thesis using that l2 unfolding buf1_def by simp
qed

text \<open>Its window and the rest of the source are the window and the source from before.\<close>

lemma shift_text:
  assumes "length buf = 3 * B" "B \<le> b" "b < e" "e \<le> 2 * B" and src: "src \<noteq> [] \<Longrightarrow> e = 2 * B"
    and rest: "length rest = B" "take (length bs) rest = bs" and bs: "bs = take B src"
  shows "drop (b - B) (take (e - B + length bs) (take B (drop B buf) @ rest @ rest)) @ drop B src =
    drop b (take e buf) @ src"
proof (cases "src = []")
  case True
  then have "take (e - B + length bs) (take B (drop B buf) @ rest @ rest) = take (e - B) (drop B buf)"
    using assms(1,3,4) by (simp add: bs)
  with True assms(2) show ?thesis by (simp add: drop_take)
next
  case False
  then have e: "e = 2 * B" by (rule src)
  have lb: "length bs \<le> B" by (simp add: bs)
  have "take (B + length bs) (take B (drop B buf) @ rest @ rest) = take B (drop B buf) @ take (length bs) rest"
    using assms(1) rest(1) lb by simp
  then have "take (e - B + length bs) (take B (drop B buf) @ rest @ rest) = take B (drop B buf) @ bs"
    using e rest(2) by (simp add: mult_2)
  moreover have "drop (b - B) (take B (drop B buf)) = drop b (take e buf)"
    using e assms(2,3) by (simp add: drop_take mult_2)
  ultimately show ?thesis using assms(1-3) e by (simp add: bs)
qed

lemma shift_blocks_some:
  assumes inv: "lr_inv B lr" and b: "B \<le> data_begin lr" "data_begin lr < data_end lr" and r: "reader lr = Some r"
  shows "\<exists>lr'. shift_blocks B lr = Some lr' \<and> lr_inv B lr' \<and> text_left lr' = text_left lr \<and>
     data_begin lr' < B \<and> data_begin lr' < data_end lr' \<and> file_line lr' = file_line lr \<and>
     lr_file_name lr' = lr_file_name lr"
proof -
  let ?buf = "lr_buffer lr" and ?b = "data_begin lr" and ?e = "data_end lr"
  have len: "length ?buf = 3 * B" and e: "?e \<le> 2 * B" and B: "0 < B" using inv by (auto simp: lr_inv_def)
  have nd: "\<not> ar_done r" using inv r b by (fastforce simp: lr_inv_def)
  have src: "ar_source r \<noteq> [] \<Longrightarrow> ?e = 2 * B" using inv r by (auto simp: lr_inv_def source_left_def)
  define bs where "bs = take B (ar_source r)"
  have lbs: "length bs \<le> B" by (simp add: bs_def)
  obtain buf2 rest where p: "put_bytes (2 * B) bs (take B (drop B ?buf) @ drop B ?buf) = Some buf2"
    "copy_block B (2 * B) B buf2 = Some (take B (drop B ?buf) @ rest @ rest)" "length rest = B" "take (length bs) rest = bs"
    by (rule shift_buffers [OF len lbs])
  let ?lr' = "lr\<lparr>lr_buffer := take B (drop B ?buf) @ rest @ rest, data_begin := ?b - B, data_end := ?e - B + length bs,
      reader := Some (r\<lparr>ar_source := drop B (ar_source r), ar_done := (bs = [])\<rparr>)\<rparr>"
  have run: "shift_blocks B lr = Some ?lr'"
    unfolding bs_def
    by (rule shift_blocks_reader [OF b(1) r nd copy_block_down [OF len] p(1) [unfolded bs_def] p(2)])
  have "text_left ?lr' = text_left lr"
    using shift_text [OF len b e src p(3,4) bs_def] r by (simp add: text_left_def source_left_def)
  moreover have "drop B (ar_source r) \<noteq> [] \<Longrightarrow> length bs = B \<and> ar_source r \<noteq> []" "bs = [] \<Longrightarrow> ar_source r = []"
    using B by (auto simp: bs_def)
  then have "lr_inv B ?lr'"
    using inv p(3) b e B lbs src len unfolding lr_inv_def by (auto simp: source_left_def)
  ultimately show ?thesis using run b e by (intro exI [of _ ?lr']) auto
qed

lemma shift_blocks_spec:
  assumes inv: "lr_inv B lr" and ne: "data_begin lr \<noteq> data_end lr"
  shows "\<exists>lr'. shift_blocks B lr = Some lr' \<and> lr_inv B lr' \<and> text_left lr' = text_left lr \<and>
     data_begin lr' < B \<and> data_begin lr' < data_end lr' \<and> file_line lr' = file_line lr \<and>
     lr_file_name lr' = lr_file_name lr"
proof (cases "data_begin lr \<ge> B")
  case False
  with inv ne show ?thesis by (auto simp: shift_blocks_def lr_inv_def)
next
  case True
  let ?buf = "lr_buffer lr" and ?b = "data_begin lr" and ?e = "data_end lr"
  have len: "length ?buf = 3 * B" and be: "?b < ?e" "?e \<le> 2 * B" using inv ne by (auto simp: lr_inv_def)
  show ?thesis
  proof (cases "reader lr")
    case None
    have "drop (?b - B) (take (?e - B) (take B (drop B ?buf) @ drop B ?buf)) = drop ?b (take ?e ?buf)"
      using True be len by (simp add: drop_take)
    with None True inv be len show ?thesis
      by (auto simp: shift_blocks_def copy_block_down lr_inv_def text_left_def source_left_def)
  next
    case (Some r)
    then show ?thesis by (rule shift_blocks_some [OF inv True be(1)])
  qed
qed

section \<open>One line\<close>

abbreviation NL :: char where "NL \<equiv> CHR 0x0A"
abbreviation CR :: char where "CR \<equiv> CHR 0x0D"

definition first_line :: "char list \<Rightarrow> char list" where
  "first_line t = takeWhile (\<lambda>c. c \<noteq> NL) t"

definition after_line :: "char list \<Rightarrow> char list" where
  "after_line t = drop (length (first_line t) + 1) t"

definition strip_cr :: "char list \<Rightarrow> char list" where
  "strip_cr l = (if l \<noteq> [] \<and> last l = CR then butlast l else l)"

text \<open>The bytes of the buffer from the returned pointer to the end of the line.\<close>

definition line_memory :: "nat \<Rightarrow> LineReader \<Rightarrow> char list" where
  "line_memory p lr = drop p (take (data_begin lr) (lr_buffer lr))"

lemma find_line_end_spec:
  "i \<le> e \<Longrightarrow> e < length buf \<Longrightarrow> find_line_end buf e i = Some (i + length (first_line (drop i (take e buf))))"
proof (induction "e - i" arbitrary: i)
  case 0
  then have "i = e" by simp
  with 0(3) show ?case by (subst find_line_end.simps) (simp add: first_line_def)
next
  case (Suc n)
  then have i: "i < e" "i < length buf" by auto
  then have d: "drop i (take e buf) = buf ! i # drop (Suc i) (take e buf)"
    by (metis Cons_nth_drop_Suc length_take min_less_iff_conj nth_take)
  show ?case
  proof (cases "buf ! i = NL")
    case True
    with i d show ?thesis by (subst find_line_end.simps) (simp add: first_line_def)
  next
    case False
    have "find_line_end buf e (Suc i) = Some (Suc i + length (first_line (drop (Suc i) (take e buf))))"
      using Suc i by (intro Suc.hyps(1)) auto
    with False i d show ?thesis by (subst find_line_end.simps) (simp add: first_line_def)
  qed
qed

lemma first_line_append_NL: "NL \<in> set w \<Longrightarrow> first_line (w @ s) = first_line w"
  by (auto simp: first_line_def takeWhile_append1)

lemma first_line_no_NL: "NL \<notin> set w \<Longrightarrow> first_line (w @ s) = w @ first_line s"
  unfolding first_line_def by (induction w) auto

lemma first_line_whole: "NL \<notin> set w \<Longrightarrow> first_line w = w"
  using first_line_no_NL [of w "[]"] by (simp add: first_line_def)

lemma length_first_line: "length (first_line t) \<le> length t"
  by (simp add: first_line_def length_takeWhile_le)

lemma nth_first_line_end: "NL \<in> set w \<Longrightarrow> length (first_line w) < length w \<and> w ! length (first_line w) = NL"
proof (induction w)
  case (Cons a w)
  then show ?case by (cases "a = NL") (simp_all add: first_line_def)
qed simp

lemma first_line_prefix: "take (length (first_line t)) t = first_line t"
  by (simp add: first_line_def takeWhile_eq_take [symmetric])

text \<open>The window of the buffer and the whole text have the same first line, or both are over the limit.\<close>

lemma window_line:
  assumes "lr_inv B lr" "data_begin lr < B" "data_begin lr < data_end lr"
  defines "w \<equiv> drop (data_begin lr) (take (data_end lr) (lr_buffer lr))"
  shows "(B < length (first_line w) + 1 \<longleftrightarrow> B < length (first_line (text_left lr)) + 1) \<and>
     (length (first_line w) + 1 \<le> B \<longrightarrow>
        first_line (text_left lr) = first_line w \<and> (NL \<in> set w \<or> source_left lr = []))"
proof (cases "NL \<in> set w \<or> source_left lr = []")
  case True
  then have "first_line (text_left lr) = first_line w"
    by (auto simp: text_left_def w_def [symmetric] first_line_append_NL)
  with True show ?thesis by simp
next
  case False
  then have e: "data_end lr = 2 * B" using assms(1) by (auto simp: lr_inv_def)
  have "length w = 2 * B - data_begin lr"
    using assms(1) e by (simp add: w_def lr_inv_def)
  moreover have "first_line w = w" using False by (simp add: first_line_whole)
  moreover have "first_line (text_left lr) = w @ first_line (source_left lr)"
    using False by (simp add: text_left_def w_def [symmetric] first_line_no_NL)
  moreover have "B < 2 * B - data_begin lr" using assms(2) by linarith
  ultimately show ?thesis by (simp add: length_append)
qed

text \<open>The buffer after a line has been cut out: its bytes, an optional cleared CR, and the final NUL.\<close>

lemma cut_line_memory:
  assumes "b + length l < length buf" "take (length l) (drop b buf) = l"
  defines "k \<equiv> b + length l"
  defines "buf1 \<equiv> buf[k := NUL]"
  defines "buf2 \<equiv> (if k \<noteq> b \<and> buf1 ! (k - 1) = CR then buf1[k - 1 := NUL] else buf1)"
  shows "drop b (take (k + 1) buf2) = (if l \<noteq> [] \<and> last l = CR then butlast l @ [NUL, NUL] else l @ [NUL])"
    and "drop (k + 1) buf2 = drop (k + 1) buf" "length buf2 = length buf"
proof -
  have buf: "buf = take b buf @ l @ drop k buf"
    using assms(2) append_take_drop_id [of b buf] append_take_drop_id [of "length l" "drop b buf"]
    by (simp add: k_def add.commute)
  have b1: "buf1 = take b buf @ l @ NUL # drop (k + 1) buf"
  proof -
    have "buf1 = (take b buf @ l @ drop k buf)[k := NUL]" using buf by (simp add: buf1_def)
    also have "\<dots> = take b buf @ l @ (drop k buf)[0 := NUL]"
      using assms(1) by (simp add: k_def list_update_append)
    also have "(drop k buf)[0 := NUL] = NUL # drop (k + 1) buf"
      using assms(1) by (simp add: k_def Cons_nth_drop_Suc [symmetric])
    finally show ?thesis .
  qed
  have tb: "length (take b buf) = b" using assms(1) by simp
  have cond: "(k \<noteq> b \<and> buf1 ! (k - 1) = CR) \<longleftrightarrow> (l \<noteq> [] \<and> last l = CR)"
  proof (cases l rule: rev_cases)
    case (snoc m x)
    have "buf1 = take b buf @ m @ x # NUL # drop (k + 1) buf" using b1 snoc by simp
    moreover have "(take b buf @ m @ x # NUL # drop (k + 1) buf) ! (length (take b buf) + length m) = x"
      by (subst nth_append_length_plus) simp
    ultimately have "buf1 ! (b + length m) = x" using tb by simp
    with snoc show ?thesis by (simp add: k_def)
  qed (simp add: k_def)
  have b2: "buf2 = take b buf @ (if l \<noteq> [] \<and> last l = CR then butlast l @ [NUL] else l) @ NUL # drop (k + 1) buf"
  proof (cases "l \<noteq> [] \<and> last l = CR")
    case True
    then obtain m where m: "l = m @ [CR]" by (metis append_butlast_last_id)
    have "buf2 = (take b buf @ (m @ [CR]) @ NUL # drop (k + 1) buf)[b + length m := NUL]"
      using True cond by (simp add: buf2_def b1 k_def m)
    then show ?thesis using True tb m by (simp add: list_update_append)
  next
    case False
    then have "buf2 = buf1" unfolding buf2_def cond by auto
    with False show ?thesis by (auto simp: b1)
  qed
  have len: "length (if l \<noteq> [] \<and> last l = CR then butlast l @ [NUL] else l) = length l" by auto
  show "drop b (take (k + 1) buf2) = (if l \<noteq> [] \<and> last l = CR then butlast l @ [NUL, NUL] else l @ [NUL])"
    unfolding b2 using tb len by (auto simp: k_def)
  show "drop (k + 1) buf2 = drop (k + 1) buf" unfolding b2 using tb len by (auto simp: k_def)
  show "length buf2 = length buf" by (simp add: buf2_def buf1_def)
qed

text \<open>The bytes that a C string of the line memory has: those of the line up to its first NUL byte.\<close>

definition line_bytes :: "char list \<Rightarrow> char list" where
  "line_bytes l = (if l \<noteq> [] \<and> last l = CR then butlast l @ [NUL, NUL] else l @ [NUL])"

lemma cstr_line_bytes: "cstr (line_bytes l) = Some (takeWhile (\<lambda>c. c \<noteq> NUL) (strip_cr l))"
proof -
  have *: "takeWhile (\<lambda>c. c \<noteq> NUL) (m @ NUL # r) = takeWhile (\<lambda>c. c \<noteq> NUL) m" for m r :: "char list"
    by (induction m) auto
  show ?thesis by (simp add: cstr_def line_bytes_def strip_cr_def *)
qed

text \<open>The state after a line \<open>l\<close> has been cut out of the window.\<close>

lemma window_end:
  assumes "b < e" "e \<le> length buf" "k = b + length (first_line (drop b (take e buf)))"
  shows "k \<le> e" "NL \<in> set (drop b (take e buf)) \<longleftrightarrow> buf ! k = NL \<and> k \<noteq> e" "NL \<notin> set (drop b (take e buf)) \<Longrightarrow> k = e"
    "take (length (first_line (drop b (take e buf)))) (drop b buf) = first_line (drop b (take e buf))"
proof -
  define w where "w = drop b (take e buf)"
  have lw: "length w = e - b" using assms(2) by (simp add: w_def)
  note k = assms(3) [folded w_def]
  show "k \<le> e" using length_first_line [of w] lw k assms(1) by linarith
  show none: "k = e" if "NL \<notin> set (drop b (take e buf))"
    using that first_line_whole [of w] lw k assms(1) by (simp add: w_def [symmetric])
  have "buf ! k = NL \<and> k \<noteq> e" if "NL \<in> set w"
  proof -
    have "b + length (first_line w) < e" "w ! length (first_line w) = NL" using nth_first_line_end [OF that] lw by linarith+
    then show ?thesis using assms(2) unfolding k by (simp add: w_def)
  qed
  then show "NL \<in> set (drop b (take e buf)) \<longleftrightarrow> buf ! k = NL \<and> k \<noteq> e"
    using none by (auto simp: w_def)
  have "take (length (first_line w)) w = take (length (first_line w)) (drop b buf)"
    using length_first_line [of w] lw by (simp add: w_def drop_take)
  then show "take (length (first_line (drop b (take e buf)))) (drop b buf) = first_line (drop b (take e buf))"
    by (simp add: first_line_prefix w_def)
qed

lemma window_after:
  assumes "NL \<in> set w \<or> src = []" "first_line (w @ src) = first_line w"
  shows "after_line (w @ src) = drop (length (first_line w) + 1) w @ src"
proof (cases "NL \<in> set w")
  case True
  then have "length (first_line w) + 1 \<le> length w" using nth_first_line_end by fastforce
  then show ?thesis by (simp add: after_line_def assms(2))
next
  case False
  with assms show ?thesis by (simp add: after_line_def)
qed

lemma cut_line_inv:
  assumes inv: "lr_inv B lr" and b: "data_begin lr < B" "data_begin lr < data_end lr"
    and k: "k \<le> data_end lr" "k < data_begin lr + B" and nl: "k = data_end lr \<longrightarrow> source_left lr = []"
    and buf: "length buf = 3 * B" and e: "e = (if k \<noteq> data_end lr then data_end lr else data_end lr + 1)"
  shows "lr_inv B (lr\<lparr>lr_buffer := buf, data_end := e, data_begin := k + 1\<rparr>)"
proof (cases "k = data_end lr")
  case True
  have "\<And>r. reader lr = Some r \<and> ar_done r \<Longrightarrow> ar_source r = []" using inv by (fastforce simp: lr_inv_def)
  then show ?thesis
    using inv True b k buf e nl unfolding lr_inv_def by (auto simp: source_left_def)
next
  case False
  have "source_left lr \<noteq> [] \<Longrightarrow> data_end lr = 2 * B" using inv by (auto simp: lr_inv_def)
  moreover have "\<And>r. reader lr = Some r \<and> ar_done r \<Longrightarrow> ar_source r = [] \<and> data_end lr \<le> B"
    using inv b(2) by (fastforce simp: lr_inv_def)
  ultimately show ?thesis
    using inv False b k buf e unfolding lr_inv_def by (auto simp: source_left_def)
qed

lemma next_line_cut:
  assumes inv: "lr_inv B lr" and b: "data_begin lr < B" and be: "data_begin lr < data_end lr"
    and k: "k = data_begin lr + length (first_line (drop (data_begin lr) (take (data_end lr) (lr_buffer lr))))"
    and short: "length (first_line (drop (data_begin lr) (take (data_end lr) (lr_buffer lr)))) + 1 \<le> B"
  shows "lr_inv B (cut_line k lr)" "text_left (cut_line k lr) = after_line (text_left lr)"
    "line_memory (data_begin lr) (cut_line k lr) = line_bytes (first_line (text_left lr))"
proof -
  let ?b = "data_begin lr" and ?e = "data_end lr"
  define w where "w = drop ?b (take ?e (lr_buffer lr))"
  define buf where "buf = (lr_buffer lr)[k := NUL]"
  define buf2 where "buf2 = (if k \<noteq> ?b \<and> buf ! (k - 1) = CR then buf[k - 1 := NUL] else buf)"
  define e where "e = (if k \<noteq> ?e then ?e else ?e + 1)"
  have len: "length (lr_buffer lr) = 3 * B" and e2: "?e \<le> 2 * B" and B: "0 < B" using inv by (auto simp: lr_inv_def)
  have fl: "first_line (text_left lr) = first_line w" and nl: "NL \<in> set w \<or> source_left lr = []"
    using window_line [OF inv b be] short by (simp_all add: w_def)
  have "?e \<le> length (lr_buffer lr)" using e2 len by simp
  note we = window_end [OF be this k, folded w_def]
  have kl: "k < length (lr_buffer lr)" using we(1) e2 len B by linarith
  note cut = cut_line_memory [of ?b "first_line w" "lr_buffer lr", OF _ we(4), folded k [folded w_def], folded buf_def, folded buf2_def, OF kl]
  have "(lr_buffer lr ! k = NL \<and> k \<noteq> ?e) = (k \<noteq> ?e)" using we(2,3) by blast
  then have lr': "cut_line k lr = lr\<lparr>lr_buffer := buf2, data_end := e, data_begin := k + 1\<rparr>"
    by (simp add: cut_line_def e_def buf_def buf2_def Let_def)
  show "line_memory ?b (cut_line k lr) = line_bytes (first_line (text_left lr))"
    unfolding fl line_bytes_def using cut(1) by (simp add: line_memory_def lr')
  have "drop (k + 1) (take e buf2) = drop (k + 1) (take ?e (lr_buffer lr))"
    using cut(2) by (simp add: e_def drop_take)
  moreover have "drop (length (first_line w) + 1) w = drop (k + 1) (take ?e (lr_buffer lr))"
    by (simp add: w_def k add.commute)
  moreover have "text_left lr = w @ source_left lr" by (simp add: text_left_def w_def)
  ultimately show "text_left (cut_line k lr) = after_line (text_left lr)"
    using window_after [OF nl] fl by (simp add: text_left_def lr' source_left_def)
  have "length buf2 = 3 * B" using cut(3) len by simp
  then show "lr_inv B (cut_line k lr)"
    unfolding lr' using we(1,2) nl k short
    by (intro cut_line_inv [OF inv b be]) (auto simp: e_def w_def)
qed

lemma lr_inv_file_line [simp]: "lr_inv B (lr\<lparr>file_line := n\<rparr>) = lr_inv B lr"
  "text_left (lr\<lparr>file_line := n\<rparr>) = text_left lr"
  by (simp_all add: lr_inv_def text_left_def source_left_def)

lemma next_line_at_end: "lr_inv B lr \<Longrightarrow> text_left lr = [] \<Longrightarrow> next_line B lr = ret (None, lr)"
  by (simp add: text_left_Nil next_line_def)

lemma next_line_run:
  assumes inv: "lr_inv B lr" and ne: "text_left lr \<noteq> []"
  obtains lr1 k where "lr_inv B lr1" "text_left lr1 = text_left lr" "data_begin lr1 < B" "data_begin lr1 < data_end lr1"
    "file_line lr1 = file_line lr + 1" "lr_file_name lr1 = lr_file_name lr"
    "k = data_begin lr1 + length (first_line (drop (data_begin lr1) (take (data_end lr1) (lr_buffer lr1))))"
    "next_line B lr = (if k - data_begin lr1 + 1 > B then throw (limit_error lr1)
       else ret (Some (data_begin lr1), cut_line k lr1))"
proof -
  have nb: "data_begin lr \<noteq> data_end lr" using ne inv by (simp add: text_left_Nil)
  have inv1: "lr_inv B (lr\<lparr>file_line := file_line lr + 1\<rparr>)" using inv by simp
  obtain lr1 where s: "shift_blocks B (lr\<lparr>file_line := file_line lr + 1\<rparr>) = Some lr1"
    and l: "lr_inv B lr1" "text_left lr1 = text_left lr" "data_begin lr1 < B" "data_begin lr1 < data_end lr1"
      "file_line lr1 = file_line lr + 1" "lr_file_name lr1 = lr_file_name lr"
    using shift_blocks_spec [OF inv1] nb by auto
  have "data_end lr1 < length (lr_buffer lr1)" using l(1) by (auto simp: lr_inv_def)
  then have f: "find_line_end (lr_buffer lr1) (data_end lr1) (data_begin lr1) =
      Some (data_begin lr1 + length (first_line (drop (data_begin lr1) (take (data_end lr1) (lr_buffer lr1)))))"
    using l(4) by (intro find_line_end_spec) auto
  have g: "data_begin lr < data_end lr \<and> data_end lr \<le> B * 2" using inv nb by (auto simp: lr_inv_def)
  show thesis
    by (rule that [OF l refl]) (use nb g in \<open>simp add: next_line_def s f\<close>)
qed

lemma next_line_ok:
  assumes inv: "lr_inv B lr" and ne: "text_left lr \<noteq> []" and short: "length (first_line (text_left lr)) < B"
  shows "\<exists>p lr'. next_line B lr = ret (Some p, lr') \<and> lr_inv B lr' \<and> text_left lr' = after_line (text_left lr) \<and>
    line_memory p lr' = line_bytes (first_line (text_left lr)) \<and> file_line lr' = file_line lr + 1 \<and>
    lr_file_name lr' = lr_file_name lr"
proof -
  obtain lr1 k where l: "lr_inv B lr1" "text_left lr1 = text_left lr" "data_begin lr1 < B" "data_begin lr1 < data_end lr1"
    "file_line lr1 = file_line lr + 1" "lr_file_name lr1 = lr_file_name lr"
    and k: "k = data_begin lr1 + length (first_line (drop (data_begin lr1) (take (data_end lr1) (lr_buffer lr1))))"
    and run: "next_line B lr = (if k - data_begin lr1 + 1 > B then throw (limit_error lr1)
       else ret (Some (data_begin lr1), cut_line k lr1))"
    by (rule next_line_run [OF inv ne])
  have w: "length (first_line (drop (data_begin lr1) (take (data_end lr1) (lr_buffer lr1)))) + 1 \<le> B"
    using window_line [OF l(1,3,4)] short l(2) by simp
  note cut = next_line_cut [OF l(1,3,4) k w, unfolded l(2)]
  have "next_line B lr = ret (Some (data_begin lr1), cut_line k lr1)" using run w k by simp
  moreover have "file_line (cut_line k lr1) = file_line lr1" "lr_file_name (cut_line k lr1) = lr_file_name lr1"
    by (simp_all add: cut_line_def Let_def)
  ultimately show ?thesis using cut l(5,6) by (intro exI [of _ "data_begin lr1"] exI [of _ "cut_line k lr1"]) simp
qed

lemma next_line_long:
  assumes inv: "lr_inv B lr" and ne: "text_left lr \<noteq> []" and long: "\<not> length (first_line (text_left lr)) < B"
  shows "\<exists>e. next_line B lr = throw e \<and> kind e = line_length_limit_exceeded \<and>
    err_file_line e = sint (file_line lr + 1)"
proof -
  obtain lr1 k where l: "lr_inv B lr1" "text_left lr1 = text_left lr" "data_begin lr1 < B" "data_begin lr1 < data_end lr1"
    "file_line lr1 = file_line lr + 1"
    and k: "k = data_begin lr1 + length (first_line (drop (data_begin lr1) (take (data_end lr1) (lr_buffer lr1))))"
    and run: "next_line B lr = (if k - data_begin lr1 + 1 > B then throw (limit_error lr1)
       else ret (Some (data_begin lr1), cut_line k lr1))"
    by (rule next_line_run [OF inv ne])
  have "B < length (first_line (drop (data_begin lr1) (take (data_end lr1) (lr_buffer lr1)))) + 1"
    using window_line [OF l(1,3,4)] long l(2) by simp
  then have "next_line B lr = throw (limit_error lr1)" unfolding run using k by simp
  then show ?thesis using l(5) by (simp add: limit_error_def set_file_line_def new_error_def Let_def)
qed

section \<open>Whole inputs\<close>

text \<open>
  The calls of a client: \<^verbatim>\<open>next_line\<close> until it returns a null pointer. The result is the C strings it
  returned; \<open>None\<close> also stands for a loop that has not ended after the given number of calls.
\<close>

fun read_lines :: "nat \<Rightarrow> nat \<Rightarrow> LineReader \<Rightarrow> string list res" where
  "read_lines 0 B lr = None"
| "read_lines (Suc n) B lr =
     res_bind (next_line B lr) (\<lambda>(p, lr').
       case p of
         None \<Rightarrow> ret []
       | Some a \<Rightarrow>
           (case cstr (line_memory a lr') of
              None \<Rightarrow> None
            | Some s \<Rightarrow> res_bind (read_lines n B lr') (\<lambda>ss. ret (s # ss))))"

function split_text :: "char list \<Rightarrow> char list list" where
  "split_text t = (if t = [] then [] else strip_cr (first_line t) # split_text (after_line t))"
  by pat_completeness auto
termination
  by (relation "measure length") (auto simp: after_line_def)

declare split_text.simps [simp del]

definition drop_bom :: "char list \<Rightarrow> char list" where
  "drop_bom t = (if take 3 t = [CHR 0xEF, CHR 0xBB, CHR 0xBF] then drop 3 t else t)"

abbreviation until_nul :: "char list \<Rightarrow> string" where
  "until_nul l \<equiv> takeWhile (\<lambda>c. c \<noteq> NUL) l"

function lines_fit :: "nat \<Rightarrow> char list \<Rightarrow> bool" where
  "lines_fit B t = (if t = [] then True else length (first_line t) < B \<and> lines_fit B (after_line t))"
  by pat_completeness auto
termination
  by (relation "measure (\<lambda>(B, t). length t)") (auto simp: after_line_def)

declare lines_fit.simps [simp del]

lemma length_after_line: "t \<noteq> [] \<Longrightarrow> length (after_line t) < length t"
  by (cases t) (auto simp: after_line_def)

lemma read_lines_fit:
  assumes "lr_inv B lr" "lines_fit B (text_left lr)" "length (text_left lr) < n"
  shows "read_lines n B lr = ret (map until_nul (split_text (text_left lr)))"
  using assms
proof (induction n arbitrary: lr)
  case (Suc n)
  show ?case
  proof (cases "text_left lr = []")
    case True
    then show ?thesis using Suc.prems(1) by (simp add: next_line_at_end split_text.simps)
  next
    case False
    then have "length (first_line (text_left lr)) < B" and fit: "lines_fit B (after_line (text_left lr))"
      using Suc.prems(2) by (simp_all add: lines_fit.simps [of B "text_left lr"])
    then obtain p lr' where n: "next_line B lr = ret (Some p, lr')" "lr_inv B lr'"
      "text_left lr' = after_line (text_left lr)" "line_memory p lr' = line_bytes (first_line (text_left lr))"
      using next_line_ok [OF Suc.prems(1) False] by blast
    have "length (text_left lr') < n" using length_after_line [OF False] n(3) Suc.prems(3) by simp
    then have "read_lines n B lr' = ret (map until_nul (split_text (text_left lr')))"
      using n fit by (intro Suc.IH) simp_all
    then show ?thesis using n False by (simp add: cstr_line_bytes split_text.simps [of "text_left lr"])
  qed
qed simp

lemma read_lines_long:
  assumes "lr_inv B lr" "\<not> lines_fit B (text_left lr)" "length (text_left lr) < n"
  shows "\<exists>e. read_lines n B lr = throw e \<and> kind e = line_length_limit_exceeded"
  using assms
proof (induction n arbitrary: lr)
  case (Suc n)
  have ne: "text_left lr \<noteq> []" using Suc.prems(2) by (auto simp: lines_fit.simps)
  show ?case
  proof (cases "length (first_line (text_left lr)) < B")
    case False
    then show ?thesis using next_line_long [OF Suc.prems(1) ne] by fastforce
  next
    case True
    then have fit: "\<not> lines_fit B (after_line (text_left lr))"
      using Suc.prems(2) ne by (simp add: lines_fit.simps [of B "text_left lr"])
    obtain p lr' where n: "next_line B lr = ret (Some p, lr')" "lr_inv B lr'"
      "text_left lr' = after_line (text_left lr)" "line_memory p lr' = line_bytes (first_line (text_left lr))"
      using next_line_ok [OF Suc.prems(1) ne True] by blast
    have "length (text_left lr') < n" using length_after_line [OF ne] n(3) Suc.prems(3) by simp
    then obtain e where "read_lines n B lr' = throw e" "kind e = line_length_limit_exceeded"
      using Suc.IH [of lr'] n fit by auto
    then show ?thesis using n by (simp add: cstr_line_bytes)
  qed
qed simp

lemma bom_test:
  "(length bs \<ge> 3 \<and> bs ! 0 = a \<and> bs ! 1 = b \<and> bs ! 2 = c) \<longleftrightarrow> take 3 bs = [a, b, c]"
proof (cases "length bs \<ge> 3")
  case True
  then obtain x y z r where "bs = x # y # z # r"
    by (metis Suc_le_length_iff numeral_3_eq_3)
  then show ?thesis by (auto simp: numeral_3_eq_3 numeral_2_eq_2)
next
  case False
  then have "length (take 3 bs) \<noteq> length [a, b, c]" by simp
  with False show ?thesis by metis
qed

lemma lr_init_spec:
  assumes B: "2 \<le> B" and junk: "length junk = 3 * B"
    and name: "length name = 256" "NUL \<in> set name"
  shows "\<exists>lr. lr_init B junk name src = Some lr \<and> lr_inv B lr \<and> text_left lr = drop_bom src \<and> file_line lr = 0 \<and>
    lr_file_name lr = name"
proof -
  define bs where "bs = take (2 * B) src"
  define buf where "buf = bs @ drop (length bs) junk"
  define b where "b = (if take 3 bs = [CHR 0xEF, CHR 0xBB, CHR 0xBF] then 3 else 0 :: nat)"
  have lb: "length bs \<le> 2 * B" by (simp add: bs_def)
  have nth: "buf ! i = bs ! i" if "i < length bs" for i using that by (simp add: buf_def nth_append)
  have b: "(if length bs \<ge> 3 \<and> buf ! 0 = CHR 0xEF \<and> buf ! 1 = CHR 0xBB \<and> buf ! 2 = CHR 0xBF then 3 else 0) = b"
  proof -
    have "(length bs \<ge> 3 \<and> buf ! 0 = CHR 0xEF \<and> buf ! 1 = CHR 0xBB \<and> buf ! 2 = CHR 0xBF) \<longleftrightarrow>
        (length bs \<ge> 3 \<and> bs ! 0 = CHR 0xEF \<and> bs ! 1 = CHR 0xBB \<and> bs ! 2 = CHR 0xBF)"
    proof (cases "length bs \<ge> 3")
      case True
      then have "0 < length bs" "1 < length bs" "2 < length bs" by auto
      then show ?thesis using nth by presburger
    qed simp
    then show ?thesis unfolding b_def bom_test [symmetric] by simp
  qed
  define lr where "lr = \<lparr>lr_buffer = buf, data_begin = b, data_end = length bs,
     reader = (if length bs = 2 * B then Some \<lparr>ar_source = drop (2 * B) src, ar_done = False\<rparr> else None),
     lr_file_name = name, file_line = 0\<rparr>"
  have "put_bytes 0 bs junk = Some buf" using lb junk B by (simp add: put_bytes_def buf_def)
  then have run: "lr_init B junk name src = Some lr"
    unfolding lr_init_def Let_def bs_def [symmetric] using b by (simp add: lr_def)
  have sl: "source_left lr = drop (2 * B) src" by (auto simp: lr_def source_left_def bs_def)
  have b_le: "b \<le> length bs"
    using bom_test [of bs "CHR 0xEF" "CHR 0xBB" "CHR 0xBF"] by (auto simp: b_def)
  have b3: "b < 2 * B" using B by (simp add: b_def)
  have t3: "take 3 bs = take 3 src" using B by (simp add: bs_def min_def)
  have "text_left lr = drop b bs @ drop (2 * B) src"
    unfolding text_left_def sl by (simp add: lr_def buf_def)
  also have "\<dots> = drop b src"
    using b_le by (metis append_take_drop_id bs_def diff_is_0_eq drop0 drop_append)
  also have "\<dots> = drop_bom src" by (simp add: drop_bom_def b_def t3)
  finally have t: "text_left lr = drop_bom src" .
  have "drop (2 * B) src \<noteq> [] \<Longrightarrow> length bs = 2 * B" by (simp add: bs_def)
  then have "lr_inv B lr"
    unfolding lr_inv_def sl using lb junk B b_le b3 name by (auto simp: lr_def buf_def)
  with run t show ?thesis by (auto simp: lr_def)
qed

lemma LineReader_open_spec:
  assumes "2 \<le> B" "length junk = 3 * B" "NUL \<notin> set name" "fopen name = Inr src"
  shows "\<exists>lr. LineReader_open B fopen junk name = ret lr \<and> lr_inv B lr \<and> text_left lr = drop_bom src \<and>
    file_line lr = 0 \<and> cstr (lr_file_name lr) = Some (take 255 name)"
proof -
  let ?n = "set_file_name (Some name) (replicate 256 NUL)"
  have n: "cstr ?n = Some (take 255 name)" "length ?n = 256"
    using set_file_name_cstr [of "replicate 256 NUL" name] assms(3) by simp_all
  then have "NUL \<in> set ?n" by (auto simp: cstr_def split: if_splits)
  then obtain lr where "lr_init B junk ?n src = Some lr" "lr_inv B lr" "text_left lr = drop_bom src" "file_line lr = 0"
    "lr_file_name lr = ?n"
    using lr_init_spec [OF assms(1,2) n(2)] by blast
  then show ?thesis using n assms(4)
    by (simp add: LineReader_open_def open_file_def max_file_name_length_def)
qed

text \<open>However the bytes reach the reader, it is the reader of a file with these bytes.\<close>

lemma LineReader_open_source:
  assumes "fopen name = Inr src"
  shows "LineReader_open B fopen junk name = LineReader_source B junk (Some name) src"
  using assms by (simp add: LineReader_open_def open_file_def LineReader_source_def)

lemma LineReader_constructors_agree:
  assumes "fopen name = Inr src"
  shows "LineReader_data B junk (Some name) (pre @ src @ post) (length pre) (length pre + length src) =
      LineReader_open B fopen junk name"
    and "LineReader_file B junk (Some name) \<lparr>contents = pre @ src, position = length pre\<rparr> =
      LineReader_open B fopen junk name"
    and "LineReader_istream B junk (Some name) \<lparr>contents = pre @ src, position = length pre\<rparr> =
      LineReader_open B fopen junk name"
  by (simp_all add: LineReader_open_source [where fopen = fopen, OF assms] LineReader_data_def LineReader_file_def LineReader_istream_def)

lemma lr_set_file_name_keeps:
  assumes "lr_inv B lr" "\<And>s. name = Some s \<Longrightarrow> NUL \<notin> set s"
  shows "lr_inv B (lr_set_file_name name lr)" "text_left (lr_set_file_name name lr) = text_left lr"
    "cstr (get_truncated_file_name (lr_set_file_name name lr)) = Some (case name of None \<Rightarrow> [] | Some s \<Rightarrow> take 255 s)"
proof -
  have len: "length (lr_file_name lr) = 256" using assms(1) by (simp add: lr_inv_def)
  have n: "cstr (set_file_name name (lr_file_name lr)) = Some (case name of None \<Rightarrow> [] | Some s \<Rightarrow> take 255 s)"
    "length (set_file_name name (lr_file_name lr)) = 256"
  proof -
    have "cstr ((lr_file_name lr)[0 := NUL]) = Some []"
      using len by (cases "lr_file_name lr") (auto simp: cstr_def)
    then show "cstr (set_file_name name (lr_file_name lr)) = Some (case name of None \<Rightarrow> [] | Some s \<Rightarrow> take 255 s)"
      "length (set_file_name name (lr_file_name lr)) = 256"
      using assms(2) set_file_name_cstr [OF len] len by (cases name; simp add: set_file_name_def)+
  qed
  then have "NUL \<in> set (set_file_name name (lr_file_name lr))" by (auto simp: cstr_def split: if_splits)
  then show "lr_inv B (lr_set_file_name name lr)"
    using assms(1) n(2) by (auto simp: lr_inv_def lr_set_file_name_def source_left_def)
  show "text_left (lr_set_file_name name lr) = text_left lr"
    by (simp add: text_left_def lr_set_file_name_def source_left_def)
  show "cstr (get_truncated_file_name (lr_set_file_name name lr)) = Some (case name of None \<Rightarrow> [] | Some s \<Rightarrow> take 255 s)"
    using n(1) by (simp add: get_truncated_file_name_def lr_set_file_name_def)
qed

section \<open>Properties\<close>

text \<open>
  C21: one call of \<^verbatim>\<open>next_line\<close>. At the end of the input it returns a null pointer and changes nothing; a
  line of fewer than \<^verbatim>\<open>block_len\<close> bytes is returned with its end (and a carriage return before it) turned
  into NUL, the state then stands before the next line and the line number is one higher; a longer
  line raises \<^verbatim>\<open>line_length_limit_exceeded\<close> with the number of the line. It never leaves the buffer,
  never fails an assertion and never waits for a read that is not under way.
\<close>

theorem next_line_spec:
  assumes "lr_inv B lr"
  shows "if text_left lr = [] then next_line B lr = ret (None, lr)
    else if length (first_line (text_left lr)) < B then
      \<exists>p lr'. next_line B lr = ret (Some p, lr') \<and> lr_inv B lr' \<and> text_left lr' = after_line (text_left lr) \<and>
        line_memory p lr' = line_bytes (first_line (text_left lr)) \<and> file_line lr' = file_line lr + 1 \<and>
        lr_file_name lr' = lr_file_name lr
    else \<exists>e. next_line B lr = throw e \<and> kind e = line_length_limit_exceeded \<and>
      err_file_line e = sint (file_line lr + 1)"
  using next_line_at_end [OF assms] next_line_ok [OF assms] next_line_long [OF assms] by simp

theorem next_line_spec_witness:
  "\<exists>p lr'. next_line 4 \<lparr>lr_buffer = ''ab'' @ [CR, NL] @ ''c'' @ replicate 7 NUL, data_begin = 0, data_end = 5,
       reader = None, lr_file_name = replicate 256 NUL, file_line = 0\<rparr> = ret (Some p, lr') \<and>
     line_memory p lr' = ''ab'' @ [NUL, NUL] \<and> text_left lr' = ''c''"
proof -
  let ?lr = "\<lparr>lr_buffer = ''ab'' @ [CR, NL] @ ''c'' @ replicate 7 NUL, data_begin = 0, data_end = 5,
       reader = None, lr_file_name = replicate 256 NUL, file_line = 0\<rparr>"
  have inv: "lr_inv 4 ?lr" by (simp add: lr_inv_def source_left_def)
  have t: "text_left ?lr = ''ab'' @ [CR, NL] @ ''c''"
    by (simp add: text_left_def source_left_def eval_nat_numeral)
  define lr where "lr = ?lr"
  have "if text_left lr = [] then next_line 4 lr = ret (None, lr)
    else if length (first_line (text_left lr)) < 4 then
      \<exists>p lr'. next_line 4 lr = ret (Some p, lr') \<and> lr_inv 4 lr' \<and> text_left lr' = after_line (text_left lr) \<and>
        line_memory p lr' = line_bytes (first_line (text_left lr)) \<and> file_line lr' = file_line lr + 1 \<and>
        lr_file_name lr' = lr_file_name lr
    else \<exists>e. next_line 4 lr = throw e \<and> kind e = line_length_limit_exceeded \<and>
      err_file_line e = sint (file_line lr + 1)"
    using next_line_spec [OF inv] unfolding lr_def .
  then have "\<exists>p lr'. next_line 4 lr = ret (Some p, lr') \<and> line_memory p lr' = ''ab'' @ [NUL, NUL] \<and>
      text_left lr' = ''c''"
    using t [folded lr_def] by (auto simp: first_line_def after_line_def line_bytes_def)
  then show ?thesis unfolding lr_def .
qed

text \<open>
  C22: a client that opens a file and calls \<^verbatim>\<open>next_line\<close> until the null pointer gets exactly the lines of
  the file, without a leading byte order mark and without line ends, each cut at its first NUL byte,
  whenever every line is shorter than a block; \<open>length src + 1\<close> calls are enough.
\<close>

theorem LineReader_reads_lines:
  assumes "2 \<le> B" "length junk = 3 * B" "NUL \<notin> set name" "fopen name = Inr src"
    and "lines_fit B (drop_bom src)" "length src < n"
  shows "\<exists>lr. LineReader_open B fopen junk name = ret lr \<and>
    read_lines n B lr = ret (map until_nul (split_text (drop_bom src)))"
proof -
  obtain lr where lr: "LineReader_open B fopen junk name = ret lr" "lr_inv B lr" "text_left lr = drop_bom src"
    using LineReader_open_spec [of B junk name fopen src, OF assms(1-4)] by blast
  have "length (drop_bom src) \<le> length src" by (simp add: drop_bom_def)
  then show ?thesis using lr read_lines_fit [OF lr(2)] assms(5,6) by auto
qed

theorem LineReader_reads_lines_witness:
  "\<exists>lr. LineReader_open 4 (\<lambda>_. Inr (''ab'' @ [CR, NL, NL] @ ''cde'')) (replicate 12 NUL) ''x'' = ret lr \<and>
     read_lines 9 4 lr = ret [''ab'', [], ''cde'']"
proof -
  have b: "drop_bom (''ab'' @ [CR, NL, NL] @ ''cde'') = ''ab'' @ [CR, NL, NL] @ ''cde''"
    by (simp add: drop_bom_def)
  have "split_text (''ab'' @ [CR, NL, NL] @ ''cde'') = [''ab'', [], ''cde'']"
    by (simp add: split_text.simps first_line_def after_line_def strip_cr_def)
  moreover have "lines_fit 4 (''ab'' @ [CR, NL, NL] @ ''cde'')"
    by (simp add: lines_fit.simps first_line_def after_line_def)
  ultimately show ?thesis
    using LineReader_reads_lines [of 4 "replicate 12 NUL" "''x''" "\<lambda>_. Inr (''ab'' @ [CR, NL, NL] @ ''cde'')"
        "''ab'' @ [CR, NL, NL] @ ''cde''" 9] b by simp
qed

text \<open>
  C23: reading a file always ends: after at most \<open>length src + 1\<close> calls the client has seen the null
  pointer or the length exception, and it sees the exception exactly when some line does not fit in a
  block.
\<close>

theorem LineReader_terminates:
  assumes "2 \<le> B" "length junk = 3 * B" "NUL \<notin> set name" "fopen name = Inr src" "length src < n"
  shows "\<exists>lr. LineReader_open B fopen junk name = ret lr \<and> read_lines n B lr \<noteq> None \<and>
    ((\<exists>e. read_lines n B lr = throw e) \<longleftrightarrow> \<not> lines_fit B (drop_bom src))"
proof -
  obtain lr where lr: "LineReader_open B fopen junk name = ret lr" "lr_inv B lr" "text_left lr = drop_bom src"
    using LineReader_open_spec [of B junk name fopen src, OF assms(1-4)] by blast
  have "length (drop_bom src) < n" using assms(5) by (auto simp: drop_bom_def)
  then show ?thesis
    using lr read_lines_fit [OF lr(2), of n] read_lines_long [OF lr(2), of n]
    by (cases "lines_fit B (drop_bom src)") (auto simp: ret_def throw_def)
qed

theorem LineReader_terminates_witness:
  "\<exists>lr e. LineReader_open 2 (\<lambda>_. Inr ''abc'') (replicate 6 NUL) ''x'' = ret lr \<and> read_lines 4 2 lr = throw e"
  using LineReader_terminates [of 2 "replicate 6 NUL" "''x''" "\<lambda>_. Inr ''abc''" "''abc''" 4]
  by (auto simp: drop_bom_def lines_fit.simps first_line_def)

end
