(* ===== verification/Csv_Async.thy ===== *)
theory Csv_Async
  imports Csv_Line_Reader
begin

text \<open>
  The two readers of \<^verbatim>\<open>src/src/csv.h\<close> (lines 228 to 353): \<^verbatim>\<open>AsynchronousReader\<close>, whose worker thread fills the
  third block while the caller works on the first two, and \<^verbatim>\<open>SynchronousReader\<close>.

  Every access to the members of \<^verbatim>\<open>AsynchronousReader\<close> happens under its lock and the worker gives the lock
  up only in its wait, so the steps of the two threads are atomic: one round of the worker's loop, and one
  call of \<^verbatim>\<open>start_read\<close> or the end of one of \<^verbatim>\<open>finish_read\<close>. \<open>rd\<close> is the \<^verbatim>\<open>read\<close> of the byte source; \<open>None\<close> is an
  exception.
\<close>

section \<open>The readers\<close>

record 's AsynchronousReader =
  ar_byte_source :: 's
  desired_byte_count :: int
  read_byte_count :: int
  termination_requested :: bool
  read_error :: bool
  ar_block :: "char list"
  worker_running :: bool

text \<open>\<^verbatim>\<open>init\<close>; \<open>c\<close> is what \<^verbatim>\<open>read_byte_count\<close> holds before the first request.\<close>

definition async_init :: "int \<Rightarrow> 's \<Rightarrow> 's AsynchronousReader" where
  "async_init c s = \<lparr>ar_byte_source = s, desired_byte_count = -1, read_byte_count = c, termination_requested = False,
     read_error = False, ar_block = [], worker_running = True\<rparr>"

text \<open>One round of the worker; \<open>None\<close> while it waits and after it has ended.\<close>

definition worker_round :: "(nat \<Rightarrow> 's \<Rightarrow> (char list \<times> 's) option) \<Rightarrow> 's AsynchronousReader \<Rightarrow> 's AsynchronousReader option" where
  "worker_round rd a =
     (if \<not> worker_running a \<or> \<not> (desired_byte_count a \<noteq> -1 \<or> termination_requested a) then None
      else if termination_requested a then Some (a\<lparr>worker_running := False\<rparr>)
      else case rd (nat (desired_byte_count a)) (ar_byte_source a) of
             None \<Rightarrow> Some (a\<lparr>read_error := True, worker_running := False\<rparr>)
           | Some (bs, s') \<Rightarrow>
               Some (a\<lparr>ar_byte_source := s', ar_block := bs, read_byte_count := int (length bs), desired_byte_count := -1,
                      worker_running := (bs \<noteq> [])\<rparr>))"

definition async_start_read :: "nat \<Rightarrow> 's AsynchronousReader \<Rightarrow> 's AsynchronousReader" where
  "async_start_read n a = a\<lparr>desired_byte_count := int n, read_byte_count := -1\<rparr>"

text \<open>\<^verbatim>\<open>finish_read\<close>: \<open>None\<close> while it waits, then the exception or the number of bytes.\<close>

definition async_finish_read :: "'s AsynchronousReader \<Rightarrow> (unit + int) option" where
  "async_finish_read a =
     (if \<not> (read_byte_count a \<noteq> -1 \<or> read_error a) then None
      else if read_error a then Some (Inl ()) else Some (Inr (read_byte_count a)))"

definition async_terminate :: "'s AsynchronousReader \<Rightarrow> 's AsynchronousReader" where
  "async_terminate a = a\<lparr>termination_requested := True\<rparr>"

text \<open>\<^verbatim>\<open>SynchronousReader\<close>: the request is kept and carried out by \<^verbatim>\<open>finish_read\<close>.\<close>

record 's SynchronousReader =
  sr_byte_source :: 's
  sr_desired :: nat

definition sync_start_read :: "nat \<Rightarrow> 's SynchronousReader \<Rightarrow> 's SynchronousReader" where
  "sync_start_read n r = r\<lparr>sr_desired := n\<rparr>"

definition sync_finish_read :: "(nat \<Rightarrow> 's \<Rightarrow> (char list \<times> 's) option) \<Rightarrow> 's SynchronousReader \<Rightarrow>
    (char list \<times> 's SynchronousReader) option" where
  "sync_finish_read rd r =
     (case rd (sr_desired r) (sr_byte_source r) of
        None \<Rightarrow> None
      | Some (bs, s') \<Rightarrow> Some (bs, r\<lparr>sr_byte_source := s'\<rparr>))"

section \<open>A client with the two threads\<close>

text \<open>
  The client makes the requests of \<open>todo\<close> one after the other, as \<^verbatim>\<open>LineReader\<close> does; \<open>blocks\<close> are the bytes it
  has received, \<open>failed\<close> says that \<^verbatim>\<open>finish_read\<close> has thrown.
\<close>

record 's client =
  shared :: "'s AsynchronousReader"
  todo :: "nat list"
  pending :: bool
  blocks :: "char list list"
  failed :: bool

inductive client_step :: "(nat \<Rightarrow> 's \<Rightarrow> (char list \<times> 's) option) \<Rightarrow> 's client \<Rightarrow> 's client \<Rightarrow> bool"
  for rd :: "nat \<Rightarrow> 's \<Rightarrow> (char list \<times> 's) option" where
  worker: "worker_round rd (shared y) = Some a \<Longrightarrow> client_step rd y (y\<lparr>shared := a\<rparr>)"
| start: "\<not> pending y \<Longrightarrow> \<not> failed y \<Longrightarrow> todo y = n # ns \<Longrightarrow>
     client_step rd y (y\<lparr>shared := async_start_read n (shared y), pending := True\<rparr>)"
| finish: "pending y \<Longrightarrow> async_finish_read (shared y) = Some (Inr k) \<Longrightarrow> todo y = n # ns \<Longrightarrow>
     client_step rd y (y\<lparr>pending := False, todo := ns, blocks := blocks y @ [ar_block (shared y)]\<rparr>)"
| throw_error: "pending y \<Longrightarrow> async_finish_read (shared y) = Some (Inl u) \<Longrightarrow>
     client_step rd y (y\<lparr>pending := False, failed := True\<rparr>)"

abbreviation client_reach :: "(nat \<Rightarrow> 's \<Rightarrow> (char list \<times> 's) option) \<Rightarrow> 's client \<Rightarrow> 's client \<Rightarrow> bool" where
  "client_reach rd \<equiv> reachable (client_step rd)"

definition new_client :: "int \<Rightarrow> 's \<Rightarrow> nat list \<Rightarrow> 's client" where
  "new_client c s ns = \<lparr>shared = async_init c s, todo = ns, pending = False, blocks = [], failed = False\<rparr>"

text \<open>The same requests made to the synchronous reader: the blocks read, and the reader, or the exception.\<close>

fun sync_reads :: "(nat \<Rightarrow> 's \<Rightarrow> (char list \<times> 's) option) \<Rightarrow> nat list \<Rightarrow> 's SynchronousReader \<Rightarrow>
    (char list list \<times> 's SynchronousReader) option" where
  "sync_reads rd [] r = Some ([], r)"
| "sync_reads rd (n # ns) r =
     (case sync_finish_read rd (sync_start_read n r) of
        None \<Rightarrow> None
      | Some (bs, r') \<Rightarrow> map_option (\<lambda>(bss, r''). (bs # bss, r'')) (sync_reads rd ns r'))"

section \<open>Equivalence\<close>

lemma sync_reads_append:
  "sync_reads rd (ns @ [n]) r =
     (case sync_reads rd ns r of
        None \<Rightarrow> None
      | Some (bss, r') \<Rightarrow> (case rd n (sr_byte_source r') of
                            None \<Rightarrow> None
                          | Some (bs, s') \<Rightarrow> Some (bss @ [bs], r'\<lparr>sr_desired := n, sr_byte_source := s'\<rparr>)))"
  by (induction ns arbitrary: r)
     (auto simp: sync_finish_read_def sync_start_read_def split: option.splits prod.splits)

text \<open>
  The invariant: the finished requests gave what the synchronous reader gives, and the pending one is either
  not yet carried out, or carried out and its block in place, or has failed.
\<close>

definition client_phase :: "(nat \<Rightarrow> 's \<Rightarrow> (char list \<times> 's) option) \<Rightarrow> 's SynchronousReader \<Rightarrow> 's client \<Rightarrow> bool" where
  "client_phase rd r y \<longleftrightarrow>
     (if pending y then
        \<exists>n ms. todo y = n # ms \<and> \<not> failed y \<and>
          (if read_error (shared y) then rd n (sr_byte_source r) = None
           else if desired_byte_count (shared y) \<noteq> -1
           then desired_byte_count (shared y) = int n \<and> ar_byte_source (shared y) = sr_byte_source r \<and>
                read_byte_count (shared y) = -1
           else rd n (sr_byte_source r) = Some (ar_block (shared y), ar_byte_source (shared y)) \<and>
                read_byte_count (shared y) = int (length (ar_block (shared y))))
      else if failed y then (\<exists>n ms. todo y = n # ms \<and> rd n (sr_byte_source r) = None) \<and> read_error (shared y)
      else \<not> read_error (shared y) \<and> desired_byte_count (shared y) = -1 \<and>
           ar_byte_source (shared y) = sr_byte_source r)"

definition worker_ok :: "'s client \<Rightarrow> bool" where
  "worker_ok y \<longleftrightarrow> \<not> termination_requested (shared y) \<and> (read_error (shared y) \<longrightarrow> \<not> worker_running (shared y)) \<and>
     (worker_running (shared y) \<or> read_error (shared y) \<or> [] \<in> set (blocks y) \<or>
        (pending y \<and> ar_block (shared y) = [] \<and> desired_byte_count (shared y) = -1))"

definition client_inv :: "(nat \<Rightarrow> 's \<Rightarrow> (char list \<times> 's) option) \<Rightarrow> nat list \<Rightarrow> 's SynchronousReader \<Rightarrow> 's client \<Rightarrow> bool" where
  "client_inv rd ns r0 y \<longleftrightarrow>
     (\<exists>xs r. ns = xs @ todo y \<and> sync_reads rd xs r0 = Some (blocks y, r) \<and> worker_ok y \<and> client_phase rd r y)"

lemma client_invI:
  "ns = xs @ todo y \<Longrightarrow> sync_reads rd xs r0 = Some (blocks y, r) \<Longrightarrow> worker_ok y \<Longrightarrow> client_phase rd r y \<Longrightarrow>
   client_inv rd ns r0 y"
  unfolding client_inv_def by blast

lemma client_inv_init: "client_inv rd ns \<lparr>sr_byte_source = s, sr_desired = d\<rparr> (new_client c s ns)"
  by (rule client_invI [of _ "[]" _ _ _ "\<lparr>sr_byte_source = s, sr_desired = d\<rparr>"])
     (simp_all add: new_client_def async_init_def worker_ok_def client_phase_def)

text \<open>The worker only acts on a pending request.\<close>

lemma worker_acts:
  assumes "worker_ok y" "client_phase rd r y" "worker_round rd (shared y) = Some a"
  obtains n ms where "pending y" "todo y = n # ms" "\<not> failed y" "\<not> read_error (shared y)"
    "\<not> termination_requested (shared y)"
    "a = (case rd n (sr_byte_source r) of
            None \<Rightarrow> (shared y)\<lparr>read_error := True, worker_running := False\<rparr>
          | Some (bs, s') \<Rightarrow> (shared y)\<lparr>ar_byte_source := s', ar_block := bs, read_byte_count := int (length bs),
              desired_byte_count := -1, worker_running := (bs \<noteq> [])\<rparr>)"
proof -
  have run: "worker_running (shared y)" "desired_byte_count (shared y) \<noteq> -1" "\<not> read_error (shared y)"
      "\<not> termination_requested (shared y)"
    using assms(1,3) by (auto simp: worker_round_def worker_ok_def split: if_splits)
  then have "pending y" using assms(2) by (auto simp: client_phase_def split: if_splits)
  then obtain n ms where n: "todo y = n # ms" "\<not> failed y" "desired_byte_count (shared y) = int n"
    "ar_byte_source (shared y) = sr_byte_source r"
    using assms(2) run by (auto simp: client_phase_def)
  then show thesis
    using that [of n ms] \<open>pending y\<close> run assms(3) by (simp add: worker_round_def split: option.splits prod.splits)
qed

lemma client_inv_worker:
  assumes inv: "client_inv rd ns r0 y" and w: "worker_round rd (shared y) = Some a"
  shows "client_inv rd ns r0 (y\<lparr>shared := a\<rparr>)"
proof -
  obtain xs r where x: "ns = xs @ todo y" "sync_reads rd xs r0 = Some (blocks y, r)" "worker_ok y" "client_phase rd r y"
    using inv unfolding client_inv_def by blast
  obtain n ms where n: "pending y" "todo y = n # ms" "\<not> failed y" "\<not> read_error (shared y)"
    "\<not> termination_requested (shared y)"
    "a = (case rd n (sr_byte_source r) of
            None \<Rightarrow> (shared y)\<lparr>read_error := True, worker_running := False\<rparr>
          | Some (bs, s') \<Rightarrow> (shared y)\<lparr>ar_byte_source := s', ar_block := bs, read_byte_count := int (length bs),
              desired_byte_count := -1, worker_running := (bs \<noteq> [])\<rparr>)"
    by (rule worker_acts [OF x(3,4) w])
  have "worker_ok (y\<lparr>shared := a\<rparr>)" "client_phase rd r (y\<lparr>shared := a\<rparr>)"
    using n by (auto simp: worker_ok_def client_phase_def split: option.splits prod.splits)
  then show ?thesis using x(1,2) by (intro client_invI [of _ xs _ _ _ r]) simp_all
qed

lemma client_inv_finish:
  assumes inv: "client_inv rd ns r0 y" and f: "pending y" "async_finish_read (shared y) = Some (Inr k)" "todo y = n # ms"
  shows "client_inv rd ns r0 (y\<lparr>pending := False, todo := ms, blocks := blocks y @ [ar_block (shared y)]\<rparr>)"
proof -
  obtain xs r where x: "ns = xs @ n # ms" "sync_reads rd xs r0 = Some (blocks y, r)" "worker_ok y" "client_phase rd r y"
    using inv f(3) unfolding client_inv_def by auto
  have e0: "\<not> read_error (shared y)" "read_byte_count (shared y) \<noteq> -1"
    using f(2) by (auto simp: async_finish_read_def split: if_splits)
  then have e: "\<not> failed y" "desired_byte_count (shared y) = -1"
      "rd n (sr_byte_source r) = Some (ar_block (shared y), ar_byte_source (shared y))"
    using x(4) f(1,3) by (auto simp: client_phase_def split: if_splits)
  let ?r = "r\<lparr>sr_desired := n, sr_byte_source := ar_byte_source (shared y)\<rparr>"
  have "sync_reads rd (xs @ [n]) r0 = Some (blocks y @ [ar_block (shared y)], ?r)"
    using x(2) e(3) by (simp add: sync_reads_append)
  then show ?thesis
    using x e0 e by (intro client_invI [of _ "xs @ [n]" _ _ _ ?r]) (auto simp: worker_ok_def client_phase_def)
qed

lemma client_inv_step:
  assumes inv: "client_inv rd ns r0 y" and step: "client_step rd y z"
  shows "client_inv rd ns r0 z"
  using step
proof cases
  case (worker a)
  then show ?thesis using client_inv_worker [OF inv] by simp
next
  case (start n ms)
  obtain xs r where x: "ns = xs @ todo y" "sync_reads rd xs r0 = Some (blocks y, r)" "worker_ok y" "client_phase rd r y"
    using inv unfolding client_inv_def by blast
  then show ?thesis unfolding start(1) using start(2-)
    by (intro client_invI [of _ xs _ _ _ r]) (auto simp: async_start_read_def worker_ok_def client_phase_def)
next
  case (finish k n ms)
  then show ?thesis using client_inv_finish [OF inv] by simp
next
  case (throw_error u)
  obtain xs r where x: "ns = xs @ todo y" "sync_reads rd xs r0 = Some (blocks y, r)" "worker_ok y" "client_phase rd r y"
    using inv unfolding client_inv_def by blast
  have "read_error (shared y)" using throw_error(3) by (auto simp: async_finish_read_def split: if_splits)
  then show ?thesis unfolding throw_error(1) using throw_error(2) x
    by (intro client_invI [of _ xs _ _ _ r]) (auto simp: worker_ok_def client_phase_def)
qed

lemma length_sync_reads: "sync_reads rd ns r = Some (bss, r') \<Longrightarrow> length bss = length ns"
  by (induction ns arbitrary: r bss) (auto split: option.splits prod.splits)

text \<open>
  While no empty block has been read, a client that is not done can go on: it starts the next request, or the
  worker carries out the pending one, or the client takes its result.
\<close>

lemma client_progress:
  assumes inv: "client_inv rd ns r0 y" and y: "todo y \<noteq> []" "\<not> failed y" "[] \<notin> set (blocks y)"
  shows "\<exists>z. client_step rd y z"
proof -
  obtain xs r where x: "worker_ok y" "client_phase rd r y" using inv unfolding client_inv_def by blast
  obtain n ms where n: "todo y = n # ms" using y(1) by (cases "todo y") auto
  show ?thesis
  proof (cases "pending y")
    case False
    then show ?thesis using start [OF False y(2) n] by blast
  next
    case True
    consider (err) "read_error (shared y)" | (ready) "\<not> read_error (shared y)" "desired_byte_count (shared y) = -1"
      | (wait) "\<not> read_error (shared y)" "desired_byte_count (shared y) \<noteq> -1" by blast
    then show ?thesis
    proof cases
      case err
      then have "async_finish_read (shared y) = Some (Inl ())" by (simp add: async_finish_read_def)
      then show ?thesis using throw_error [OF True] by blast
    next
      case ready
      then have "async_finish_read (shared y) = Some (Inr (read_byte_count (shared y)))"
        using x(2) True n by (auto simp: async_finish_read_def client_phase_def)
      then show ?thesis using finish [OF True _ n] by blast
    next
      case wait
      then have "worker_running (shared y)" using x(1) y(3) by (auto simp: worker_ok_def)
      then have "\<exists>a. worker_round rd (shared y) = Some a"
        using wait by (auto simp: worker_round_def split: option.splits)
      then show ?thesis using worker by blast
    qed
  qed
qed

interpretation async: live_system "client_step rd" "new_client c s ns"
  "client_inv rd ns \<lparr>sr_byte_source = s, sr_desired = d\<rparr>" "\<lambda>y. todo y = [] \<or> failed y \<or> [] \<in> set (blocks y)"
  by unfold_locales (auto intro: client_inv_init client_inv_step client_progress)

text \<open>
  C20: the asynchronous reader is equivalent to the synchronous one. In every interleaving of the caller and
  the worker, the blocks the caller has received are those the synchronous reader returns for the same
  requests, and it sees an exception only where the synchronous reader throws. The two threads never block
  each other before the source is exhausted: until a read returns no bytes, a caller that is not done can
  always make a step.
\<close>

theorem async_reader_equivalent:
  assumes "client_reach rd (new_client c s ns) y"
  shows "(\<exists>r. sync_reads rd (take (length (blocks y)) ns) \<lparr>sr_byte_source = s, sr_desired = d\<rparr> = Some (blocks y, r)) \<and>
    (failed y \<longrightarrow> sync_reads rd (take (length (blocks y) + 1) ns) \<lparr>sr_byte_source = s, sr_desired = d\<rparr> = None) \<and>
    (length (blocks y) < length ns \<and> \<not> failed y \<and> [] \<notin> set (blocks y) \<longrightarrow> (\<exists>z. client_step rd y z))"
proof -
  let ?r0 = "\<lparr>sr_byte_source = s, sr_desired = d\<rparr>"
  have inv: "client_inv rd ns ?r0 y" by (rule async.reachable_inv [OF assms])
  obtain xs r where x: "ns = xs @ todo y" "sync_reads rd xs ?r0 = Some (blocks y, r)" "client_phase rd r y"
    using inv unfolding client_inv_def by blast
  have len: "length (blocks y) = length xs" by (rule length_sync_reads [OF x(2)])
  have "sync_reads rd (take (length (blocks y) + 1) ns) ?r0 = None" if fy: "failed y"
  proof -
    obtain n ms where n: "todo y = n # ms" "rd n (sr_byte_source r) = None"
      using x(3) fy by (auto simp: client_phase_def split: if_splits)
    then have "take (length (blocks y) + 1) ns = xs @ [n]" using x(1) len by simp
    then show ?thesis using x(2) n(2) by (simp add: sync_reads_append)
  qed
  moreover have "\<exists>z. client_step rd y z" if "length (blocks y) < length ns" "\<not> failed y" "[] \<notin> set (blocks y)"
    using async.never_stuck [OF assms] that x(1) len by auto
  ultimately show ?thesis using x(1,2) len by auto
qed

theorem async_reader_equivalent_witness:
  "\<exists>z. client_step stream_read
     (new_client 0 \<lparr>contents = ''abcd'', position = 0\<rparr> [3, 3] :: file_stream client) z"
  using async_reader_equivalent [OF reachable_init, of stream_read 0 "\<lparr>contents = ''abcd'', position = 0\<rparr>" "[3, 3]"]
  by (auto simp: new_client_def)

end
