(* ===== verification/Csv_Columns.thy ===== *)
theory Csv_Columns
  imports Csv_Error
begin

text \<open>
  Cutting a line into columns: the policies and \<^verbatim>\<open>parse_line\<close>, \<^verbatim>\<open>parse_header_line\<close> of
  \<^verbatim>\<open>src/src/csv.h\<close> (lines 762 to 1057).

  The code cuts in place. The memory is the list of its bytes and a pointer is an index into it; an access
  outside is \<open>None\<close>. A policy class is a record of its functions (\<open>quote_policy_ops\<close>) or, for the two
  templates over characters, the list of the characters. The locale \<open>quote_policy\<close> is the contract that
  \<^verbatim>\<open>parse_line\<close> and \<^verbatim>\<open>parse_header_line\<close> rely on; both policies of the header are interpretations of it.
\<close>

section \<open>Policies\<close>

definition ignore_no_column :: u32 where "ignore_no_column = 0"
definition ignore_extra_column :: u32 where "ignore_extra_column = 1"
definition ignore_missing_column :: u32 where "ignore_missing_column = 2"

definition at :: "char list \<Rightarrow> nat \<Rightarrow> char option" where
  "at mem p = (if p < length mem then Some (mem ! p) else None)"

fun is_trim_char :: "char \<Rightarrow> char list \<Rightarrow> bool" where
  "is_trim_char c [] = False"
| "is_trim_char c (trim_char # other_trim_chars) = (c = trim_char \<or> is_trim_char c other_trim_chars)"

text \<open>The two loops of \<^verbatim>\<open>trim\<close>; each ends when the pointers meet.\<close>

function trim_front :: "char list \<Rightarrow> char list \<Rightarrow> nat \<Rightarrow> nat \<Rightarrow> nat option" where
  "trim_front tcs mem b e =
     (if b = e then Some b
      else case at mem b of
             None \<Rightarrow> None
           | Some c \<Rightarrow> if is_trim_char c tcs then trim_front tcs mem (b + 1) e else Some b)"
  by pat_completeness auto
termination
  by (relation "measure (\<lambda>(tcs, mem, b, e). length mem - b)") (auto simp: at_def split: if_splits)

function trim_back :: "char list \<Rightarrow> char list \<Rightarrow> nat \<Rightarrow> nat \<Rightarrow> nat option" where
  "trim_back tcs mem b e =
     (if b = e then Some e
      else if e = 0 then None
      else case at mem (e - 1) of
             None \<Rightarrow> None
           | Some c \<Rightarrow> if is_trim_char c tcs then trim_back tcs mem b (e - 1) else Some e)"
  by pat_completeness auto
termination
  by (relation "measure (\<lambda>(tcs, mem, b, e). e)") auto

declare trim_front.simps [simp del] trim_back.simps [simp del]

definition trim :: "char list \<Rightarrow> char list \<Rightarrow> nat \<Rightarrow> nat \<Rightarrow> (char list \<times> nat \<times> nat) option" where
  "trim tcs mem b e =
     (case trim_front tcs mem b e of
        None \<Rightarrow> None
      | Some b' \<Rightarrow>
          (case trim_back tcs mem b' e of
             None \<Rightarrow> None
           | Some e' \<Rightarrow> if e' < length mem then Some (mem[e' := NUL], b', e') else None))"

text \<open>Comment policies: the first byte of the line, or a line of blanks.\<close>

definition no_comment :: "char list \<Rightarrow> nat \<Rightarrow> bool option" where
  "no_comment mem line = Some False"

fun is_comment_start_char :: "char \<Rightarrow> char list \<Rightarrow> bool" where
  "is_comment_start_char c [] = False"
| "is_comment_start_char c (s # other) = (c = s \<or> is_comment_start_char c other)"

definition single_line_comment :: "char list \<Rightarrow> char list \<Rightarrow> nat \<Rightarrow> bool option" where
  "single_line_comment starts mem line =
     (case at mem line of None \<Rightarrow> None | Some c \<Rightarrow> Some (is_comment_start_char c starts))"

function blank_loop :: "char list \<Rightarrow> nat \<Rightarrow> bool option" where
  "blank_loop mem line =
     (case at mem line of
        None \<Rightarrow> None
      | Some c \<Rightarrow>
          if c = CHR '' '' \<or> c = CHR 0x09 then
            (case at mem (line + 1) of
               None \<Rightarrow> None
             | Some d \<Rightarrow> if d = NUL then Some True else blank_loop mem (line + 1))
          else Some False)"
  by pat_completeness auto
termination
  by (relation "measure (\<lambda>(mem, line). length mem - line)") (auto simp: at_def split: if_splits)

declare blank_loop.simps [simp del]

definition empty_line_comment :: "char list \<Rightarrow> nat \<Rightarrow> bool option" where
  "empty_line_comment mem line =
     (case at mem line of
        None \<Rightarrow> None
      | Some c \<Rightarrow> if c = NUL then Some True else blank_loop mem line)"

definition single_and_empty_line_comment :: "char list \<Rightarrow> char list \<Rightarrow> nat \<Rightarrow> bool option" where
  "single_and_empty_line_comment starts mem line =
     (case single_line_comment starts mem line of
        None \<Rightarrow> None
      | Some True \<Rightarrow> Some True
      | Some False \<Rightarrow> empty_line_comment mem line)"

text \<open>A quote policy: \<^verbatim>\<open>find_next_column_end\<close> and \<^verbatim>\<open>unescape\<close>.\<close>

record quote_policy_ops =
  find_next_column_end :: "char list \<Rightarrow> nat \<Rightarrow> nat res"
  unescape :: "char list \<Rightarrow> nat \<Rightarrow> nat \<Rightarrow> (char list \<times> nat \<times> nat) option"

function no_quote_find :: "char \<Rightarrow> char list \<Rightarrow> nat \<Rightarrow> nat res" where
  "no_quote_find sep mem p =
     (case at mem p of
        None \<Rightarrow> None
      | Some c \<Rightarrow> if c \<noteq> sep \<and> c \<noteq> NUL then no_quote_find sep mem (p + 1) else ret p)"
  by pat_completeness auto
termination
  by (relation "measure (\<lambda>(sep, mem, p). length mem - p)") (auto simp: at_def split: if_splits)

definition no_quote_escape :: "char \<Rightarrow> quote_policy_ops" where
  "no_quote_escape sep =
     \<lparr>find_next_column_end = no_quote_find sep, unescape = (\<lambda>mem b e. Some (mem, b, e))\<rparr>"

text \<open>
  The \<^verbatim>\<open>do\<close> loop of \<^verbatim>\<open>double_quote_escape\<close>, from the byte behind the opening quote to the byte behind the
  closing one: an inner loop to the next quote, and another round when a quote follows.
\<close>

function skip_quoted :: "char \<Rightarrow> char list \<Rightarrow> nat \<Rightarrow> nat res" where
  "skip_quoted quote mem p =
     (case at mem p of
        None \<Rightarrow> None
      | Some c \<Rightarrow>
          if c \<noteq> quote then
            (if c = NUL then throw (new_error escaped_string_not_closed) else skip_quoted quote mem (p + 1))
          else
            (case at mem (p + 1) of
               None \<Rightarrow> None
             | Some d \<Rightarrow> if d = quote then skip_quoted quote mem (p + 2) else ret (p + 1)))"
  by pat_completeness auto
termination
  by (relation "measure (\<lambda>(quote, mem, p). length mem - p)") (auto simp: at_def split: if_splits)

declare no_quote_find.simps [simp del] skip_quoted.simps [simp del]

lemma skip_quoted_progress: "skip_quoted quote mem p = Some (Inr q) \<Longrightarrow> p < q \<and> p < length mem"
proof (induction "length mem - p" arbitrary: p rule: less_induct)
  case less
  have p: "p < length mem" using less.prems by (subst (asm) skip_quoted.simps) (auto simp: at_def split: if_splits)
  have IH: "p < q" if "p < k" "skip_quoted quote mem k = Some (Inr q)" for k
    using less.hyps [of k] that p by linarith
  show ?case
    using less.prems p IH [of "p + 1"] IH [of "p + 2"]
    by (subst (asm) skip_quoted.simps) (auto simp: ret_def throw_def at_def split: if_splits)
qed

function double_quote_find :: "char \<Rightarrow> char \<Rightarrow> char list \<Rightarrow> nat \<Rightarrow> nat res" where
  "double_quote_find sep quote mem p =
     (case at mem p of
        None \<Rightarrow> None
      | Some c \<Rightarrow>
          if c \<noteq> sep \<and> c \<noteq> NUL then
            (if c \<noteq> quote then double_quote_find sep quote mem (p + 1)
             else
               (case skip_quoted quote mem (p + 1) of
                  None \<Rightarrow> None
                | Some (Inl e) \<Rightarrow> throw e
                | Some (Inr q) \<Rightarrow> double_quote_find sep quote mem q))
          else ret p)"
  by pat_completeness auto
termination
  by (relation "measure (\<lambda>(sep, quote, mem, p). length mem - p)")
     (auto simp: at_def split: if_splits dest: skip_quoted_progress)

declare double_quote_find.simps [simp del]

text \<open>The copying loop of \<^verbatim>\<open>unescape\<close>; \<open>i\<close> is the source's \<^verbatim>\<open>in\<close>, \<open>out\<close> its \<^verbatim>\<open>out\<close>.\<close>

function unescape_loop :: "char \<Rightarrow> char list \<Rightarrow> nat \<Rightarrow> nat \<Rightarrow> nat \<Rightarrow> (char list \<times> nat) option" where
  "unescape_loop quote mem e i out =
     (if i = e then Some (mem, out)
      else if \<not> (i < length mem \<and> out < length mem) then None
      else
        let double = (mem ! i = quote \<and> i + 1 \<noteq> e \<and> at mem (i + 1) = Some quote);
            j = (if double then i + 1 else i)
        in unescape_loop quote (mem[out := mem ! j]) e (j + 1) (out + 1))"
  by pat_completeness auto
termination
  by (relation "measure (\<lambda>(quote, mem, e, i, out). length mem - i)") (auto simp: at_def Let_def split: if_splits)

declare unescape_loop.simps [simp del]

definition double_quote_unescape :: "char \<Rightarrow> char list \<Rightarrow> nat \<Rightarrow> nat \<Rightarrow> (char list \<times> nat \<times> nat) option" where
  "double_quote_unescape quote mem b e =
     (if b + 2 \<le> e then
        (case (at mem b, at mem (e - 1)) of
           (Some c, Some d) \<Rightarrow>
             if c = quote \<and> d = quote then
               (case unescape_loop quote mem (e - 1) (b + 1) (b + 1) of
                  None \<Rightarrow> None
                | Some (mem', out) \<Rightarrow> if out < length mem' then Some (mem'[out := NUL], b + 1, out) else None)
             else Some (mem, b, e)
         | _ \<Rightarrow> None)
      else Some (mem, b, e))"

definition double_quote_escape :: "char \<Rightarrow> char \<Rightarrow> quote_policy_ops" where
  "double_quote_escape sep quote =
     \<lparr>find_next_column_end = double_quote_find sep quote, unescape = double_quote_unescape quote\<rparr>"

section \<open>Lines\<close>

text \<open>The column's begin and end, the memory, and the rest of the line (\<open>None\<close> for the null pointer).\<close>

definition chop_next_column :: "quote_policy_ops \<Rightarrow> char list \<Rightarrow> nat \<Rightarrow> (char list \<times> nat \<times> nat \<times> nat option) res" where
  "chop_next_column qp mem line =
     res_bind (find_next_column_end qp mem line) (\<lambda>col_end.
       case at mem col_end of
         None \<Rightarrow> None
       | Some c \<Rightarrow>
           if c = NUL then ret (mem, line, col_end, None)
           else ret (mem[col_end := NUL], line, col_end, Some (col_end + 1)))"

text \<open>Trimming and unescaping one column: the new memory and the pointer to the content.\<close>

definition clean_column :: "char list \<Rightarrow> quote_policy_ops \<Rightarrow> char list \<Rightarrow> nat \<Rightarrow> nat \<Rightarrow> (char list \<times> nat) option" where
  "clean_column tcs qp mem b e =
     (case trim tcs mem b e of
        None \<Rightarrow> None
      | Some (mem1, b1, e1) \<Rightarrow>
          (case unescape qp mem1 b1 e1 of
             None \<Rightarrow> None
           | Some (mem2, b2, e2) \<Rightarrow> Some (mem2, b2)))"

text \<open>
  \<^verbatim>\<open>parse_line\<close>: the order of the columns (\<open>-1\<close> for one to skip) and the row of pointers. An index
  outside the row is \<open>None\<close>.
\<close>

fun parse_line :: "char list \<Rightarrow> quote_policy_ops \<Rightarrow> char list \<Rightarrow> nat option \<Rightarrow> nat option list \<Rightarrow> int list \<Rightarrow>
    (char list \<times> nat option list) res" where
  "parse_line tcs qp mem None sorted_col [] = ret (mem, sorted_col)"
| "parse_line tcs qp mem (Some line) sorted_col [] = throw (new_error too_many_columns)"
| "parse_line tcs qp mem None sorted_col (i # is) = throw (new_error too_few_columns)"
| "parse_line tcs qp mem (Some line) sorted_col (i # is) =
     res_bind (chop_next_column qp mem line) (\<lambda>(mem1, b, e, line').
       if i \<noteq> -1 then
         (case clean_column tcs qp mem1 b e of
            None \<Rightarrow> None
          | Some (mem2, p) \<Rightarrow>
              if 0 \<le> i \<and> nat i < length sorted_col
              then parse_line tcs qp mem2 line' (sorted_col[nat i := Some p]) is
              else None)
       else parse_line tcs qp mem1 line' sorted_col is)"

text \<open>
  \<^verbatim>\<open>parse_header_line\<close>: the search for the name, the loop over the columns of the line with the flags \<^verbatim>\<open>found\<close>
  and the order so far, and the check for missing columns. The first argument of the loop bounds the
  number of columns; one more than the bytes of the memory is enough.
\<close>

fun match_name :: "string \<Rightarrow> nat \<Rightarrow> string list \<Rightarrow> nat option" where
  "match_name s i [] = None"
| "match_name s i (n # ns) = (if s = n then Some i else match_name s (i + 1) ns)"

definition column_error :: "error_kind \<Rightarrow> string \<Rightarrow> csv_error" where
  "column_error k s =
     (let err = new_error k in err\<lparr>err_column_name := set_column_name (Some s) (err_column_name err)\<rparr>)"

fun header_loop :: "nat \<Rightarrow> char list \<Rightarrow> quote_policy_ops \<Rightarrow> string list \<Rightarrow> u32 \<Rightarrow> char list \<Rightarrow> nat option \<Rightarrow>
    bool list \<Rightarrow> int list \<Rightarrow> (char list \<times> bool list \<times> int list) res" where
  "header_loop n tcs qp col_name policy mem None found col_order = ret (mem, found, col_order)"
| "header_loop 0 tcs qp col_name policy mem (Some line) found col_order = None"
| "header_loop (Suc n) tcs qp col_name policy mem (Some line) found col_order =
     res_bind (chop_next_column qp mem line) (\<lambda>(mem1, b, e, line').
       case clean_column tcs qp mem1 b e of
         None \<Rightarrow> None
       | Some (mem2, p) \<Rightarrow>
           (case cstr (drop p mem2) of
              None \<Rightarrow> None
            | Some s \<Rightarrow>
                (case match_name s 0 col_name of
                   Some i \<Rightarrow>
                     if found ! i then throw (column_error duplicated_column_in_header s)
                     else header_loop n tcs qp col_name policy mem2 line' (found[i := True]) (col_order @ [int i])
                 | None \<Rightarrow>
                     if policy AND ignore_extra_column \<noteq> 0
                     then header_loop n tcs qp col_name policy mem2 line' found (col_order @ [-1])
                     else throw (column_error extra_column_in_header s))))"

fun missing_name :: "bool list \<Rightarrow> string list \<Rightarrow> string option" where
  "missing_name (f # fs) (n # ns) = (if \<not> f then Some n else missing_name fs ns)"
| "missing_name _ _ = None"

definition parse_header_line :: "char list \<Rightarrow> quote_policy_ops \<Rightarrow> char list \<Rightarrow> nat option \<Rightarrow> string list \<Rightarrow> u32 \<Rightarrow>
    (char list \<times> int list) res" where
  "parse_header_line tcs qp mem line col_name policy =
     res_bind (header_loop (length mem + 1) tcs qp col_name policy mem line
                 (replicate (length col_name) False) []) (\<lambda>(mem', found, col_order).
       if policy AND ignore_missing_column = 0 then
         (case missing_name found col_name of
            None \<Rightarrow> ret (mem', col_order)
          | Some name \<Rightarrow> throw (column_error missing_column_in_header (takeWhile (\<lambda>c. c \<noteq> NUL) name)))
       else ret (mem', col_order))"

section \<open>The contract of a quote policy\<close>

text \<open>
  On a text without NUL, \<open>col_end\<close> is the length of its first column (\<open>None\<close> for a quote that is not
  closed) and \<open>content\<close> what a column stands for.
\<close>

locale quote_policy =
  fixes qp :: quote_policy_ops
    and col_end :: "char list \<Rightarrow> nat option"
    and content :: "char list \<Rightarrow> char list"
  assumes find_end: "NUL \<notin> set t \<Longrightarrow> find_next_column_end qp (pre @ t @ NUL # post) (length pre) =
      (case col_end t of None \<Rightarrow> throw (new_error escaped_string_not_closed) | Some k \<Rightarrow> ret (length pre + k))"
    and col_end_le: "NUL \<notin> set t \<Longrightarrow> col_end t = Some k \<Longrightarrow> k \<le> length t"
    and unescape_content: "NUL \<notin> set t \<Longrightarrow>
      \<exists>j1 j2. length j1 + length (content t) + length j2 = length t \<and>
        unescape qp (pre @ t @ NUL # post) (length pre) (length pre + length t) =
          Some (pre @ j1 @ content t @ NUL # j2 @ post, length pre + length j1, length pre + length j1 + length (content t))"
    and content_no_nul: "NUL \<notin> set t \<Longrightarrow> NUL \<notin> set (content t)"

text \<open>The text that \<^verbatim>\<open>trim\<close> leaves, and a row of pointers that stands for a row of strings.\<close>

definition trim_text :: "char list \<Rightarrow> char list \<Rightarrow> char list" where
  "trim_text tcs s = rev (dropWhile (\<lambda>c. is_trim_char c tcs) (rev (dropWhile (\<lambda>c. is_trim_char c tcs) s)))"

definition points :: "char list \<Rightarrow> nat option list \<Rightarrow> string option list \<Rightarrow> bool" where
  "points mem row srow \<longleftrightarrow> list_all2 (\<lambda>p s. case (p, s) of
       (None, None) \<Rightarrow> True
     | (Some a, Some t) \<Rightarrow> NUL \<notin> set t \<and> (\<exists>j1 j2. mem = j1 @ t @ NUL # j2 \<and> a = length j1)
     | _ \<Rightarrow> False) row srow"

text \<open>What \<^verbatim>\<open>parse_line\<close> promises, on texts.\<close>

fun line_spec :: "(char list \<Rightarrow> nat option) \<Rightarrow> (char list \<Rightarrow> string) \<Rightarrow> string option list \<Rightarrow> char list option \<Rightarrow>
    int list \<Rightarrow> error_kind + string option list" where
  "line_spec ce cl row None [] = Inr row"
| "line_spec ce cl row (Some t) [] = Inl too_many_columns"
| "line_spec ce cl row None (i # is) = Inl too_few_columns"
| "line_spec ce cl row (Some t) (i # is) =
     (case ce t of
        None \<Rightarrow> Inl escaped_string_not_closed
      | Some k \<Rightarrow> line_spec ce cl (if i \<noteq> -1 then row[nat i := Some (cl (take k t))] else row)
                   (if k < length t then Some (drop (k + 1) t) else None) is)"

section \<open>Lemmas on trimming\<close>

lemma at_append [simp]: "at (pre @ c # post) (length pre) = Some c"
  by (simp add: at_def)

lemma at_shift [simp]: "at (pre @ mem) (length pre + p) = at mem p"
  by (simp add: at_def)

lemma trim_front_spec:
  "trim_front tcs (pre @ s @ x # post) (length pre) (length pre + length s) =
     Some (length pre + length (takeWhile (\<lambda>c. is_trim_char c tcs) s))"
proof (induction s arbitrary: pre)
  case Nil
  then show ?case by (simp add: trim_front.simps)
next
  case (Cons c s)
  show ?case
    using Cons.IH [of "pre @ [c]"] by (subst trim_front.simps) simp
qed

lemma trim_back_spec:
  "trim_back tcs (pre @ s @ post) (length pre) (length pre + length s) =
     Some (length pre + length (dropWhile (\<lambda>c. is_trim_char c tcs) (rev s)))"
proof (induction s arbitrary: post rule: rev_induct)
  case Nil
  then show ?case by (simp add: trim_back.simps)
next
  case (snoc c s)
  have a: "at (pre @ s @ c # post) (length pre + length s) = Some c"
    using at_append [of "pre @ s" c post] by simp
  show ?case
    using snoc.IH [of "c # post"] a by (subst trim_back.simps) simp
qed

lemma trim_spec:
  obtains a b where "s = a @ trim_text tcs s @ b"
    "trim tcs (pre @ s @ NUL # post) (length pre) (length pre + length s) =
       Some (pre @ a @ trim_text tcs s @ NUL # tl (b @ [NUL]) @ post, length pre + length a,
             length pre + length a + length (trim_text tcs s))"
proof -
  let ?P = "\<lambda>c. is_trim_char c tcs"
  define a where "a = takeWhile ?P s"
  define s1 where "s1 = dropWhile ?P s"
  define m where "m = trim_text tcs s"
  define b where "b = rev (takeWhile ?P (rev s1))"
  have s: "s = a @ s1" by (simp add: a_def s1_def)
  have s1: "s1 = m @ b"
    unfolding m_def b_def trim_text_def s1_def [symmetric] by (metis rev_append rev_rev_ident takeWhile_dropWhile_id)
  have f: "trim_front tcs (pre @ s @ NUL # post) (length pre) (length pre + length s) = Some (length pre + length a)"
    by (simp add: trim_front_spec a_def)
  have "trim_back tcs ((pre @ a) @ s1 @ NUL # post) (length (pre @ a)) (length (pre @ a) + length s1) =
      Some (length (pre @ a) + length m)"
    unfolding trim_back_spec by (simp add: m_def trim_text_def s1_def)
  then have bk: "trim_back tcs (pre @ s @ NUL # post) (length pre + length a) (length pre + length s) =
      Some (length pre + length a + length m)" by (simp add: s add.assoc)
  have "(pre @ s @ NUL # post)[length pre + length a + length m := NUL] =
      pre @ a @ m @ (b @ NUL # post)[0 := NUL]"
    by (simp add: s s1 list_update_append)
  also have "(b @ NUL # post)[0 := NUL] = NUL # tl (b @ [NUL]) @ post" by (cases b) simp_all
  finally have u: "(pre @ s @ NUL # post)[length pre + length a + length m := NUL] =
      pre @ a @ m @ NUL # tl (b @ [NUL]) @ post" .
  have "trim tcs (pre @ s @ NUL # post) (length pre) (length pre + length s) =
      Some (pre @ a @ m @ NUL # tl (b @ [NUL]) @ post, length pre + length a, length pre + length a + length m)"
    by (simp add: trim_def f bk u) (simp add: s s1)
  moreover have "s = a @ m @ b" by (simp add: s s1)
  ultimately show thesis unfolding m_def by (intro that [of a b]) simp_all
qed

lemma set_trim_text: "set (trim_text tcs s) \<subseteq> set s"
  unfolding trim_text_def by (metis set_dropWhileD set_rev subsetI)

section \<open>Columns of a text\<close>

function columns :: "(char list \<Rightarrow> nat option) \<Rightarrow> char list \<Rightarrow> char list list option" where
  "columns ce t =
     (case ce t of
        None \<Rightarrow> None
      | Some k \<Rightarrow>
          if k < length t then map_option ((#) (take k t)) (columns ce (drop (k + 1) t)) else Some [take k t])"
  by pat_completeness auto
termination
  by (relation "measure (\<lambda>(ce, t). length t)") auto

declare columns.simps [simp del]

fun fill_row :: "string option list \<Rightarrow> int list \<Rightarrow> string list \<Rightarrow> string option list" where
  "fill_row row (i # is) (c # cs) = fill_row (if i \<noteq> -1 then row[nat i := Some c] else row) is cs"
| "fill_row row _ _ = row"

lemma columns_not_Nil: "columns ce t \<noteq> Some []"
  by (subst columns.simps) (auto split: option.splits)

lemma line_spec_columns:
  assumes "columns ce t = Some cs"
  shows "line_spec ce cl row (Some t) ord =
     (if length cs < length ord then Inl too_few_columns
      else if length ord < length cs then Inl too_many_columns
      else Inr (fill_row row ord (map cl cs)))"
  using assms
proof (induction ord arbitrary: t cs row)
  case Nil
  then show ?case using columns_not_Nil [of ce t] by (cases cs) auto
next
  case (Cons i js)
  obtain k where k: "ce t = Some k"
    and rest: "if k < length t then map_option ((#) (take k t)) (columns ce (drop (k + 1) t)) = Some cs
               else cs = [take k t]"
    using Cons.prems by (subst (asm) columns.simps) (auto split: option.splits if_splits)
  show ?case
  proof (cases "k < length t")
    case True
    then obtain ds where "columns ce (drop (k + 1) t) = Some ds" "cs = take k t # ds" using rest by auto
    then show ?thesis using Cons.IH [of "drop (k + 1) t" ds] k True by simp
  next
    case False
    then show ?thesis using rest k by (cases js) auto
  qed
qed

lemma points_append: "points pre row srow \<Longrightarrow> points (pre @ seg) row srow"
  unfolding points_def by (erule list_all2_mono) (auto 0 4 split: option.splits)

lemma points_update:
  assumes "points pre row srow" "NUL \<notin> set t"
  shows "points (pre @ j1 @ t @ NUL # j2) (row[i := Some (length pre + length j1)]) (srow[i := Some t])"
proof -
  have "\<exists>i1 i2. pre @ j1 @ t @ NUL # j2 = i1 @ t @ NUL # i2 \<and> length pre + length j1 = length i1"
    by (intro exI [of _ "pre @ j1"] exI [of _ j2]) simp
  then show ?thesis
    using points_append [OF assms(1), of "j1 @ t @ NUL # j2"] assms(2) unfolding points_def
    by (intro list_all2_update_cong) simp_all
qed

lemma points_nth:
  assumes "points mem row srow" "i < length srow" "srow ! i = Some t"
  shows "\<exists>a. row ! i = Some a \<and> cstr (drop a mem) = Some t"
proof -
  have "case (row ! i, srow ! i) of (None, None) \<Rightarrow> True
     | (Some a, Some t) \<Rightarrow> NUL \<notin> set t \<and> (\<exists>j1 j2. mem = j1 @ t @ NUL # j2 \<and> a = length j1) | _ \<Rightarrow> False"
    using assms(1,2) unfolding points_def by (metis (no_types, lifting) list_all2_conv_all_nth)
  then show ?thesis using assms(3) by (auto simp: cstr_terminated split: option.splits)
qed

lemma points_None: "points mem row srow \<Longrightarrow> i < length srow \<Longrightarrow> srow ! i = None \<Longrightarrow> row ! i = None"
  unfolding points_def list_all2_conv_all_nth by (auto split: option.splits)

section \<open>What the contract gives\<close>

context quote_policy
begin

lemma chop_closed:
  assumes "NUL \<notin> set t" "col_end t = Some k"
  shows "chop_next_column qp (pre @ t @ NUL # post) (length pre) =
     ret (pre @ take k t @ NUL # (if k < length t then drop (k + 1) t @ NUL # post else post), length pre, length pre + k,
          if k < length t then Some (length pre + k + 1) else None)"
proof -
  have k: "k \<le> length t" using col_end_le assms by blast
  have f: "find_next_column_end qp (pre @ t @ NUL # post) (length pre) = ret (length pre + k)"
    using find_end [OF assms(1)] assms(2) by simp
  show ?thesis
  proof (cases "k < length t")
    case True
    have t: "t = take k t @ t ! k # drop (k + 1) t" using id_take_nth_drop [OF True] by simp
    have "at (pre @ t @ NUL # post) (length pre + k) = Some (t ! k)" using True by (simp add: at_def nth_append)
    moreover have "t ! k \<noteq> NUL" using assms(1) True by (metis nth_mem)
    moreover have "(pre @ t @ NUL # post)[length pre + k := NUL] = pre @ t[k := NUL] @ NUL # post"
      using True by (simp add: list_update_append)
    moreover have "t[k := NUL] = take k t @ NUL # drop (k + 1) t" using True by (simp add: upd_conv_take_nth_drop)
    ultimately show ?thesis using True by (simp add: chop_next_column_def f)
  next
    case False
    then have "k = length t" using k by simp
    then have "at (pre @ t @ NUL # post) (length pre + k) = Some NUL" by (simp add: at_def nth_append)
    then show ?thesis using False \<open>k = length t\<close> by (simp add: chop_next_column_def f)
  qed
qed

lemma chop_open: "NUL \<notin> set t \<Longrightarrow> col_end t = None \<Longrightarrow>
  chop_next_column qp (pre @ t @ NUL # post) (length pre) = throw (new_error escaped_string_not_closed)"
  by (simp add: chop_next_column_def find_end)

lemma clean_column_spec:
  assumes "NUL \<notin> set c"
  shows "\<exists>j1 j2. length j1 + length (content (trim_text tcs c)) + length j2 = length c \<and>
    clean_column tcs qp (pre @ c @ NUL # post) (length pre) (length pre + length c) =
      Some (pre @ j1 @ content (trim_text tcs c) @ NUL # j2 @ post, length pre + length j1)"
proof -
  define m where "m = trim_text tcs c"
  obtain a b where c: "c = a @ m @ b"
    and t: "trim tcs (pre @ c @ NUL # post) (length pre) (length pre + length c) =
       Some ((pre @ a) @ m @ NUL # tl (b @ [NUL]) @ post, length (pre @ a), length (pre @ a) + length m)"
    using trim_spec [of c tcs pre post] unfolding m_def [symmetric] by auto
  have "NUL \<notin> set m" using assms c by auto
  then obtain j1 j2 where j: "length j1 + length (content m) + length j2 = length m"
    and u: "unescape qp ((pre @ a) @ m @ NUL # tl (b @ [NUL]) @ post) (length (pre @ a)) (length (pre @ a) + length m) =
      Some ((pre @ a) @ j1 @ content m @ NUL # j2 @ tl (b @ [NUL]) @ post, length (pre @ a) + length j1,
            length (pre @ a) + length j1 + length (content m))"
    using unescape_content [of m "pre @ a" "tl (b @ [NUL]) @ post"] by blast
  have "clean_column tcs qp (pre @ c @ NUL # post) (length pre) (length pre + length c) =
      Some (pre @ (a @ j1) @ content m @ NUL # (j2 @ tl (b @ [NUL])) @ post, length pre + length (a @ j1))"
    unfolding clean_column_def t using u by simp
  moreover have "length (a @ j1) + length (content m) + length (j2 @ tl (b @ [NUL])) = length c"
    using j c by simp
  ultimately show ?thesis unfolding m_def [symmetric] by blast
qed

text \<open>One column of a line: cut off, cleaned, and the rest of the line where it was.\<close>

lemma column_step:
  fixes tcs t pre post :: "char list"
  assumes "NUL \<notin> set t" "col_end t = Some k"
  defines "s \<equiv> content (trim_text tcs (take k t))"
  obtains j1 j2 where "length j1 + length s + length j2 = k" "NUL \<notin> set s"
    "chop_next_column qp (pre @ t @ NUL # post) (length pre) =
       ret (pre @ take k t @ NUL # (if k < length t then drop (k + 1) t @ NUL # post else post), length pre, length pre + k,
            if k < length t then Some (length pre + k + 1) else None)"
    "clean_column tcs qp (pre @ take k t @ NUL # (if k < length t then drop (k + 1) t @ NUL # post else post))
        (length pre) (length pre + k) =
      Some ((pre @ j1 @ s @ NUL # j2) @ (if k < length t then drop (k + 1) t @ NUL # post else post), length pre + length j1)"
proof -
  have k: "length (take k t) = k" using col_end_le assms by fastforce
  have n: "NUL \<notin> set (take k t)" using assms(1) by (meson in_set_takeD)
  have ns: "NUL \<notin> set s" unfolding s_def using n set_trim_text by (intro content_no_nul) blast
  let ?post = "if k < length t then drop (k + 1) t @ NUL # post else post"
  obtain j1 j2 where "length j1 + length s + length j2 = k"
    "clean_column tcs qp (pre @ take k t @ NUL # ?post) (length pre) (length pre + k) =
      Some (pre @ j1 @ s @ NUL # j2 @ ?post, length pre + length j1)"
    using clean_column_spec [OF n, of tcs pre ?post] unfolding k s_def by blast
  then show thesis using that [of j1 j2] ns chop_closed [OF assms(1,2)] by simp
qed

text \<open>\<^verbatim>\<open>parse_line\<close> refines \<open>line_spec\<close>: the same exception, or pointers to the same strings.\<close>

text \<open>One column of \<^verbatim>\<open>parse_line\<close>: its bytes become the segment \<open>seg\<close>, and its pointer goes into the row.\<close>

lemma parse_line_step:
  assumes t: "NUL \<notin> set t" "col_end t = Some k" and i: "i = -1 \<or> 0 \<le> i \<and> nat i < length row" and pts: "points pre row srow"
  obtains seg row1 where "length seg = k + 1" "length row1 = length row"
    "points (pre @ seg) row1 (if i \<noteq> -1 then srow[nat i := Some (content (trim_text tcs (take k t)))] else srow)"
    "\<And>js. parse_line tcs qp (pre @ t @ NUL # post) (Some (length pre)) row (i # js) =
        parse_line tcs qp ((pre @ seg) @ (if k < length t then drop (k + 1) t @ NUL # post else post))
          (if k < length t then Some (length (pre @ seg)) else None) row1 js"
proof -
  let ?c = "content (trim_text tcs (take k t))"
  obtain j1 j2 where len: "length j1 + length ?c + length j2 = k" and nn: "NUL \<notin> set ?c"
    and chop: "chop_next_column qp (pre @ t @ NUL # post) (length pre) =
     ret (pre @ take k t @ NUL # (if k < length t then drop (k + 1) t @ NUL # post else post), length pre, length pre + k,
          if k < length t then Some (length pre + k + 1) else None)"
    and clean: "clean_column tcs qp (pre @ take k t @ NUL # (if k < length t then drop (k + 1) t @ NUL # post else post))
      (length pre) (length pre + k) =
    Some ((pre @ j1 @ ?c @ NUL # j2) @ (if k < length t then drop (k + 1) t @ NUL # post else post), length pre + length j1)"
    using column_step [OF t, of tcs] by blast
  have k: "k \<le> length t" using col_end_le t by blast
  show thesis
  proof (cases "i = -1")
    case True
    show ?thesis
      by (rule that [of "take k t @ [NUL]" row]) (use True k points_append [OF pts] in \<open>simp_all add: chop\<close>)
  next
    case False
    then have "0 \<le> i \<and> nat i < length row" using i by simp
    moreover have "length j1 + (length ?c + length j2) = k" using len by simp
    ultimately show ?thesis using False chop clean points_update [OF pts nn]
      by (intro that [of "j1 @ ?c @ NUL # j2" "row[nat i := Some (length pre + length j1)]"]) simp_all
  qed
qed

lemma parse_line_refines:
  assumes "\<forall>i\<in>set ord. i = -1 \<or> 0 \<le> i \<and> nat i < length row" "points pre row srow" "NUL \<notin> set t"
  shows "case line_spec col_end (\<lambda>c. content (trim_text tcs c)) srow (Some t) ord of
     Inl k \<Rightarrow> parse_line tcs qp (pre @ t @ NUL # post) (Some (length pre)) row ord = throw (new_error k)
   | Inr srow' \<Rightarrow> \<exists>pre' row'. length pre' = length pre + length t + 1 \<and> points pre' row' srow' \<and>
       parse_line tcs qp (pre @ t @ NUL # post) (Some (length pre)) row ord = ret (pre' @ post, row')"
  using assms
proof (induction ord arbitrary: t pre row srow)
  case Nil
  then show ?case by simp
next
  case (Cons i js)
  let ?cl = "\<lambda>c. content (trim_text tcs c)"
  show ?case
  proof (cases "col_end t")
    case None
    then show ?thesis using Cons.prems(3) by (simp add: chop_open)
  next
    case (Some k)
    define srow1 where "srow1 = (if i \<noteq> -1 then srow[nat i := Some (?cl (take k t))] else srow)"
    have i: "i = -1 \<or> 0 \<le> i \<and> nat i < length row" using Cons.prems(1) by simp
    obtain seg row1 where seg: "length seg = k + 1" "length row1 = length row" "points (pre @ seg) row1 srow1"
      and run: "\<And>js. parse_line tcs qp (pre @ t @ NUL # post) (Some (length pre)) row (i # js) =
        parse_line tcs qp ((pre @ seg) @ (if k < length t then drop (k + 1) t @ NUL # post else post))
          (if k < length t then Some (length (pre @ seg)) else None) row1 js"
      using parse_line_step [OF Cons.prems(3) Some i Cons.prems(2), of tcs post] unfolding srow1_def by blast
    have sp: "line_spec col_end ?cl srow (Some t) (i # js) =
        line_spec col_end ?cl srow1 (if k < length t then Some (drop (k + 1) t) else None) js"
      using Some by (simp add: srow1_def)
    show ?thesis
    proof (cases "k < length t")
      case True
      have "NUL \<notin> set (drop (k + 1) t)" using Cons.prems(3) by (meson in_set_dropD)
      moreover have "\<forall>i\<in>set js. i = -1 \<or> 0 \<le> i \<and> nat i < length row1" using Cons.prems(1) seg(2) by simp
      moreover have "length (pre @ seg) + length (drop (k + 1) t) + 1 = length pre + length t + 1" using seg(1) True by simp
      ultimately show ?thesis
        unfolding run sp using True Cons.IH [OF _ seg(3), of "drop (k + 1) t"] by (simp split: sum.splits)
    next
      case False
      then have "k = length t" using col_end_le [OF Cons.prems(3) Some] by simp
      then show ?thesis unfolding run sp using seg by (cases js) (auto intro!: exI [of _ "pre @ seg"])
    qed
  qed
qed

end

section \<open>The two policies\<close>

definition plain_end :: "char \<Rightarrow> char list \<Rightarrow> nat option" where
  "plain_end sep t = Some (length (takeWhile (\<lambda>c. c \<noteq> sep) t))"

lemma no_quote_find_spec:
  "NUL \<notin> set t \<Longrightarrow> no_quote_find sep (pre @ t @ NUL # post) (length pre) =
     ret (length pre + length (takeWhile (\<lambda>c. c \<noteq> sep) t))"
proof (induction t arbitrary: pre)
  case Nil
  then show ?case by (subst no_quote_find.simps) simp
next
  case (Cons c t)
  then show ?case using Cons.IH [of "pre @ [c]"] by (subst no_quote_find.simps) auto
qed

interpretation plain: quote_policy "no_quote_escape sep" "plain_end sep" "\<lambda>t. t"
proof
  fix t pre post
  show "NUL \<notin> set t \<Longrightarrow> find_next_column_end (no_quote_escape sep) (pre @ t @ NUL # post) (length pre) =
    (case plain_end sep t of None \<Rightarrow> throw (new_error escaped_string_not_closed) | Some k \<Rightarrow> ret (length pre + k))"
    by (simp add: no_quote_escape_def plain_end_def no_quote_find_spec)
  show "\<exists>j1 j2. length j1 + length t + length j2 = length t \<and>
        unescape (no_quote_escape sep) (pre @ t @ NUL # post) (length pre) (length pre + length t) =
          Some (pre @ j1 @ t @ NUL # j2 @ post, length pre + length j1, length pre + length j1 + length t)"
    by (intro exI [of _ "[]"]) (simp add: no_quote_escape_def)
qed (auto simp: plain_end_def length_takeWhile_le)

text \<open>Quoted columns on texts: the length of the quoted part, the end of the column, and its content.\<close>

fun quoted_len :: "char \<Rightarrow> char list \<Rightarrow> nat option" where
  "quoted_len quote [] = None"
| "quoted_len quote [c] = (if c = quote then Some 1 else None)"
| "quoted_len quote (c # d # t) =
     (if c \<noteq> quote then map_option Suc (quoted_len quote (d # t))
      else if d = quote then map_option (\<lambda>n. n + 2) (quoted_len quote t) else Some 1)"

function quoted_end :: "char \<Rightarrow> char \<Rightarrow> char list \<Rightarrow> nat option" where
  "quoted_end sep quote [] = Some 0"
| "quoted_end sep quote (c # t) =
     (if c = sep then Some 0
      else if c \<noteq> quote then map_option Suc (quoted_end sep quote t)
      else case quoted_len quote t of
             None \<Rightarrow> None
           | Some k \<Rightarrow> map_option (\<lambda>n. Suc (k + n)) (quoted_end sep quote (drop k t)))"
  by pat_completeness auto
termination
  by (relation "measure (\<lambda>(sep, quote, t). length t)") auto

fun undouble :: "char \<Rightarrow> char list \<Rightarrow> char list" where
  "undouble quote [] = []"
| "undouble quote [c] = [c]"
| "undouble quote (c # d # t) =
     (if c = quote \<and> d = quote then quote # undouble quote t else c # undouble quote (d # t))"

definition quoted_content :: "char \<Rightarrow> char list \<Rightarrow> char list" where
  "quoted_content quote t =
     (if 2 \<le> length t \<and> hd t = quote \<and> last t = quote then undouble quote (butlast (tl t)) else t)"

lemma quoted_len_le: "quoted_len quote t = Some k \<Longrightarrow> k \<le> length t"
  by (induction quote t arbitrary: k rule: quoted_len.induct) (fastforce split: if_splits)+

lemma skip_quoted_spec:
  assumes "NUL \<notin> set t" "quote \<noteq> NUL"
  shows "skip_quoted quote (pre @ t @ NUL # post) (length pre) =
     (case quoted_len quote t of
        None \<Rightarrow> throw (new_error escaped_string_not_closed) | Some k \<Rightarrow> ret (length pre + k))"
  using assms
proof (induction quote t arbitrary: pre rule: quoted_len.induct)
  case (1 quote)
  then show ?case by (subst skip_quoted.simps) auto
next
  case (2 quote c)
  have a: "at (pre @ c # NUL # post) (Suc (length pre)) = Some NUL"
    using at_append [of "pre @ [c]" NUL post] by simp
  have n: "skip_quoted quote (pre @ c # NUL # post) (Suc (length pre)) = throw (new_error escaped_string_not_closed)"
    using a 2 by (subst skip_quoted.simps) simp
  show ?case using 2 a n by (subst skip_quoted.simps) auto
next
  case (3 quote c d t)
  have a: "at (pre @ c # d # t @ NUL # post) (Suc (length pre)) = Some d"
    using at_append [of "pre @ [c]" d "t @ NUL # post"] by simp
  have n1: "skip_quoted quote (pre @ c # d # t @ NUL # post) (Suc (length pre)) =
     (case quoted_len quote (d # t) of None \<Rightarrow> throw (new_error escaped_string_not_closed)
        | Some k \<Rightarrow> ret (Suc (length pre) + k))" if "c \<noteq> quote"
    using "3.IH"(1) [OF that, of "pre @ [c]"] "3.prems" by (simp split: option.splits)
  have n2: "skip_quoted quote (pre @ c # d # t @ NUL # post) (Suc (Suc (length pre))) =
     (case quoted_len quote t of None \<Rightarrow> throw (new_error escaped_string_not_closed)
        | Some k \<Rightarrow> ret (Suc (Suc (length pre)) + k))" if "c = quote" "d = quote"
    using "3.IH"(2) [of "pre @ [c, d]"] that "3.prems" by (simp split: option.splits)
  show ?case
    using "3.prems" a n1 n2 by (subst skip_quoted.simps) (auto split: option.splits)
qed

lemma double_quote_find_spec:
  assumes "NUL \<notin> set t"
  shows "double_quote_find sep quote (pre @ t @ NUL # post) (length pre) =
     (case quoted_end sep quote t of
        None \<Rightarrow> throw (new_error escaped_string_not_closed) | Some k \<Rightarrow> ret (length pre + k))"
  using assms
proof (induction sep quote t arbitrary: pre rule: quoted_end.induct)
  case (1 sep quote)
  then show ?case by (subst double_quote_find.simps) simp
next
  case (2 sep quote c t)
  consider (sep) "c = sep" | (plain) "c \<noteq> sep" "c \<noteq> quote" | (quoted) "c \<noteq> sep" "c = quote" by blast
  then show ?case
  proof cases
    case sep
    then show ?thesis by (subst double_quote_find.simps) simp
  next
    case plain
    then show ?thesis using "2.IH"(1) [of "pre @ [c]"] "2.prems"
      by (subst double_quote_find.simps) (auto split: option.splits)
  next
    case quoted
    have nn: "NUL \<notin> set t" "quote \<noteq> NUL" "c \<noteq> NUL" using "2.prems" quoted by auto
    have sk: "skip_quoted quote (pre @ c # t @ NUL # post) (Suc (length pre)) =
       (case quoted_len quote t of None \<Rightarrow> throw (new_error escaped_string_not_closed)
          | Some k \<Rightarrow> ret (Suc (length pre) + k))"
      using skip_quoted_spec [OF nn(1,2), of "pre @ [c]"] by (simp split: option.splits)
    show ?thesis
    proof (cases "quoted_len quote t")
      case None
      then show ?thesis using sk quoted nn by (subst double_quote_find.simps) (simp add: throw_def)
    next
      case (Some k)
      have k: "k \<le> length t" by (rule quoted_len_le [OF Some])
      have nk: "NUL \<notin> set (drop k t)" using nn(1) by (meson in_set_dropD)
      have "length (pre @ c # take k t) = Suc (length pre + k)" using k by simp
      moreover have "(pre @ c # take k t) @ drop k t @ NUL # post = pre @ c # t @ NUL # post"
        by (metis append_Cons append_assoc append_take_drop_id)
      ultimately have "double_quote_find sep quote (pre @ c # t @ NUL # post) (Suc (length pre + k)) =
        (case quoted_end sep quote (drop k t) of None \<Rightarrow> throw (new_error escaped_string_not_closed)
           | Some n \<Rightarrow> ret (Suc (length pre + k) + n))"
        using "2.IH"(2) [of k "pre @ c # take k t"] quoted Some nk by metis
      then show ?thesis using sk quoted nn Some
        by (subst double_quote_find.simps) (simp add: ret_def split: option.splits)
    qed
  qed
qed

lemma quoted_end_le: "quoted_end sep quote t = Some k \<Longrightarrow> k \<le> length t"
proof (induction sep quote t arbitrary: k rule: quoted_end.induct)
  case (2 sep quote c t)
  then show ?case by (fastforce split: if_splits option.splits dest: quoted_len_le)
qed simp

lemma shift_update: "length j = length junk \<Longrightarrow> junk @ [c] = y # j \<Longrightarrow>
  (A @ junk @ c # rest)[length A := x] = A @ x # j @ rest"
  by (metis append.assoc append_Cons append_Nil list_update_length)

lemma push_junk:
  obtains j where "length j = length junk" "(A @ junk @ c # rest)[length A := x] = (A @ [x]) @ j @ rest"
proof -
  obtain y j where "junk @ [c] = y # j" by (cases "junk @ [c]") auto
  moreover from this have "length j = length junk" by (metis length_Cons length_append_singleton nat.inject)
  ultimately show thesis using that shift_update [of j junk c y A rest x] by simp
qed

text \<open>One round of the loop: a doubled quote is copied once, any other character as it is.\<close>

lemma unescape_loop_double:
  obtains j where "length j = length junk + 1"
    "unescape_loop q (A @ junk @ (q # q # t) @ tail) (length A + length junk + length (q # q # t)) (length A + length junk) (length A) =
     unescape_loop q ((A @ [q]) @ j @ t @ tail) (length (A @ [q]) + length j + length t) (length (A @ [q]) + length j) (length (A @ [q]))"
proof -
  have n: "(A @ junk @ q # q # t @ tail) ! (length A + length junk) = q"
    using nth_append_length [of "A @ junk" q "q # t @ tail"] by simp
  have n': "(A @ junk @ q # q # t @ tail) ! Suc (length A + length junk) = q"
    using nth_append_length [of "A @ junk @ [q]" q "t @ tail"] by simp
  have a: "at (A @ junk @ q # q # t @ tail) (Suc (length A + length junk)) = Some q" using n' by (simp add: at_def)
  obtain j where j: "length j = length (junk @ [q])"
      "(A @ (junk @ [q]) @ q # t @ tail)[length A := q] = (A @ [q]) @ j @ t @ tail"
    by (rule push_junk)
  show thesis
    by (rule that [of j]) (use n n' a j in \<open>simp, subst unescape_loop.simps, simp add: Let_def\<close>)
qed

lemma unescape_loop_single:
  assumes "\<not> (c = q \<and> d = q)"
  obtains j where "length j = length junk"
    "unescape_loop q (A @ junk @ (c # d # t) @ tail) (length A + length junk + length (c # d # t)) (length A + length junk) (length A) =
     unescape_loop q ((A @ [c]) @ j @ (d # t) @ tail) (length (A @ [c]) + length j + length (d # t)) (length (A @ [c]) + length j)
       (length (A @ [c]))"
proof -
  have n: "(A @ junk @ c # d # t @ tail) ! (length A + length junk) = c"
    using nth_append_length [of "A @ junk" c "d # t @ tail"] by simp
  have "(A @ junk @ c # d # t @ tail) ! Suc (length A + length junk) = d"
    using nth_append_length [of "A @ junk @ [c]" d "t @ tail"] by simp
  then have a: "at (A @ junk @ c # d # t @ tail) (Suc (length A + length junk)) = Some d" by (simp add: at_def)
  obtain j where j: "length j = length junk"
      "(A @ junk @ c # d # t @ tail)[length A := c] = (A @ [c]) @ j @ (d # t) @ tail"
    using push_junk [of junk A c "d # t @ tail" c] by auto
  have "unescape_loop q (A @ junk @ (c # d # t) @ tail) (length A + length junk + length (c # d # t)) (length A + length junk) (length A) =
     unescape_loop q ((A @ [c]) @ j @ (d # t) @ tail) (length (A @ [c]) + length j + length (d # t)) (length (A @ [c]) + length j)
       (length (A @ [c]))"
    using n a j assms by (subst unescape_loop.simps) (auto simp: Let_def)
  with j(1) show thesis by (rule that)
qed

lemma unescape_loop_spec:
  "\<exists>j. length (undouble quote s) + length j = length junk + length s \<and>
     unescape_loop quote (A @ junk @ s @ tail) (length A + length junk + length s) (length A + length junk) (length A) =
       Some (A @ undouble quote s @ j @ tail, length A + length (undouble quote s))"
proof (induction quote s arbitrary: A junk rule: undouble.induct)
  case (1 quote)
  then show ?case by (intro exI [of _ junk]) (subst unescape_loop.simps, simp)
next
  case (2 quote c)
  obtain j where j: "length j = length junk" "(A @ junk @ c # tail)[length A := c] = (A @ [c]) @ j @ tail"
    by (rule push_junk)
  have n: "(A @ junk @ c # tail) ! (length A + length junk) = c"
    using nth_append_length [of "A @ junk" c tail] by simp
  have "unescape_loop quote (A @ junk @ [c] @ tail) (length A + length junk + length [c]) (length A + length junk) (length A) =
      unescape_loop quote ((A @ [c]) @ j @ tail) (length A + length junk + 1) (length A + length junk + 1) (length A + 1)"
    using n j by (subst unescape_loop.simps) (simp add: Let_def)
  then show ?case using j(1) by (intro exI [of _ j]) (simp add: unescape_loop.simps)
next
  case (3 quote c d t)
  show ?case
  proof (cases "c = quote \<and> d = quote")
    case True
    obtain j where j: "length j = length junk + 1"
      "unescape_loop quote (A @ junk @ (quote # quote # t) @ tail) (length A + length junk + length (quote # quote # t))
          (length A + length junk) (length A) =
        unescape_loop quote ((A @ [quote]) @ j @ t @ tail) (length (A @ [quote]) + length j + length t)
          (length (A @ [quote]) + length j) (length (A @ [quote]))"
      by (rule unescape_loop_double)
    show ?thesis using "3.IH"(1) [OF True, of j "A @ [quote]"] j True by auto
  next
    case False
    obtain j where j: "length j = length junk"
      "unescape_loop quote (A @ junk @ (c # d # t) @ tail) (length A + length junk + length (c # d # t))
          (length A + length junk) (length A) =
        unescape_loop quote ((A @ [c]) @ j @ (d # t) @ tail) (length (A @ [c]) + length j + length (d # t))
          (length (A @ [c]) + length j) (length (A @ [c]))"
      by (rule unescape_loop_single [OF False])
    show ?thesis using "3.IH"(2) [OF False, of j "A @ [c]"] j False by auto
  qed
qed

lemma set_undouble: "set (undouble quote s) \<subseteq> set s"
  by (induction quote s rule: undouble.induct) auto

lemma double_quote_unescape_spec:
  assumes "NUL \<notin> set t"
  shows "\<exists>j1 j2. length j1 + length (quoted_content quote t) + length j2 = length t \<and>
        double_quote_unescape quote (pre @ t @ NUL # post) (length pre) (length pre + length t) =
          Some (pre @ j1 @ quoted_content quote t @ NUL # j2 @ post, length pre + length j1,
                length pre + length j1 + length (quoted_content quote t))"
proof (cases "2 \<le> length t \<and> hd t = quote \<and> last t = quote")
  case True
  then obtain m where t: "t = quote # m @ [quote]"
    by (cases t; cases "tl t" rule: rev_cases) auto
  let ?A = "pre @ [quote]"
  have c: "quoted_content quote t = undouble quote m" by (simp add: quoted_content_def t)
  obtain j where j: "length (undouble quote m) + length j = length m"
    and loop: "unescape_loop quote (?A @ m @ quote # NUL # post) (length ?A + length m) (length ?A) (length ?A) =
       Some (?A @ undouble quote m @ j @ quote # NUL # post, length ?A + length (undouble quote m))"
    using unescape_loop_spec [of quote m "[]" ?A "quote # NUL # post"] by auto
  have e: "at (pre @ t @ NUL # post) (length pre + length t - 1) = Some quote"
    using at_append [of "pre @ quote # m" quote "NUL # post"] by (simp add: t)
  have u: "(?A @ undouble quote m @ j @ quote # NUL # post)[length ?A + length (undouble quote m) := NUL] =
      pre @ [quote] @ undouble quote m @ (j @ quote # NUL # post)[0 := NUL]"
    by (simp add: list_update_append)
  have "(j @ quote # NUL # post)[0 := NUL] = NUL # tl (j @ [quote]) @ NUL # post" by (cases j) simp_all
  with u have u': "(?A @ undouble quote m @ j @ quote # NUL # post)[length ?A + length (undouble quote m) := NUL] =
      pre @ [quote] @ undouble quote m @ NUL # (tl (j @ [quote]) @ [NUL]) @ post" by simp
  have "double_quote_unescape quote (pre @ t @ NUL # post) (length pre) (length pre + length t) =
      Some (pre @ [quote] @ undouble quote m @ NUL # (tl (j @ [quote]) @ [NUL]) @ post, length pre + 1,
            length pre + 1 + length (undouble quote m))"
    using e loop u' by (simp add: double_quote_unescape_def t)
  then show ?thesis unfolding c using j
    by (intro exI [of _ "[quote]"] exI [of _ "tl (j @ [quote]) @ [NUL]"]) (simp add: t)
next
  case False
  have "double_quote_unescape quote (pre @ t @ NUL # post) (length pre) (length pre + length t) =
      Some (pre @ t @ NUL # post, length pre, length pre + length t)"
  proof (cases "2 \<le> length t")
    case True
    then have ne: "t \<noteq> []" by auto
    have "at (pre @ t @ NUL # post) (length pre) = Some (hd t)"
      using ne by (cases t) simp_all
    moreover have "at (pre @ t @ NUL # post) (length pre + length t - 1) = Some (last t)"
      using at_append [of "pre @ butlast t" "last t" "NUL # post"] ne
      by (metis (no_types, lifting) True add_diff_assoc append.assoc append_Cons append_Nil append_butlast_last_id
          length_append length_butlast one_le_numeral order_trans)
    ultimately show ?thesis using False True by (auto simp: double_quote_unescape_def)
  qed (simp add: double_quote_unescape_def)
  moreover have "quoted_content quote t = t" using False by (auto simp: quoted_content_def)
  ultimately show ?thesis by (intro exI [of _ "[]"]) simp
qed

interpretation quoted: quote_policy "double_quote_escape sep quote" "quoted_end sep quote" "quoted_content quote"
proof
  fix t pre post
  assume t: "NUL \<notin> set t"
  show "find_next_column_end (double_quote_escape sep quote) (pre @ t @ NUL # post) (length pre) =
    (case quoted_end sep quote t of None \<Rightarrow> throw (new_error escaped_string_not_closed) | Some k \<Rightarrow> ret (length pre + k))"
    using t by (simp add: double_quote_escape_def double_quote_find_spec)
  show "k \<le> length t" if "quoted_end sep quote t = Some k" for k
    by (rule quoted_end_le [OF that])
  show "\<exists>j1 j2. length j1 + length (quoted_content quote t) + length j2 = length t \<and>
        unescape (double_quote_escape sep quote) (pre @ t @ NUL # post) (length pre) (length pre + length t) =
          Some (pre @ j1 @ quoted_content quote t @ NUL # j2 @ post, length pre + length j1,
                length pre + length j1 + length (quoted_content quote t))"
    using double_quote_unescape_spec [OF t] by (simp add: double_quote_escape_def)
  show "NUL \<notin> set (quoted_content quote t)"
  proof -
    have "set (butlast (tl t)) \<subseteq> set t"
      by (cases t) (auto dest: in_set_butlastD)
    then have "set (quoted_content quote t) \<subseteq> set t"
      using set_undouble [of quote "butlast (tl t)"] by (auto simp: quoted_content_def)
    then show ?thesis using t by blast
  qed
qed

end
