(* ===== verification/Csv_Lines.thy ===== *)
theory Csv_Lines
  imports Csv_Columns
begin

text \<open>
  What \<^verbatim>\<open>parse_line\<close> and \<^verbatim>\<open>parse_header_line\<close> do, for the policies of \<open>Csv_Columns\<close>: the columns of a
  line are the parts of its text between separators, trimmed and unquoted; a header line is accepted
  exactly when its names fit the expected ones; and quoting a row and reading it back is the identity.
\<close>

section \<open>Header lines\<close>

text \<open>The loop of \<^verbatim>\<open>parse_header_line\<close> on the list of the cleaned columns.\<close>

fun header_spec :: "u32 \<Rightarrow> string list \<Rightarrow> bool list \<Rightarrow> int list \<Rightarrow> string list \<Rightarrow>
    csv_error + (bool list \<times> int list)" where
  "header_spec pol names found ord [] = Inr (found, ord)"
| "header_spec pol names found ord (s # ss) =
     (case match_name s 0 names of
        Some i \<Rightarrow>
          if found ! i then Inl (column_error duplicated_column_in_header s)
          else header_spec pol names (found[i := True]) (ord @ [int i]) ss
      | None \<Rightarrow>
          if pol AND ignore_extra_column \<noteq> 0 then header_spec pol names found (ord @ [-1]) ss
          else Inl (column_error extra_column_in_header s))"

context quote_policy
begin

text \<open>One column of the loop: its cleaned text is looked up, and the loop goes on behind it.\<close>

lemma header_loop_step:
  assumes t: "NUL \<notin> set t" "col_end t = Some k" and s: "s = content (trim_text tcs (take k t))"
  obtains pre1 where "length pre1 = length pre + k + 1"
    "\<And>n found ord. header_loop (Suc n) tcs qp names pol (pre @ t @ NUL # post) (Some (length pre)) found ord =
      (let mem = pre1 @ (if k < length t then drop (k + 1) t @ NUL # post else post);
           line = (if k < length t then Some (length pre1) else None)
       in case match_name s 0 names of
            Some i \<Rightarrow> if found ! i then throw (column_error duplicated_column_in_header s)
              else header_loop n tcs qp names pol mem line (found[i := True]) (ord @ [int i])
          | None \<Rightarrow> if pol AND ignore_extra_column \<noteq> 0
              then header_loop n tcs qp names pol mem line found (ord @ [-1])
              else throw (column_error extra_column_in_header s))"
proof -
  obtain j1 j2 where len: "length j1 + length s + length j2 = k" and nn: "NUL \<notin> set s"
    and chop: "chop_next_column qp (pre @ t @ NUL # post) (length pre) =
     ret (pre @ take k t @ NUL # (if k < length t then drop (k + 1) t @ NUL # post else post), length pre, length pre + k,
          if k < length t then Some (length pre + k + 1) else None)"
    and clean: "clean_column tcs qp (pre @ take k t @ NUL # (if k < length t then drop (k + 1) t @ NUL # post else post))
      (length pre) (length pre + k) =
    Some ((pre @ j1 @ s @ NUL # j2) @ (if k < length t then drop (k + 1) t @ NUL # post else post), length pre + length j1)"
    unfolding s using column_step [OF t, of tcs] by blast
  define pre1 where "pre1 = pre @ j1 @ s @ NUL # j2"
  have lpre: "length pre1 = length pre + k + 1" using len by (simp add: pre1_def)
  have cs: "cstr (drop (length pre + length j1) (pre1 @ x)) = Some s" for x
    using nn by (simp add: pre1_def cstr_terminated)
  show thesis
    by (rule that [OF lpre]) (use clean lpre cs in \<open>simp add: chop pre1_def [symmetric] Let_def split: option.split\<close>)
qed

lemma columns_SomeE:
  assumes "columns col_end t = Some cs"
  obtains k ds where "col_end t = Some k" "cs = take k t # ds"
    "if k < length t then columns col_end (drop (k + 1) t) = Some ds else ds = []"
proof -
  obtain k where k: "col_end t = Some k"
    and rest: "if k < length t then map_option ((#) (take k t)) (columns col_end (drop (k + 1) t)) = Some cs
               else cs = [take k t]"
    using assms by (subst (asm) columns.simps) (auto split: option.splits if_splits)
  show thesis using that [OF k] rest by (cases "k < length t") auto
qed

lemma header_loop_refines:
  assumes "NUL \<notin> set t" "columns col_end t = Some cs" "length t < n"
  shows "case header_spec pol names found ord (map (\<lambda>c. content (trim_text tcs c)) cs) of
     Inl e \<Rightarrow> header_loop n tcs qp names pol (pre @ t @ NUL # post) (Some (length pre)) found ord = throw e
   | Inr (f, r) \<Rightarrow> \<exists>pre'. length pre' = length pre + length t + 1 \<and>
       header_loop n tcs qp names pol (pre @ t @ NUL # post) (Some (length pre)) found ord = ret (pre' @ post, f, r)"
  using assms
proof (induction n arbitrary: t cs pre found ord)
  case 0
  then show ?case by simp
next
  case (Suc n)
  let ?cl = "\<lambda>c. content (trim_text tcs c)"
  obtain k ds where k: "col_end t = Some k" and ds: "cs = take k t # ds"
    and ds': "if k < length t then columns col_end (drop (k + 1) t) = Some ds else ds = []"
    by (rule columns_SomeE [OF Suc.prems(2)])
  define s where "s = ?cl (take k t)"
  obtain pre1 where lpre: "length pre1 = length pre + k + 1"
    and step: "\<And>n found ord. header_loop (Suc n) tcs qp names pol (pre @ t @ NUL # post) (Some (length pre)) found ord =
      (case match_name s 0 names of
            Some i \<Rightarrow> if found ! i then throw (column_error duplicated_column_in_header s)
              else header_loop n tcs qp names pol (pre1 @ (if k < length t then drop (k + 1) t @ NUL # post else post))
                (if k < length t then Some (length pre1) else None) (found[i := True]) (ord @ [int i])
          | None \<Rightarrow> if pol AND ignore_extra_column \<noteq> 0
              then header_loop n tcs qp names pol (pre1 @ (if k < length t then drop (k + 1) t @ NUL # post else post))
                (if k < length t then Some (length pre1) else None) found (ord @ [-1])
              else throw (column_error extra_column_in_header s))"
    using header_loop_step [OF Suc.prems(1) k s_def, of pre names pol post] unfolding Let_def by blast
  define mem2 where "mem2 = pre1 @ (if k < length t then drop (k + 1) t @ NUL # post else post)"
  define line' where "line' = (if k < length t then Some (length pre1) else None)"
  have cont: "case header_spec pol names f1 o1 (map ?cl ds) of
     Inl e \<Rightarrow> header_loop n tcs qp names pol mem2 line' f1 o1 = throw e
   | Inr (f, r) \<Rightarrow> \<exists>pre'. length pre' = length pre + length t + 1 \<and>
       header_loop n tcs qp names pol mem2 line' f1 o1 = ret (pre' @ post, f, r)" for f1 o1
  proof (cases "k < length t")
    case True
    have "NUL \<notin> set (drop (k + 1) t)" using Suc.prems(1) by (meson in_set_dropD)
    moreover have "length (drop (k + 1) t) < n" using True Suc.prems(3) by simp
    moreover have "length pre1 + length (drop (k + 1) t) + 1 = length pre + length t + 1" using True lpre by simp
    ultimately show ?thesis using Suc.IH [where t = "drop (k + 1) t" and cs = ds and found = f1 and ord = o1 and pre = pre1] ds' True
      by (auto simp: mem2_def line'_def split: sum.splits prod.splits)
  next
    case False
    then show ?thesis
      using ds' lpre col_end_le [OF Suc.prems(1) k] by (auto simp: mem2_def line'_def intro!: exI [of _ pre1])
  qed
  note step = step [folded mem2_def line'_def]
  show ?case
  proof (cases "match_name s 0 names")
    case None
    then show ?thesis
      using cont [of found "ord @ [-1]"] unfolding step None option.case ds
      by (simp add: s_def [symmetric] None)
  next
    case (Some i)
    then show ?thesis
      using cont [of "found[i := True]" "ord @ [int i]"] unfolding step Some option.case ds
      by (simp add: s_def [symmetric] Some)
  qed
qed

end

text \<open>The search for a name, and what the loop yields for distinct names.\<close>

definition name_index :: "string list \<Rightarrow> string \<Rightarrow> int" where
  "name_index names s = (case match_name s 0 names of Some i \<Rightarrow> int i | None \<Rightarrow> -1)"

lemma match_name_Some: "match_name s j names = Some i \<Longrightarrow> j \<le> i \<and> i < j + length names \<and> names ! (i - j) = s"
  by (induction s j names rule: match_name.induct) (fastforce split: if_splits simp: nth_Cons')+

lemma match_name_None: "match_name s j names = None \<longleftrightarrow> s \<notin> set names"
  by (induction s j names rule: match_name.induct) auto

lemma match_name_nth: "distinct names \<Longrightarrow> i < length names \<Longrightarrow> match_name (names ! i) 0 names = Some i"
proof -
  assume d: "distinct names" "i < length names"
  then obtain k where k: "match_name (names ! i) 0 names = Some k" by (cases "match_name (names ! i) 0 names") (auto simp: match_name_None)
  from match_name_Some [OF this] have "names ! k = names ! i" "k < length names" by auto
  then show ?thesis using d k nth_eq_iff_index_eq by metis
qed

definition header_fits :: "u32 \<Rightarrow> string list \<Rightarrow> bool list \<Rightarrow> string list \<Rightarrow> bool" where
  "header_fits pol names found ss \<longleftrightarrow> distinct (filter (\<lambda>s. s \<in> set names) ss) \<and>
     (\<forall>i<length names. found ! i \<longrightarrow> names ! i \<notin> set ss) \<and>
     (pol AND ignore_extra_column \<noteq> 0 \<or> set ss \<subseteq> set names)"

lemma header_spec_ok:
  assumes "distinct names" "length found = length names" "header_fits pol names found ss"
  shows "header_spec pol names found ord ss =
    Inr (map (\<lambda>i. found ! i \<or> names ! i \<in> set ss) [0..<length names], ord @ map (name_index names) ss)"
  using assms
proof (induction ss arbitrary: found ord)
  case Nil
  then show ?case using map_nth [of found] by simp
next
  case (Cons s ss)
  show ?case
  proof (cases "match_name s 0 names")
    case None
    then have s: "s \<notin> set names" by (simp add: match_name_None)
    have "header_fits pol names found ss" using Cons.prems(3) s by (auto simp: header_fits_def)
    moreover have "pol AND ignore_extra_column \<noteq> 0" using Cons.prems(3) s by (auto simp: header_fits_def)
    moreover have "names ! i \<noteq> s" if "i < length names" for i using s nth_mem that by blast
    then have "map (\<lambda>i. found ! i \<or> names ! i \<in> set ss) [0..<length names] =
        map (\<lambda>i. found ! i \<or> names ! i \<in> set (s # ss)) [0..<length names]" by simp
    ultimately show ?thesis using Cons.IH [of found "ord @ [-1]"] Cons.prems(1,2) None
      by (simp add: name_index_def)
  next
    case (Some i)
    then have i: "i < length names" "names ! i = s" using match_name_Some by fastforce+
    then have s: "s \<in> set names" by auto
    have nf: "\<not> found ! i" using Cons.prems(3) i by (auto simp: header_fits_def)
    have "s \<notin> set ss" using Cons.prems(3) s by (simp add: header_fits_def)
    moreover have "names ! j = s \<Longrightarrow> j < length names \<Longrightarrow> j = i" for j
      using Cons.prems(1) i nth_eq_iff_index_eq by blast
    ultimately have "found[i := True] ! j \<Longrightarrow> j < length names \<Longrightarrow> names ! j \<notin> set ss" for j
    proof (cases "j = i")
      case False
      then show "found[i := True] ! j \<Longrightarrow> j < length names \<Longrightarrow> names ! j \<notin> set ss"
        using Cons.prems(3) by (simp add: header_fits_def)
    qed (simp add: i)
    then have "header_fits pol names (found[i := True]) ss"
      using Cons.prems(3) s by (simp add: header_fits_def)
    moreover have "map (\<lambda>j. found[i := True] ! j \<or> names ! j \<in> set ss) [0..<length names] =
        map (\<lambda>j. found ! j \<or> names ! j \<in> set (s # ss)) [0..<length names]"
    proof (rule map_cong)
      fix j assume "j \<in> set [0..<length names]"
      then show "(found[i := True] ! j \<or> names ! j \<in> set ss) \<longleftrightarrow> (found ! j \<or> names ! j \<in> set (s # ss))"
        using i Cons.prems(1,2) nth_eq_iff_index_eq [of names j i] by (cases "j = i") auto
    qed simp
    ultimately show ?thesis using Cons.IH [of "found[i := True]" "ord @ [int i]"] Cons.prems(1,2) Some nf
      by (simp add: name_index_def)
  qed
qed

lemma header_spec_bad:
  assumes "distinct names" "length found = length names" "\<not> header_fits pol names found ss"
  shows "\<exists>e. header_spec pol names found ord ss = Inl e \<and>
    kind e \<in> {duplicated_column_in_header, extra_column_in_header}"
  using assms
proof (induction ss arbitrary: found ord)
  case Nil
  then show ?case by (simp add: header_fits_def)
next
  case (Cons s ss)
  show ?case
  proof (cases "match_name s 0 names")
    case None
    then have s: "s \<notin> set names" by (simp add: match_name_None)
    show ?thesis
    proof (cases "pol AND ignore_extra_column = 0")
      case True
      then show ?thesis using None by (simp add: column_error_def new_error_def Let_def)
    next
      case False
      then have "\<not> header_fits pol names found ss" using Cons.prems(3) s by (auto simp: header_fits_def)
      then show ?thesis using Cons.IH [of found "ord @ [-1]"] Cons.prems(1,2) None False by simp
    qed
  next
    case (Some i)
    then have i: "i < length names" "names ! i = s" using match_name_Some by fastforce+
    show ?thesis
    proof (cases "found ! i")
      case True
      then show ?thesis using Some by (simp add: column_error_def new_error_def Let_def)
    next
      case False
      have "\<not> header_fits pol names (found[i := True]) ss"
      proof
        assume f: "header_fits pol names (found[i := True]) ss"
        then have "s \<notin> set ss" using i Cons.prems(2) by (auto simp: header_fits_def)
        moreover have "found ! j \<Longrightarrow> j < length names \<Longrightarrow> names ! j \<noteq> s \<and> names ! j \<notin> set ss" for j
          using f False i Cons.prems(1) nth_eq_iff_index_eq
          by (metis (no_types, lifting) header_fits_def nth_list_update_neq)
        ultimately have "header_fits pol names found (s # ss)"
          using f i by (auto simp: header_fits_def)
        then show False using Cons.prems(3) by blast
      qed
      then show ?thesis using Cons.IH [of "found[i := True]" "ord @ [int i]"] Cons.prems(1,2) Some False by simp
    qed
  qed
qed

text \<open>The loop stops at the first name that is repeated or not expected, and its error names it.\<close>

lemma header_spec_first:
  assumes "distinct names" "length found = length names" "header_spec pol names found ord ss = Inl e"
  shows "\<exists>us v ws. ss = us @ v # ws \<and> header_fits pol names found us \<and>
    (if v \<in> set names then v \<in> set us \<or> (\<exists>i<length names. found ! i \<and> names ! i = v) else pol AND ignore_extra_column = 0) \<and>
    e = column_error (if v \<in> set names then duplicated_column_in_header else extra_column_in_header) v"
  using assms(2,3)
proof (induction ss arbitrary: found ord)
  case (Cons s ss)
  show ?case
  proof (cases "match_name s 0 names")
    case None
    then have s: "s \<notin> set names" by (simp add: match_name_None)
    show ?thesis
    proof (cases "pol AND ignore_extra_column = 0")
      case True
      then show ?thesis using Cons.prems(2) None s
        by (intro exI [of _ "[]"] exI [of _ s] exI [of _ ss]) (simp add: header_fits_def)
    next
      case False
      then have "header_spec pol names found (ord @ [-1]) ss = Inl e" using Cons.prems(2) None by simp
      from Cons.IH [OF Cons.prems(1) this] obtain us v ws where i: "ss = us @ v # ws" "header_fits pol names found us"
        "if v \<in> set names then v \<in> set us \<or> (\<exists>i<length names. found ! i \<and> names ! i = v) else pol AND ignore_extra_column = 0"
        "e = column_error (if v \<in> set names then duplicated_column_in_header else extra_column_in_header) v" by blast
      have "header_fits pol names found (s # us)" using i(2) s False by (auto simp: header_fits_def)
      then show ?thesis using i by (intro exI [of _ "s # us"] exI [of _ v] exI [of _ ws]) (auto split: if_splits)
    qed
  next
    case (Some i)
    then have i: "i < length names" "names ! i = s" using match_name_Some by fastforce+
    then have s: "s \<in> set names" by auto
    show ?thesis
    proof (cases "found ! i")
      case True
      then show ?thesis using Cons.prems(2) Some s i
        by (intro exI [of _ "[]"] exI [of _ s] exI [of _ ss]) (auto simp: header_fits_def)
    next
      case False
      then have "header_spec pol names (found[i := True]) (ord @ [int i]) ss = Inl e" using Cons.prems(2) Some by simp
      from Cons.IH [OF _ this] Cons.prems(1) obtain us v ws where u: "ss = us @ v # ws" "header_fits pol names (found[i := True]) us"
        "if v \<in> set names then v \<in> set us \<or> (\<exists>j<length names. found[i := True] ! j \<and> names ! j = v) else pol AND ignore_extra_column = 0"
        "e = column_error (if v \<in> set names then duplicated_column_in_header else extra_column_in_header) v" by auto
      have other: "found[i := True] ! j = (j = i \<or> found ! j)" if "j < length names" for j
        using that i(1) Cons.prems(1) by (auto simp: nth_list_update)
      have "header_fits pol names found (s # us)"
        using u(2) s i False assms(1) other by (auto simp: header_fits_def nth_eq_iff_index_eq)
      moreover have "if v \<in> set names then v \<in> set (s # us) \<or> (\<exists>j<length names. found ! j \<and> names ! j = v)
          else pol AND ignore_extra_column = 0"
        using u(3) other i(2) by (auto split: if_splits)
      ultimately show ?thesis using u(1,4) by (intro exI [of _ "s # us"] exI [of _ v] exI [of _ ws]) simp
    qed
  qed
qed simp

lemma missing_name_None:
  "length found = length names \<Longrightarrow> missing_name found names = None \<longleftrightarrow> (\<forall>i<length names. found ! i)"
proof (induction found names rule: missing_name.induct)
  case (1 f fs n ns)
  then show ?case by (auto simp: nth_Cons' All_less_Suc2)
qed auto

section \<open>Separated text\<close>

fun split_sep :: "char \<Rightarrow> char list \<Rightarrow> char list list" where
  "split_sep sep [] = [[]]"
| "split_sep sep (c # t) =
     (if c = sep then [] # split_sep sep t
      else case split_sep sep t of [] \<Rightarrow> [[c]] | w # ws \<Rightarrow> (c # w) # ws)"

lemma split_sep_unfold:
  "split_sep sep t = (let k = length (takeWhile (\<lambda>c. c \<noteq> sep) t) in
     if k < length t then take k t # split_sep sep (drop (k + 1) t) else [t])"
  by (induction t) (auto simp: Let_def)

lemma columns_plain: "columns (plain_end sep) t = Some (split_sep sep t)"
proof (induction "length t" arbitrary: t rule: less_induct)
  case less
  let ?k = "length (takeWhile (\<lambda>c. c \<noteq> sep) t)"
  show ?case
  proof (cases "?k < length t")
    case True
    then have "columns (plain_end sep) (drop (?k + 1) t) = Some (split_sep sep (drop (?k + 1) t))"
      by (intro less) simp
    with True show ?thesis
      by (subst columns.simps, subst split_sep_unfold) (simp add: plain_end_def Let_def)
  next
    case False
    then show ?thesis
      by (subst columns.simps, subst split_sep_unfold) (simp add: plain_end_def Let_def)
  qed
qed

text \<open>
  With the default policy, \<^verbatim>\<open>parse_line\<close> cuts a line at its separators. A line with as many columns as
  the header is accepted and the row then points at the trimmed columns, in the order of the header; a
  line with fewer or more raises \<^verbatim>\<open>too_few_columns\<close> or \<^verbatim>\<open>too_many_columns\<close>. No byte outside the line is
  touched and the entries of the row that the header does not name stay.
\<close>

lemma parse_line_columns:
  fixes sep :: char and t :: "char list"
  assumes "\<forall>i\<in>set ord. i = -1 \<or> 0 \<le> i \<and> nat i < length row" "points pre row srow" "NUL \<notin> set t"
  defines "cs \<equiv> split_sep sep t"
  shows "if length cs < length ord then
      parse_line tcs (no_quote_escape sep) (pre @ t @ NUL # post) (Some (length pre)) row ord =
        throw (new_error too_few_columns)
    else if length ord < length cs then
      parse_line tcs (no_quote_escape sep) (pre @ t @ NUL # post) (Some (length pre)) row ord =
        throw (new_error too_many_columns)
    else \<exists>pre' row'. length pre' = length pre + length t + 1 \<and>
      points pre' row' (fill_row srow ord (map (trim_text tcs) cs)) \<and>
      parse_line tcs (no_quote_escape sep) (pre @ t @ NUL # post) (Some (length pre)) row ord = ret (pre' @ post, row')"
  using plain.parse_line_refines [OF assms(1-3), where sep = sep and tcs = tcs and post = post]
  unfolding line_spec_columns [OF columns_plain] cs_def by (simp split: if_splits)

text \<open>The end of \<^verbatim>\<open>parse_header_line\<close>: the test for missing columns, after the loop has accepted the names.\<close>

lemma header_missing_test:
  fixes names ss :: "string list" and tcs :: "char list"
  assumes loop: "header_loop (length mem + 1) tcs qp names pol mem line (replicate (length names) False) [] = ret (mem', f, ord)"
    and f: "f = map (\<lambda>i. names ! i \<in> set ss) [0..<length names]"
  shows "if pol AND ignore_missing_column \<noteq> 0 \<or> set names \<subseteq> set ss
    then parse_header_line tcs qp mem line names pol = ret (mem', ord)
    else \<exists>e. kind e = missing_column_in_header \<and> parse_header_line tcs qp mem line names pol = throw e"
proof -
  have miss: "missing_name f names = None \<longleftrightarrow> set names \<subseteq> set ss"
    by (subst missing_name_None) (auto simp: f subset_eq all_set_conv_all_nth)
  show ?thesis
  proof (cases "pol AND ignore_missing_column \<noteq> 0 \<or> set names \<subseteq> set ss")
    case True
    then show ?thesis using loop miss by (auto simp: parse_header_line_def)
  next
    case False
    then obtain nm where "missing_name f names = Some nm" using miss by auto
    then have "parse_header_line tcs qp mem line names pol =
        throw (column_error missing_column_in_header (takeWhile (\<lambda>c. c \<noteq> NUL) nm))"
      using loop False by (auto simp: parse_header_line_def)
    moreover have "kind (column_error missing_column_in_header (takeWhile (\<lambda>c. c \<noteq> NUL) nm)) = missing_column_in_header"
      by (simp add: column_error_def new_error_def Let_def)
    ultimately show ?thesis using False by auto
  qed
qed

lemma header_line_spec:
  fixes sep :: char and tcs t :: "char list"
  assumes "distinct names" "NUL \<notin> set t"
  defines "ss \<equiv> map (trim_text tcs) (split_sep sep t)"
  shows "if distinct (filter (\<lambda>s. s \<in> set names) ss) \<and>
      (pol AND ignore_extra_column \<noteq> 0 \<or> set ss \<subseteq> set names) \<and>
      (pol AND ignore_missing_column \<noteq> 0 \<or> set names \<subseteq> set ss)
    then \<exists>pre'. length pre' = length pre + length t + 1 \<and>
      parse_header_line tcs (no_quote_escape sep) (pre @ t @ NUL # post) (Some (length pre)) names pol =
        ret (pre' @ post, map (name_index names) ss)
    else \<exists>e. kind e \<in> {duplicated_column_in_header, extra_column_in_header, missing_column_in_header} \<and>
      parse_header_line tcs (no_quote_escape sep) (pre @ t @ NUL # post) (Some (length pre)) names pol = throw e"
proof -
  let ?mem = "pre @ t @ NUL # post" and ?f = "replicate (length names) False" and ?qp = "no_quote_escape sep"
  have fits: "header_fits pol names ?f ss \<longleftrightarrow> distinct (filter (\<lambda>s. s \<in> set names) ss) \<and>
      (pol AND ignore_extra_column \<noteq> 0 \<or> set ss \<subseteq> set names)"
    by (auto simp: header_fits_def)
  have loop: "case header_spec pol names ?f [] ss of
     Inl e \<Rightarrow> header_loop (length ?mem + 1) tcs ?qp names pol ?mem (Some (length pre)) ?f [] = throw e
   | Inr (f, r) \<Rightarrow> \<exists>pre'. length pre' = length pre + length t + 1 \<and>
       header_loop (length ?mem + 1) tcs ?qp names pol ?mem (Some (length pre)) ?f [] = ret (pre' @ post, f, r)"
    unfolding ss_def using assms(2) by (intro plain.header_loop_refines columns_plain) auto
  show ?thesis
  proof (cases "header_fits pol names ?f ss")
    case False
    then obtain e where "header_spec pol names ?f [] ss = Inl e"
      "kind e \<in> {duplicated_column_in_header, extra_column_in_header}"
      using header_spec_bad [OF assms(1) _ False, of "[]"] by auto
    then have "parse_header_line tcs ?qp ?mem (Some (length pre)) names pol = throw e"
      and "kind e \<in> {duplicated_column_in_header, extra_column_in_header, missing_column_in_header}"
      using loop by (auto simp: parse_header_line_def)
    then show ?thesis using False fits by auto
  next
    case True
    define f where "f = map (\<lambda>i. names ! i \<in> set ss) [0..<length names]"
    have "header_spec pol names ?f [] ss = Inr (f, map (name_index names) ss)"
      using header_spec_ok [OF assms(1) _ True, of "[]"] by (simp add: f_def cong: map_cong)
    then obtain pre' where pre': "length pre' = length pre + length t + 1"
      "header_loop (length ?mem + 1) tcs ?qp names pol ?mem (Some (length pre)) ?f [] = ret (pre' @ post, f, map (name_index names) ss)"
      using loop by auto
    show ?thesis
      using header_missing_test [OF pre'(2) f_def] True fits pre'(1)
      by (cases "pol AND ignore_missing_column \<noteq> 0 \<or> set names \<subseteq> set ss") auto
  qed
qed

text \<open>The error of a line whose names are refused in the loop.\<close>

lemma header_line_error:
  fixes sep :: char and tcs t :: "char list"
  assumes "distinct names" "NUL \<notin> set t"
  defines "ss \<equiv> map (trim_text tcs) (split_sep sep t)"
  assumes bad: "\<not> (distinct (filter (\<lambda>s. s \<in> set names) ss) \<and> (pol AND ignore_extra_column \<noteq> 0 \<or> set ss \<subseteq> set names))"
  obtains us v ws where "ss = us @ v # ws" "distinct (filter (\<lambda>s. s \<in> set names) us)"
    "pol AND ignore_extra_column \<noteq> 0 \<or> set us \<subseteq> set names"
    "if v \<in> set names then v \<in> set us else pol AND ignore_extra_column = 0"
    "parse_header_line tcs (no_quote_escape sep) (pre @ t @ NUL # post) (Some (length pre)) names pol =
      throw (column_error (if v \<in> set names then duplicated_column_in_header else extra_column_in_header) v)"
proof -
  let ?mem = "pre @ t @ NUL # post" and ?f = "replicate (length names) False" and ?qp = "no_quote_escape sep"
  have "\<not> header_fits pol names ?f ss" using bad by (auto simp: header_fits_def)
  from header_spec_bad [OF assms(1) _ this, of "[]"] obtain e where e: "header_spec pol names ?f [] ss = Inl e" by auto
  have "case header_spec pol names ?f [] ss of
     Inl e \<Rightarrow> header_loop (length ?mem + 1) tcs ?qp names pol ?mem (Some (length pre)) ?f [] = throw e
   | Inr (f, r) \<Rightarrow> \<exists>pre'. length pre' = length pre + length t + 1 \<and>
       header_loop (length ?mem + 1) tcs ?qp names pol ?mem (Some (length pre)) ?f [] = ret (pre' @ post, f, r)"
    unfolding ss_def using assms(2) by (intro plain.header_loop_refines columns_plain) auto
  then have p: "parse_header_line tcs ?qp ?mem (Some (length pre)) names pol = throw e"
    using e by (simp add: parse_header_line_def)
  from header_spec_first [OF assms(1) _ e] obtain us v ws where
    "ss = us @ v # ws" "header_fits pol names ?f us"
    "if v \<in> set names then v \<in> set us \<or> (\<exists>i<length names. ?f ! i \<and> names ! i = v) else pol AND ignore_extra_column = 0"
    "e = column_error (if v \<in> set names then duplicated_column_in_header else extra_column_in_header) v" by auto
  then show thesis using p by (intro that [of us v ws]) (auto simp: header_fits_def split: if_splits)
qed

text \<open>
  C17: a header line is accepted exactly when no expected name occurs twice in it, every column has an
  expected name (or extra columns are ignored) and every expected name occurs (or missing columns are
  ignored). The order then lists, column by column, the index of the column's name, or -1; otherwise one
  of the three header errors is raised.
\<close>

theorem parse_header_line_correct:
  fixes sep :: char and tcs t :: "char list"
  assumes "distinct names" "NUL \<notin> set t"
  defines "ss \<equiv> map (trim_text tcs) (split_sep sep t)"
  shows "if distinct (filter (\<lambda>s. s \<in> set names) ss) \<and>
      (pol AND ignore_extra_column \<noteq> 0 \<or> set ss \<subseteq> set names) \<and>
      (pol AND ignore_missing_column \<noteq> 0 \<or> set names \<subseteq> set ss)
    then \<exists>pre'. length pre' = length pre + length t + 1 \<and>
      parse_header_line tcs (no_quote_escape sep) (pre @ t @ NUL # post) (Some (length pre)) names pol =
        ret (pre' @ post, map (name_index names) ss)
    else \<exists>e. kind e \<in> {duplicated_column_in_header, extra_column_in_header, missing_column_in_header} \<and>
      parse_header_line tcs (no_quote_escape sep) (pre @ t @ NUL # post) (Some (length pre)) names pol = throw e"
  unfolding ss_def using assms(1,2) by (rule header_line_spec)

theorem parse_header_line_correct_witness:
  "\<exists>pre'. parse_header_line [] (no_quote_escape CHR '','') (''b,a'' @ [NUL]) (Some 0) [''a'', ''b''] ignore_no_column =
     ret (pre', [1, 0])"
  using parse_header_line_correct [of "[''a'', ''b'']" "''b,a''" "[]" "CHR '',''" ignore_no_column "[]" "[]"]
  by (auto simp: trim_text_def name_index_def)

section \<open>Quoting and reading back\<close>

definition double_quotes :: "char \<Rightarrow> string \<Rightarrow> string" where
  "double_quotes quote s = concat (map (\<lambda>c. if c = quote then [quote, quote] else [c]) s)"

definition enquote :: "char \<Rightarrow> string \<Rightarrow> string" where
  "enquote quote s = [quote] @ double_quotes quote s @ [quote]"

fun join_sep :: "char \<Rightarrow> string list \<Rightarrow> string" where
  "join_sep sep [] = []"
| "join_sep sep [s] = s"
| "join_sep sep (s # t # ts) = s @ sep # join_sep sep (t # ts)"

lemma double_quotes_simps [simp]:
  "double_quotes quote [] = []"
  "double_quotes quote (c # s) = (if c = quote then quote # quote # double_quotes quote s else c # double_quotes quote s)"
  by (simp_all add: double_quotes_def)

lemma quoted_len_Cons: "c \<noteq> quote \<Longrightarrow> quoted_len quote (c # t) = map_option Suc (quoted_len quote t)"
  by (cases t) simp_all

lemma quoted_len_double:
  assumes "r = [] \<or> hd r \<noteq> quote"
  shows "quoted_len quote (double_quotes quote s @ quote # r) = Some (length (double_quotes quote s) + 1)"
proof (induction s)
  case Nil
  then show ?case using assms by (cases r) auto
next
  case (Cons c s)
  then show ?case by (auto simp: quoted_len_Cons)
qed

lemma quoted_end_enquote:
  assumes "r = [] \<or> hd r = sep" "sep \<noteq> quote"
  shows "quoted_end sep quote (enquote quote s @ r) = Some (length (enquote quote s))"
proof -
  have q: "quoted_len quote (double_quotes quote s @ quote # r) = Some (length (double_quotes quote s) + 1)"
    using assms by (intro quoted_len_double) auto
  have "quoted_end sep quote r = Some 0" using assms by (cases r) auto
  with q assms(2) show ?thesis by (simp add: enquote_def)
qed

lemma undouble_double: "undouble quote (double_quotes quote s) = s"
proof (induction s)
  case (Cons c s)
  have "undouble quote (c # t) = c # undouble quote t" if "c \<noteq> quote" for t
    using that by (cases t) simp_all
  with Cons show ?case by simp
qed simp

lemma quoted_content_enquote: "quoted_content quote (enquote quote s) = s"
  by (simp add: quoted_content_def enquote_def undouble_double)

lemma trim_enquote: "\<not> is_trim_char quote tcs \<Longrightarrow> trim_text tcs (enquote quote s) = enquote quote s"
  by (simp add: trim_text_def enquote_def)

lemma columns_enquote:
  assumes "sep \<noteq> quote" "fs \<noteq> []"
  shows "columns (quoted_end sep quote) (join_sep sep (map (enquote quote) fs)) = Some (map (enquote quote) fs)"
  using assms(2)
proof (induction fs rule: induct_list012)
  case (2 f)
  then show ?case using quoted_end_enquote [of "[]" sep quote f] assms(1) by (subst columns.simps) simp
next
  case (3 f g fs)
  let ?rest = "join_sep sep (map (enquote quote) (g # fs))"
  have e: "quoted_end sep quote (enquote quote f @ sep # ?rest) = Some (length (enquote quote f))"
    using assms(1) by (intro quoted_end_enquote) simp_all
  have IH: "columns (quoted_end sep quote) ?rest = Some (map (enquote quote) (g # fs))"
    using "3.IH"(2) by simp
  show ?case using e IH by (subst columns.simps) simp
qed simp

lemma fill_row_in_order:
  "length cs = m \<Longrightarrow> fill_row (map Some ds @ replicate m None) (map int [length ds..<length ds + m]) cs = map Some (ds @ cs)"
proof (induction cs arbitrary: ds m)
  case (Cons c cs)
  then obtain n where m: "m = Suc n" "length cs = n" by (cases m) auto
  have u: "(map Some ds @ replicate (Suc n) None)[length ds := Some c] = map Some (ds @ [c]) @ replicate n None"
    using list_update_length [of "map Some ds" None "replicate n None" "Some c"] by simp
  have "map int [length ds..<length ds + Suc n] = int (length ds) # map int [length (ds @ [c])..<length (ds @ [c]) + n]"
    by (simp add: upt_conv_Cons)
  then show ?case using Cons.IH [of n "ds @ [c]"] m u by simp
qed simp

lemma set_join_sep: "set (join_sep sep ss) \<subseteq> insert sep (\<Union> (set ` set ss))"
  by (induction sep ss rule: join_sep.induct) auto

lemma set_enquote: "set (enquote quote s) \<subseteq> insert quote (set s)"
  by (auto simp: enquote_def double_quotes_def split: if_splits)

text \<open>
  C18: with the quoting policy, a row whose fields are quoted (quotes inside a field doubled) and joined by
  the separator is read back exactly, whatever separators, blanks and quotes the fields contain.
\<close>

theorem quoted_row_roundtrip:
  assumes "fs \<noteq> []" "\<forall>f\<in>set fs. NUL \<notin> set f" "sep \<noteq> quote" "sep \<noteq> NUL" "quote \<noteq> NUL" "\<not> is_trim_char quote tcs"
  shows "\<exists>mem' row'. parse_line tcs (double_quote_escape sep quote) (join_sep sep (map (enquote quote) fs) @ [NUL]) (Some 0)
      (replicate (length fs) None) (map int [0..<length fs]) = ret (mem', row') \<and> points mem' row' (map Some fs)"
proof -
  let ?t = "join_sep sep (map (enquote quote) fs)" and ?n = "length fs"
  have "set ?t \<subseteq> insert sep (\<Union>f\<in>set fs. set (enquote quote f))"
    using set_join_sep [of sep "map (enquote quote) fs"] by simp
  then have nn: "NUL \<notin> set ?t" using assms(2,4,5) set_enquote by fastforce
  have cs: "columns (quoted_end sep quote) ?t = Some (map (enquote quote) fs)"
    by (rule columns_enquote [OF assms(3,1)])
  have sp: "line_spec (quoted_end sep quote) (\<lambda>c. quoted_content quote (trim_text tcs c)) (replicate ?n None) (Some ?t)
      (map int [0..<?n]) = Inr (map Some fs)"
    using fill_row_in_order [of fs ?n "[]"] assms(6)
    by (simp add: line_spec_columns [OF cs] trim_enquote quoted_content_enquote comp_def)
  have "points [] (replicate ?n None) (replicate ?n None)"
    by (simp add: points_def list_all2_conv_all_nth)
  from quoted.parse_line_refines [OF _ this nn, where ord = "map int [0..<?n]" and sep = sep and quote = quote and tcs = tcs and post = "[]"] show ?thesis
    unfolding sp by auto
qed

theorem quoted_row_roundtrip_witness:
  "\<exists>mem' row'. parse_line [CHR '' ''] (double_quote_escape CHR '','' CHR 0x22)
      (join_sep CHR '','' (map (enquote CHR 0x22) ['' a,'', [CHR 0x22]]) @ [NUL]) (Some 0) [None, None] [0, 1] = ret (mem', row') \<and>
     points mem' row' [Some '' a,'', Some [CHR 0x22]]"
  using quoted_row_roundtrip [of "['' a,'', [CHR 0x22]]" "CHR '',''" "CHR 0x22" "[CHR '' '']"]
  by (simp add: upt_rec)

end
