(* ===== verification/Csv_Numbers.thy ===== *)
theory Csv_Numbers
  imports Csv_Error Complex_Main
begin

text \<open>
  Reading a column into a variable: the overflow policies and the \<^verbatim>\<open>parse\<close> functions of
  \<^verbatim>\<open>src/src/csv.h\<close> (lines 913 to 950 and 1059 to 1291).

  The functions only read the column, so it is its C string. An integer type \<^verbatim>\<open>T\<close> is its width and
  signedness; a value is an \<open>int\<close>, and a result outside a signed type, which is undefined in C++, is
  \<open>None\<close>. The operations of a floating-point type are an argument; the theorem on \<^verbatim>\<open>parse_float\<close> takes the
  exact ones, so it is about the algorithm and not about rounding.
\<close>

section \<open>Integer types and overflow policies\<close>

record int_type =
  bits :: nat
  is_signed :: bool

definition num_max :: "int_type \<Rightarrow> int" where
  "num_max T = (if is_signed T then 2 ^ (bits T - 1) - 1 else 2 ^ bits T - 1)"

definition num_min :: "int_type \<Rightarrow> int" where
  "num_min T = (if is_signed T then - (2 ^ (bits T - 1)) else 0)"

definition store_num :: "int_type \<Rightarrow> int \<Rightarrow> int option" where
  "store_num T v =
     (if num_min T \<le> v \<and> v \<le> num_max T then Some v
      else if is_signed T then None else Some (v mod 2 ^ bits T))"

text \<open>Division of C++, which rounds towards zero.\<close>

definition trunc_div :: "int \<Rightarrow> int \<Rightarrow> int" where
  "trunc_div a b = sgn a * sgn b * (\<bar>a\<bar> div \<bar>b\<bar>)"

record overflow_policy =
  on_overflow :: "int_type \<Rightarrow> int \<Rightarrow> int res"
  on_underflow :: "int_type \<Rightarrow> int \<Rightarrow> int res"

definition throw_on_overflow :: overflow_policy where
  "throw_on_overflow = \<lparr>on_overflow = (\<lambda>T x. throw (new_error integer_overflow)),
     on_underflow = (\<lambda>T x. throw (new_error integer_underflow))\<rparr>"

definition ignore_overflow :: overflow_policy where
  "ignore_overflow = \<lparr>on_overflow = (\<lambda>T x. ret x), on_underflow = (\<lambda>T x. ret x)\<rparr>"

definition set_to_max_on_overflow :: overflow_policy where
  "set_to_max_on_overflow = \<lparr>on_overflow = (\<lambda>T x. ret (num_max T)), on_underflow = (\<lambda>T x. ret (num_min T))\<rparr>"

section \<open>Reading characters, strings and integers\<close>

definition parse_char :: "string \<Rightarrow> char res" where
  "parse_char col =
     (case col of
        [] \<Rightarrow> throw (new_error invalid_single_character)
      | c # rest \<Rightarrow> if rest = [] then ret c else throw (new_error invalid_single_character))"

definition parse_string :: "string \<Rightarrow> string res" where
  "parse_string col = ret col"

definition digit_value :: "char \<Rightarrow> int" where
  "digit_value c = schar c - schar CHR ''0''"

definition digit_test :: "char \<Rightarrow> bool" where
  "digit_test c \<longleftrightarrow> schar CHR ''0'' \<le> schar c \<and> schar c \<le> schar CHR ''9''"

fun unsigned_loop :: "overflow_policy \<Rightarrow> int_type \<Rightarrow> int \<Rightarrow> string \<Rightarrow> int res" where
  "unsigned_loop pol T x [] = ret x"
| "unsigned_loop pol T x (c # col) =
     (if digit_test c then
        let y = digit_value c
        in if x > trunc_div (num_max T - y) 10 then on_overflow pol T x
           else (case store_num T (10 * x + y) of None \<Rightarrow> None | Some x' \<Rightarrow> unsigned_loop pol T x' col)
      else throw (new_error no_digit))"

definition parse_unsigned_integer :: "overflow_policy \<Rightarrow> int_type \<Rightarrow> string \<Rightarrow> int res" where
  "parse_unsigned_integer pol T col = unsigned_loop pol T 0 col"

fun negative_loop :: "overflow_policy \<Rightarrow> int_type \<Rightarrow> int \<Rightarrow> string \<Rightarrow> int res" where
  "negative_loop pol T x [] = ret x"
| "negative_loop pol T x (c # col) =
     (if digit_test c then
        let y = digit_value c
        in if x < trunc_div (num_min T + y) 10 then on_underflow pol T x
           else (case store_num T (10 * x - y) of None \<Rightarrow> None | Some x' \<Rightarrow> negative_loop pol T x' col)
      else throw (new_error no_digit))"

definition parse_signed_integer :: "overflow_policy \<Rightarrow> int_type \<Rightarrow> string \<Rightarrow> int res" where
  "parse_signed_integer pol T col =
     (case col of
        c # rest \<Rightarrow>
          if c = CHR ''-'' then negative_loop pol T 0 rest
          else if c = CHR ''+'' then parse_unsigned_integer pol T rest
          else parse_unsigned_integer pol T col
      | [] \<Rightarrow> parse_unsigned_integer pol T col)"

section \<open>Reading floating-point numbers\<close>

record 'f float_ops =
  f_of_int :: "int \<Rightarrow> 'f"
  f_tenth :: 'f
  f_mul :: "'f \<Rightarrow> 'f \<Rightarrow> 'f"
  f_add :: "'f \<Rightarrow> 'f \<Rightarrow> 'f"
  f_div :: "'f \<Rightarrow> 'f \<Rightarrow> 'f"
  f_neg :: "'f \<Rightarrow> 'f"

fun int_part :: "'f float_ops \<Rightarrow> 'f \<Rightarrow> string \<Rightarrow> 'f \<times> string" where
  "int_part F x [] = (x, [])"
| "int_part F x (c # col) =
     (if digit_test c
      then int_part F (f_add F (f_mul F x (f_of_int F 10)) (f_of_int F (digit_value c))) col
      else (x, c # col))"

fun fraction_part :: "'f float_ops \<Rightarrow> 'f \<Rightarrow> 'f \<Rightarrow> string \<Rightarrow> 'f \<times> string" where
  "fraction_part F pos x [] = (x, [])"
| "fraction_part F pos x (c # col) =
     (if digit_test c
      then let pos' = f_div F pos (f_of_int F 10)
           in fraction_part F pos' (f_add F x (f_mul F (f_of_int F (digit_value c)) pos')) col
      else (x, c # col))"

text \<open>
  The loop \<^verbatim>\<open>while (e != 1)\<close> on a number \<open>e\<close>; from 0 it would never end, which is \<open>None\<close>.
\<close>

fun power_loop :: "'f float_ops \<Rightarrow> 'f \<Rightarrow> 'f \<Rightarrow> nat \<Rightarrow> 'f option" where
  "power_loop F x base e =
     (if e = 0 then None
      else if e = 1 then Some (f_mul F x base)
      else if even e then power_loop F x (f_mul F base base) (e div 2)
      else power_loop F (f_mul F x base) base (e - 1))"

declare power_loop.simps [simp del]

definition int32 :: int_type where "int32 = \<lparr>bits = 32, is_signed = True\<rparr>"

text \<open>The exponent: \<^verbatim>\<open>e = -e\<close> is undefined for the least \<^verbatim>\<open>int\<close>.\<close>

definition apply_exponent :: "'f float_ops \<Rightarrow> 'f \<Rightarrow> int \<Rightarrow> 'f option" where
  "apply_exponent F x e =
     (if e = 0 then Some x
      else if e < 0 then
        (case store_num int32 (- e) of None \<Rightarrow> None | Some e' \<Rightarrow> power_loop F x (f_tenth F) (nat e'))
      else power_loop F x (f_of_int F 10) (nat e))"

definition parse_float :: "'f float_ops \<Rightarrow> string \<Rightarrow> 'f res" where
  "parse_float F col =
     (let is_neg = (case col of c # _ \<Rightarrow> c = CHR ''-'' | [] \<Rightarrow> False);
          col1 = (case col of c # rest \<Rightarrow> if c = CHR ''-'' \<or> c = CHR ''+'' then rest else col | [] \<Rightarrow> col);
          (x1, col2) = int_part F (f_of_int F 0) col1;
          (x2, col3) = (case col2 of
                          c # rest \<Rightarrow> if c = CHR ''.'' \<or> c = CHR '','' then fraction_part F (f_of_int F 1) x1 rest
                                      else (x1, col2)
                        | [] \<Rightarrow> (x1, col2));
          sign = (\<lambda>x. if is_neg then f_neg F x else x)
      in case col3 of
           [] \<Rightarrow> ret (sign x2)
         | c # rest \<Rightarrow>
             if c = CHR ''e'' \<or> c = CHR ''E'' then
               res_bind (parse_signed_integer set_to_max_on_overflow int32 rest) (\<lambda>e.
                 case apply_exponent F x2 e of None \<Rightarrow> None | Some x3 \<Rightarrow> ret (sign x3))
             else throw (new_error no_digit))"

section \<open>Integers\<close>

lemma schar_zero_nine: "schar CHR ''0'' = 48" "schar CHR ''9'' = 57"
  by (simp_all add: schar_def)

lemma digit_test_iff: "digit_test c \<longleftrightarrow> is_digit c"
  using schar_digit [of c] by (auto simp: digit_test_def schar_zero_nine)

lemma digit_value_val:
  assumes "is_digit c"
  shows "digit_value c = int (digit_val c)"
proof -
  have n: "48 \<le> (of_char c :: nat)" "(of_char c :: nat) < 128" using assms by (auto simp: is_digit_def)
  have "schar c = int (of_char c)" unfolding schar_def using n(2) by (simp only: of_nat_of_char if_True)
  moreover have "int (digit_val c) = int (of_char c) - 48"
    unfolding digit_val_def using n(1) by (simp only: of_nat_diff of_nat_numeral)
  ultimately show ?thesis by (simp only: digit_value_def schar_zero_nine)
qed

text \<open>The value that reading digits behind \<open>x\<close> gives.\<close>

definition digits_from :: "int \<Rightarrow> string \<Rightarrow> int" where
  "digits_from x s = foldl (\<lambda>v c. 10 * v + int (digit_val c)) x s"

lemma digits_from_simps [simp]:
  "digits_from x [] = x" "digits_from x (c # s) = digits_from (10 * x + int (digit_val c)) s"
  by (simp_all add: digits_from_def)

lemma digits_from_ge: "0 \<le> x \<Longrightarrow> x \<le> digits_from x s"
proof (induction s arbitrary: x)
  case (Cons c s)
  have "x \<le> 10 * x + int (digit_val c)" using Cons.prems by simp
  also have "\<dots> \<le> digits_from (10 * x + int (digit_val c)) s" using Cons.prems by (intro Cons.IH) simp
  finally show ?case by simp
qed simp

lemma digits_from_dec_value: "digits_from 0 s = int (dec_value s)"
proof -
  have "digits_from (int n) s = int (foldl (\<lambda>v c. v * 10 + digit_val c) n s)" for n
  proof (induction s arbitrary: n)
    case (Cons c s)
    have "10 * int n + int (digit_val c) = int (n * 10 + digit_val c)" by simp
    then show ?case using Cons.IH [of "n * 10 + digit_val c"] by (simp only: digits_from_simps foldl.simps)
  qed simp
  from this [of 0] show ?thesis by (simp add: dec_value_def)
qed

abbreviation lead_digits :: "string \<Rightarrow> string" where
  "lead_digits s \<equiv> takeWhile is_digit s"

lemma lead_digits_Cons:
  assumes "is_digit c"
  shows "digits_from x (lead_digits (c # s)) = digits_from (10 * x + int (digit_val c)) (lead_digits s)"
    "lead_digits (c # s) = c # s \<longleftrightarrow> lead_digits s = s"
    "digits_from x (c # s) = digits_from (10 * x + int (digit_val c)) s"
  using assms by simp_all

lemma num_bounds: "8 \<le> bits T \<Longrightarrow> 127 \<le> num_max T \<and> num_min T \<le> 0"
proof -
  assume b: "8 \<le> bits T"
  have "(2::int) ^ 7 \<le> 2 ^ (bits T - 1)" "(2::int) ^ 7 \<le> 2 ^ bits T"
    using b by (intro power_increasing; simp)+
  then show ?thesis by (simp add: num_max_def num_min_def)
qed

lemma num_min_signed: "8 \<le> bits T \<Longrightarrow> is_signed T \<Longrightarrow> num_min T \<le> - 128"
proof -
  assume "8 \<le> bits T" "is_signed T"
  moreover from this have "(2::int) ^ 7 \<le> 2 ^ (bits T - 1)" by (intro power_increasing) simp_all
  ultimately show ?thesis by (simp add: num_min_def)
qed

lemma overflow_guard: "y \<le> m \<Longrightarrow> x > trunc_div (m - y) 10 \<longleftrightarrow> m < 10 * x + y" for m x y :: int
proof -
  assume "y \<le> m"
  then have "trunc_div (m - y) 10 = (m - y) div 10" by (cases "m = y") (auto simp: trunc_div_def)
  then show ?thesis by linarith
qed

lemma underflow_guard: "m + y < 0 \<Longrightarrow> x < trunc_div (m + y) 10 \<longleftrightarrow> 10 * x - y < m" for m x y :: int
proof -
  assume "m + y < 0"
  then have "trunc_div (m + y) 10 = - ((- (m + y)) div 10)" by (simp add: trunc_div_def)
  then show ?thesis by linarith
qed

lemma unsigned_loop_spec:
  assumes "8 \<le> bits T" "0 \<le> x" "x \<le> num_max T"
  shows "if num_max T < digits_from x (lead_digits s)
     then \<exists>x'. 0 \<le> x' \<and> x' \<le> num_max T \<and> unsigned_loop pol T x s = on_overflow pol T x'
     else unsigned_loop pol T x s =
       (if lead_digits s = s then ret (digits_from x s) else throw (new_error no_digit))"
  using assms(2,3)
proof (induction s arbitrary: x)
  case Nil
  then show ?case by simp
next
  case (Cons c s)
  show ?case
  proof (cases "is_digit c")
    case False
    then show ?thesis using Cons.prems by (simp add: digit_test_iff)
  next
    case True
    define y where "y = int (digit_val c)"
    have y: "0 \<le> y" "y < 10" using digit_val_less [OF True] by (simp_all add: y_def)
    have guard: "x > trunc_div (num_max T - y) 10 \<longleftrightarrow> num_max T < 10 * x + y"
      using y num_bounds [OF assms(1)] by (intro overflow_guard) linarith
    show ?thesis
    proof (cases "num_max T < 10 * x + y")
      case ov: True
      have "num_max T < digits_from (10 * x + y) (lead_digits s)"
        using ov y Cons.prems digits_from_ge [of "10 * x + y" "lead_digits s"] by linarith
      then show ?thesis
        using True ov guard Cons.prems by (auto simp: digit_test_iff digit_value_val y_def Let_def)
    next
      case ok: False
      have st: "store_num T (10 * x + y) = Some (10 * x + y)"
        using ok y Cons.prems num_bounds [OF assms(1)] by (simp add: store_num_def)
      have run: "unsigned_loop pol T x (c # s) = unsigned_loop pol T (10 * x + y) s"
        using True ok guard st by (simp add: digit_test_iff digit_value_val y_def Let_def)
      show ?thesis
        unfolding run lead_digits_Cons [OF True] y_def [symmetric]
        using ok y Cons.prems by (intro Cons.IH) simp_all
    qed
  qed
qed

lemma negative_loop_spec:
  assumes "8 \<le> bits T" "is_signed T" "0 \<le> z" "num_min T \<le> - z"
  shows "if - digits_from z (lead_digits s) < num_min T
     then \<exists>x'. num_min T \<le> x' \<and> x' \<le> 0 \<and> negative_loop pol T (- z) s = on_underflow pol T x'
     else negative_loop pol T (- z) s =
       (if lead_digits s = s then ret (- digits_from z s) else throw (new_error no_digit))"
  using assms(3,4)
proof (induction s arbitrary: z)
  case Nil
  then show ?case by simp
next
  case (Cons c s)
  show ?case
  proof (cases "is_digit c")
    case False
    then show ?thesis using Cons.prems by (simp add: digit_test_iff)
  next
    case True
    define y where "y = int (digit_val c)"
    have y: "0 \<le> y" "y < 10" using digit_val_less [OF True] by (simp_all add: y_def)
    have guard: "- z < trunc_div (num_min T + y) 10 \<longleftrightarrow> 10 * (- z) - y < num_min T"
      using y num_min_signed [OF assms(1,2)] by (intro underflow_guard) linarith
    show ?thesis
    proof (cases "10 * (- z) - y < num_min T")
      case ov: True
      have "- digits_from (10 * z + y) (lead_digits s) < num_min T"
        using ov y Cons.prems digits_from_ge [of "10 * z + y" "lead_digits s"] by linarith
      then show ?thesis
        using True ov guard Cons.prems by (auto simp: digit_test_iff digit_value_val y_def Let_def)
    next
      case ok: False
      have st: "store_num T (10 * (- z) - y) = Some (10 * (- z) - y)"
        using ok y Cons.prems num_bounds [OF assms(1)] by (simp add: store_num_def)
      have "negative_loop pol T (- z) (c # s) = negative_loop pol T (10 * (- z) - y) s"
        using True ok guard st by (simp add: digit_test_iff digit_value_val y_def Let_def)
      moreover have "10 * (- z) - y = - (10 * z + y)" by simp
      ultimately have run: "negative_loop pol T (- z) (c # s) = negative_loop pol T (- (10 * z + y)) s" by simp
      show ?thesis
        unfolding run lead_digits_Cons [OF True] y_def [symmetric]
        using ok y Cons.prems by (intro Cons.IH) simp_all
    qed
  qed
qed

text \<open>The part of a number behind its sign, and the value of its leading digits with the sign.\<close>

definition number_body :: "string \<Rightarrow> string" where
  "number_body s = (case s of c # r \<Rightarrow> if c = CHR ''-'' \<or> c = CHR ''+'' then r else s | [] \<Rightarrow> s)"

definition number_value :: "string \<Rightarrow> int" where
  "number_value s =
     (let v = int (dec_value (lead_digits (number_body s)))
      in case s of c # _ \<Rightarrow> if c = CHR ''-'' then - v else v | [] \<Rightarrow> v)"

lemma parse_unsigned_integer_spec:
  assumes "8 \<le> bits T"
  shows "if num_max T < int (dec_value (lead_digits s))
     then \<exists>x. 0 \<le> x \<and> x \<le> num_max T \<and> parse_unsigned_integer pol T s = on_overflow pol T x
     else parse_unsigned_integer pol T s =
       (if lead_digits s = s then ret (int (dec_value s)) else throw (new_error no_digit))"
  using unsigned_loop_spec [OF assms, of 0 s pol] num_bounds [OF assms]
  by (simp add: parse_unsigned_integer_def digits_from_dec_value)

lemma negative_number_spec:
  assumes "8 \<le> bits T" "is_signed T"
  shows "if - int (dec_value (lead_digits s)) < num_min T
     then \<exists>x. num_min T \<le> x \<and> x \<le> 0 \<and> parse_signed_integer pol T (CHR ''-'' # s) = on_underflow pol T x
     else parse_signed_integer pol T (CHR ''-'' # s) =
       (if lead_digits s = s then ret (- int (dec_value s)) else throw (new_error no_digit))"
  using negative_loop_spec [OF assms, of 0 s pol, unfolded minus_zero] num_bounds [OF assms(1)]
  by (simp add: parse_signed_integer_def digits_from_dec_value)

lemma positive_number_eq:
  "(\<nexists>r. s = CHR ''-'' # r) \<Longrightarrow> parse_signed_integer pol T s = parse_unsigned_integer pol T (number_body s)"
  by (cases s) (auto simp: parse_signed_integer_def number_body_def)

text \<open>
  With the default policy, a signed integer is read exactly: the value of its leading digits with its
  sign when it fits the type and nothing follows; \<^verbatim>\<open>integer_overflow\<close> or \<^verbatim>\<open>integer_underflow\<close> when the leading
  digits exceed the type, even if other characters follow; \<^verbatim>\<open>no_digit\<close> otherwise. No arithmetic of the loop
  overflows, for every signed type of at least 8 bits.
\<close>

lemma parse_signed_integer_correct:
  assumes "8 \<le> bits T" "is_signed T"
  shows "parse_signed_integer throw_on_overflow T s =
    (if num_max T < number_value s then throw (new_error integer_overflow)
     else if number_value s < num_min T then throw (new_error integer_underflow)
     else if lead_digits (number_body s) = number_body s then ret (number_value s)
     else throw (new_error no_digit))"
proof (cases "\<exists>r. s = CHR ''-'' # r")
  case True
  then obtain r where s: "s = CHR ''-'' # r" by blast
  have v: "number_value s = - int (dec_value (lead_digits r))" "number_body s = r"
    by (simp_all add: number_value_def number_body_def s)
  have b: "0 \<le> num_max T" using num_bounds [OF assms(1)] by simp
  show ?thesis
    using negative_number_spec [OF assms, of r throw_on_overflow] b unfolding v
    by (auto simp: s throw_on_overflow_def simp del: takeWhile_eq_all_conv split: if_splits)
next
  case False
  have v: "number_value s = int (dec_value (lead_digits (number_body s)))"
    using False by (cases s) (auto simp: number_value_def)
  have b: "num_min T \<le> 0" using num_bounds [OF assms(1)] by simp
  show ?thesis
    using parse_unsigned_integer_spec [OF assms(1), of "number_body s" throw_on_overflow] b
    unfolding v positive_number_eq [OF False]
    by (auto simp: throw_on_overflow_def simp del: takeWhile_eq_all_conv split: if_splits)
qed

section \<open>Floating point\<close>

definition exact_ops :: "real float_ops" where
  "exact_ops = \<lparr>f_of_int = real_of_int, f_tenth = 1 / 10, f_mul = (*), f_add = (+), f_div = (/), f_neg = uminus\<rparr>"

lemma power_loop_exact: "0 < e \<Longrightarrow> power_loop exact_ops x b e = Some (x * b ^ e)"
proof (induction e arbitrary: x b rule: less_induct)
  case (less e)
  consider "e = 1" | "1 < e" "even e" | "1 < e" "odd e" using less.prems by linarith
  then show ?case
  proof cases
    case 1
    then show ?thesis by (simp add: power_loop.simps exact_ops_def)
  next
    case 2
    then obtain k where k: "e = 2 * k" "0 < k" by (auto elim!: evenE)
    then have "power_loop exact_ops x (b * b) k = Some (x * (b * b) ^ k)" using 2 by (intro less.IH) simp_all
    then show ?thesis using 2 k
      by (subst power_loop.simps) (simp add: exact_ops_def power_mult power2_eq_square)
  next
    case 3
    then have "power_loop exact_ops (x * b) b (e - 1) = Some (x * b * b ^ (e - 1))" by (intro less.IH) simp_all
    moreover have "b * b ^ (e - 1) = b ^ e" using 3 by (metis Suc_pred' less_imp_Suc_add power_Suc zero_less_Suc)
    ultimately show ?thesis using 3 by (subst power_loop.simps) (simp add: exact_ops_def mult.assoc)
  qed
qed

lemma apply_exponent_exact:
  assumes "- (2 ^ 31) < n" "n < 2 ^ 31"
  shows "apply_exponent exact_ops x n = Some (x * 10 powi n)"
proof (cases "n < 0")
  case True
  have "store_num int32 (- n) = Some (- n)"
    using True assms by (simp add: store_num_def num_min_def num_max_def int32_def)
  moreover have "x * (1 / 10) ^ nat (- n) = x * 10 powi n"
    using True by (simp add: power_int_def field_simps)
  ultimately show ?thesis
    using True by (simp add: apply_exponent_def power_loop_exact) (simp add: exact_ops_def)
next
  case False
  then show ?thesis
    by (cases "n = 0") (simp_all add: apply_exponent_def power_loop_exact power_int_def, simp add: exact_ops_def)
qed

lemma int_part_exact:
  assumes "\<forall>c\<in>set ds. is_digit c" "r = [] \<or> \<not> is_digit (hd r)"
  shows "int_part exact_ops (real_of_int v) (ds @ r) = (real_of_int (digits_from v ds), r)"
  using assms(1)
proof (induction ds arbitrary: v)
  case Nil
  then show ?case using assms(2) by (cases r) (auto simp: digit_test_iff)
next
  case (Cons c ds)
  have "real_of_int v * 10 + real_of_int (int (digit_val c)) = real_of_int (10 * v + int (digit_val c))" by simp
  then show ?case
    using Cons.IH [of "10 * v + int (digit_val c)"] Cons.prems
    by (simp add: digit_test_iff digit_value_val exact_ops_def mult.commute)
qed

lemma digits_from_split: "digits_from x ds = x * 10 ^ length ds + digits_from 0 ds"
proof (induction ds arbitrary: x)
  case (Cons c ds)
  show ?case
    using Cons [of "10 * x + int (digit_val c)"] Cons [of "int (digit_val c)"] by (simp add: algebra_simps)
qed simp

lemma fraction_part_exact:
  assumes "\<forall>c\<in>set ds. is_digit c" "r = [] \<or> \<not> is_digit (hd r)"
  shows "fraction_part exact_ops pos x (ds @ r) = (x + pos * real_of_int (digits_from 0 ds) / 10 ^ length ds, r)"
  using assms(1)
proof (induction ds arbitrary: pos x)
  case Nil
  then show ?case using assms(2) by (cases r) (auto simp: digit_test_iff)
next
  case (Cons c ds)
  let ?d = "real_of_int (int (digit_val c))"
  have "digits_from 0 (c # ds) = int (digit_val c) * 10 ^ length ds + digits_from 0 ds"
    using digits_from_split [of "int (digit_val c)" ds] by simp
  then have e: "x + ?d * (pos / 10) + pos / 10 * real_of_int (digits_from 0 ds) / 10 ^ length ds =
      x + pos * real_of_int (digits_from 0 (c # ds)) / 10 ^ length (c # ds)"
    by (simp add: field_simps)
  have "fraction_part exact_ops pos x ((c # ds) @ r) =
      fraction_part exact_ops (pos / 10) (x + ?d * (pos / 10)) (ds @ r)"
    using Cons.prems by (simp add: digit_test_iff digit_value_val exact_ops_def Let_def)
  also have "\<dots> = (x + ?d * (pos / 10) + pos / 10 * real_of_int (digits_from 0 ds) / 10 ^ length ds, r)"
    using Cons.prems by (intro Cons.IH) simp
  finally show ?case unfolding e .
qed

lemma dec_all_digits: "lead_digits (dec k) = dec k"
  by (simp add: dec_digits)

lemma dec_no_sign: "dec k = c # r \<Longrightarrow> c \<noteq> CHR ''-'' \<and> c \<noteq> CHR ''+''"
  using dec_digits [of c k] by (auto simp: is_digit_def)

lemma parse_signed_dec_int:
  assumes "8 \<le> bits T" "is_signed T"
  shows "num_min T \<le> n \<Longrightarrow> n \<le> num_max T \<Longrightarrow> parse_signed_integer pol T (dec_int n) = ret n"
    and "n < num_min T \<Longrightarrow> \<exists>x. parse_signed_integer pol T (dec_int n) = on_underflow pol T x"
proof -
  have b: "num_min T \<le> 0" "0 \<le> num_max T" using num_bounds [OF assms(1)] by simp_all
  have neg: "dec_int n = CHR ''-'' # dec (nat (- n))" if "n < 0" using that by (simp add: dec_int_def)
  show "parse_signed_integer pol T (dec_int n) = ret n" if "num_min T \<le> n" "n \<le> num_max T"
  proof (cases "n < 0")
    case True
    then show ?thesis
      using negative_number_spec [OF assms, of "dec (nat (- n))" pol] that neg by (simp add: dec_all_digits del: takeWhile_eq_all_conv)
  next
    case False
    then have d: "dec_int n = dec (nat n)" by (simp add: dec_int_def)
    have nb: "number_body (dec (nat n)) = dec (nat n)" using dec_no_sign by (auto simp: number_body_def split: list.splits)
    have "\<nexists>r. dec (nat n) = CHR ''-'' # r" using dec_no_sign by blast
    then show ?thesis
      using parse_unsigned_integer_spec [OF assms(1), of "dec (nat n)" pol] False that d nb
      by (simp add: positive_number_eq dec_all_digits del: takeWhile_eq_all_conv)
  qed
  show "\<exists>x. parse_signed_integer pol T (dec_int n) = on_underflow pol T x" if "n < num_min T"
  proof -
    have "n < 0" using that b by simp
    then show ?thesis
      using negative_number_spec [OF assms, of "dec (nat (- n))" pol] that neg by (auto simp: dec_all_digits simp del: takeWhile_eq_all_conv)
  qed
qed

lemma int_part_rest:
  assumes "\<forall>c\<in>set ds. is_digit c" "r = [] \<or> \<not> is_digit (hd r)"
  obtains y where "int_part F x (ds @ r) = (y, r)"
proof -
  have "\<exists>y. int_part F x (ds @ r) = (y, r)"
    using assms(1)
  proof (induction ds arbitrary: x)
    case Nil
    then show ?case using assms(2) by (cases r) (auto simp: digit_test_iff)
  qed (simp add: digit_test_iff)
  then show thesis using that by blast
qed

lemma fraction_part_rest:
  assumes "\<forall>c\<in>set ds. is_digit c" "r = [] \<or> \<not> is_digit (hd r)"
  obtains y where "fraction_part F pos x (ds @ r) = (y, r)"
proof -
  have "\<exists>y. fraction_part F pos x (ds @ r) = (y, r)"
    using assms(1)
  proof (induction ds arbitrary: pos x)
    case Nil
    then show ?case using assms(2) by (cases r) (auto simp: digit_test_iff)
  qed (simp add: digit_test_iff Let_def)
  then show thesis using that by blast
qed

text \<open>The parts of a number in scientific notation, for any arithmetic.\<close>

definition scientific :: "string \<Rightarrow> string \<Rightarrow> int \<Rightarrow> string" where
  "scientific ip fp n = ip @ ''.'' @ fp @ ''e'' @ dec_int n"

lemma parse_float_scientific:
  assumes "\<forall>c\<in>set ip. is_digit c" "\<forall>c\<in>set fp. is_digit c"
    and "int_part F (f_of_int F 0) (ip @ ''.'' @ fp @ ''e'' @ dec_int n) = (x1, ''.'' @ fp @ ''e'' @ dec_int n)"
    and "fraction_part F (f_of_int F 1) x1 (fp @ ''e'' @ dec_int n) = (x2, ''e'' @ dec_int n)"
  shows "parse_float F (scientific ip fp n) =
      res_bind (parse_signed_integer set_to_max_on_overflow int32 (dec_int n)) (\<lambda>e.
        case apply_exponent F x2 e of None \<Rightarrow> None | Some x3 \<Rightarrow> ret x3)"
    and "parse_float F (CHR ''-'' # scientific ip fp n) =
      res_bind (parse_signed_integer set_to_max_on_overflow int32 (dec_int n)) (\<lambda>e.
        case apply_exponent F x2 e of None \<Rightarrow> None | Some x3 \<Rightarrow> ret (f_neg F x3))"
proof -
  have ns: "c \<noteq> CHR ''-'' \<and> c \<noteq> CHR ''+''" if "scientific ip fp n = c # r" for c r
    using that assms(1) by (cases ip) (auto simp: scientific_def is_digit_def)
  obtain c r where cr: "scientific ip fp n = c # r" by (cases "scientific ip fp n") (auto simp: scientific_def)
  then have e: "ip @ ''.'' @ fp @ ''e'' @ dec_int n = c # r" by (simp add: scientific_def)
  note ip = assms(3) [unfolded e]
  show "parse_float F (scientific ip fp n) =
      res_bind (parse_signed_integer set_to_max_on_overflow int32 (dec_int n)) (\<lambda>e.
        case apply_exponent F x2 e of None \<Rightarrow> None | Some x3 \<Rightarrow> ret x3)"
    using ns [OF cr] ip assms(4) by (simp add: cr parse_float_def cong: option.case_cong)
  show "parse_float F (CHR ''-'' # scientific ip fp n) =
      res_bind (parse_signed_integer set_to_max_on_overflow int32 (dec_int n)) (\<lambda>e.
        case apply_exponent F x2 e of None \<Rightarrow> None | Some x3 \<Rightarrow> ret (f_neg F x3))"
    using ip assms(4) by (simp add: cr parse_float_def cong: option.case_cong)
qed

text \<open>
  C19: in exact arithmetic \<^verbatim>\<open>parse_float\<close> reads a decimal number in scientific notation to its value, with
  either sign, for every exponent that is an \<^verbatim>\<open>int\<close> other than the least one; its loops end.
\<close>

theorem parse_float_exact:
  assumes "\<forall>c\<in>set ip. is_digit c" "\<forall>c\<in>set fp. is_digit c" "- (2 ^ 31) < n" "n < 2 ^ 31"
  shows "parse_float exact_ops (scientific ip fp n) = ret (real (dec_value (ip @ fp)) / 10 ^ length fp * 10 powi n) \<and>
    parse_float exact_ops (CHR ''-'' # scientific ip fp n) = ret (- (real (dec_value (ip @ fp)) / 10 ^ length fp * 10 powi n))"
proof -
  let ?a = "digits_from 0 ip" and ?b = "digits_from 0 fp"
  define x2 where "x2 = real_of_int ?a + 1 * real_of_int ?b / 10 ^ length fp"
  have dot: "\<not> is_digit CHR ''.''" "\<not> is_digit CHR ''e''" by (simp_all add: is_digit_def)
  have i: "int_part exact_ops (f_of_int exact_ops 0) (ip @ ''.'' @ fp @ ''e'' @ dec_int n) =
      (real_of_int ?a, ''.'' @ fp @ ''e'' @ dec_int n)"
    using int_part_exact [OF assms(1), of "''.'' @ fp @ ''e'' @ dec_int n" 0] dot by (simp add: exact_ops_def)
  have f: "fraction_part exact_ops (f_of_int exact_ops 1) (real_of_int ?a) (fp @ ''e'' @ dec_int n) = (x2, ''e'' @ dec_int n)"
    using fraction_part_exact [OF assms(2), of "''e'' @ dec_int n" 1 "real_of_int ?a"] dot
    by (simp add: exact_ops_def x2_def)
  have "int (dec_value (ip @ fp)) = digits_from ?a fp"
    unfolding digits_from_dec_value [symmetric] by (simp add: digits_from_def)
  also have "\<dots> = ?a * 10 ^ length fp + ?b" by (rule digits_from_split)
  finally have "real (dec_value (ip @ fp)) = real_of_int (?a * 10 ^ length fp + ?b)" by (metis of_int_of_nat_eq)
  then have x2: "x2 = real (dec_value (ip @ fp)) / 10 ^ length fp" by (simp add: x2_def field_simps)
  have p: "parse_signed_integer set_to_max_on_overflow int32 (dec_int n) = ret n"
    using assms(3,4) by (intro parse_signed_dec_int(1)) (simp_all add: int32_def num_min_def num_max_def)
  have neg: "f_neg exact_ops = uminus" by (simp add: exact_ops_def)
  show ?thesis
    unfolding parse_float_scientific [OF assms(1,2) i f] p neg x2 [symmetric]
    by (simp add: apply_exponent_exact [OF assms(3,4)])
qed

theorem parse_float_exact_witness:
  "parse_float exact_ops (scientific ''1'' ''25'' 1) = ret (real (dec_value ''125'') / 10 ^ 2 * 10 powi 1)"
  using parse_float_exact [of "''1''" "''25''" 1] by (simp add: is_digit_def numeral_2_eq_2)

text \<open>
  An exponent of \<open>- 2 ^ 31\<close> or less is undefined behaviour for every arithmetic: the underflow policy
  sets the exponent to the least \<^verbatim>\<open>int\<close>, which \<^verbatim>\<open>e = -e\<close> cannot negate.
\<close>

lemma parse_float_least_exponent:
  assumes "\<forall>c\<in>set ip. is_digit c" "\<forall>c\<in>set fp. is_digit c" "n \<le> - (2 ^ 31)"
  shows "parse_float F (scientific ip fp n) = None"
proof -
  have dot: "\<not> is_digit CHR ''.''" "\<not> is_digit CHR ''e''" by (simp_all add: is_digit_def)
  obtain x1 where i: "int_part F (f_of_int F 0) (ip @ ''.'' @ fp @ ''e'' @ dec_int n) = (x1, ''.'' @ fp @ ''e'' @ dec_int n)"
    using int_part_rest [OF assms(1), of "''.'' @ fp @ ''e'' @ dec_int n" F "f_of_int F 0"] dot by auto
  obtain x2 where f: "fraction_part F (f_of_int F 1) x1 (fp @ ''e'' @ dec_int n) = (x2, ''e'' @ dec_int n)"
    using fraction_part_rest [OF assms(2), of "''e'' @ dec_int n" F "f_of_int F 1" x1] dot by auto
  have "parse_signed_integer set_to_max_on_overflow int32 (dec_int n) = ret (- (2 ^ 31))"
  proof (cases "n = - (2 ^ 31)")
    case True
    then show ?thesis
      by (simp add: parse_signed_dec_int(1) int32_def num_min_def num_max_def)
  next
    case False
    then have "\<exists>x. parse_signed_integer set_to_max_on_overflow int32 (dec_int n) = on_underflow set_to_max_on_overflow int32 x"
      using assms(3) by (intro parse_signed_dec_int(2)) (simp_all add: int32_def num_min_def)
    then show ?thesis by (simp add: set_to_max_on_overflow_def num_min_def int32_def)
  qed
  moreover have "apply_exponent F x2 (- (2 ^ 31)) = None"
    by (simp add: apply_exponent_def store_num_def int32_def num_min_def num_max_def)
  ultimately show ?thesis by (simp add: parse_float_scientific(1) [OF assms(1,2) i f])
qed

end
