(* ===== verification/Csv_Parse.thy ===== *)
theory Csv_Parse
  imports Csv_Line_Reader Csv_Lines Csv_Numbers
begin

text \<open>
  The class \<^verbatim>\<open>CSVReader\<close> of \<^verbatim>\<open>src/src/csv.h\<close> (lines 1295 to 1480) and the configuration reader
  \<^verbatim>\<open>src/src/CsvParse.cpp\<close>, which reads the database settings of the service with it.

  The pointers of a row point into the buffer of the line reader, which is the memory of \<open>Csv_Columns\<close>. A
  variable that \<^verbatim>\<open>read_row\<close> fills is a \<open>col_value\<close> and its type a \<open>col_type\<close>. What an object holds after
  it has thrown is not modelled: no caller uses it again.
\<close>

section \<open>Columns of any type\<close>

datatype 'f col_type =
    T_char | T_string | T_unsigned int_type | T_signed int_type | T_float "'f float_ops"

datatype 'f col_value = V_char char | V_string string | V_int int | V_float 'f

fun parse_value :: "overflow_policy \<Rightarrow> 'f col_type \<Rightarrow> string \<Rightarrow> 'f col_value res" where
  "parse_value pol T_char col = res_bind (parse_char col) (\<lambda>c. ret (V_char c))"
| "parse_value pol T_string col = res_bind (parse_string col) (\<lambda>s. ret (V_string s))"
| "parse_value pol (T_unsigned T) col = res_bind (parse_unsigned_integer pol T col) (\<lambda>n. ret (V_int n))"
| "parse_value pol (T_signed T) col = res_bind (parse_signed_integer pol T col) (\<lambda>n. ret (V_int n))"
| "parse_value pol (T_float F) col = res_bind (parse_float F col) (\<lambda>x. ret (V_float x))"

section \<open>CSVReader\<close>

record csv_policies =
  trim_policy :: "char list"
  quote_policy_of :: quote_policy_ops
  overflow_of :: overflow_policy
  comment_policy :: "char list \<Rightarrow> nat \<Rightarrow> bool option"

definition default_policies :: csv_policies where
  "default_policies = \<lparr>trim_policy = [CHR '' '', CHR 0x09], quote_policy_of = no_quote_escape CHR '','',
     overflow_of = throw_on_overflow, comment_policy = no_comment\<rparr>"

record CSVReader =
  csv_in :: LineReader
  csv_row :: "nat option list"
  column_names :: "string list"
  col_order :: "int list"

definition CSVReader_new :: "nat \<Rightarrow> (string \<Rightarrow> int + char list) \<Rightarrow> char list \<Rightarrow> nat \<Rightarrow> string \<Rightarrow> CSVReader res" where
  "CSVReader_new B fopen junk column_count name =
     res_bind (LineReader_open B fopen junk name) (\<lambda>lr.
       ret \<lparr>csv_in = lr, csv_row = replicate column_count None,
            column_names = map (\<lambda>i. ''col'' @ dec i) [1..<column_count + 1],
            col_order = map int [0..<column_count]\<rparr>)"

text \<open>\<^verbatim>\<open>set_column_names\<close> assigns the names from the first column on.\<close>

fun set_column_names :: "nat \<Rightarrow> string list \<Rightarrow> string list \<Rightarrow> string list" where
  "set_column_names i [] names = names"
| "set_column_names i (s # cols) names = set_column_names (i + 1) cols (names[i := s])"

definition set_header :: "string list \<Rightarrow> CSVReader \<Rightarrow> CSVReader" where
  "set_header cols r =
     r\<lparr>column_names := set_column_names 0 cols (column_names r),
       csv_row := replicate (length (csv_row r)) None,
       col_order := map int [0..<length (csv_row r)]\<rparr>"

fun find_index :: "('a \<Rightarrow> bool) \<Rightarrow> nat \<Rightarrow> 'a list \<Rightarrow> nat" where
  "find_index P i [] = i"
| "find_index P i (x # xs) = (if P x then i else find_index P (i + 1) xs)"

definition has_column :: "string \<Rightarrow> CSVReader \<Rightarrow> bool" where
  "has_column name r =
     (let k = int (find_index (\<lambda>s. s = name) 0 (column_names r))
      in find_index (\<lambda>i. i = k) 0 (col_order r) \<noteq> length (col_order r))"

text \<open>The members that pass a call on to the line reader.\<close>

definition csv_next_line :: "nat \<Rightarrow> CSVReader \<Rightarrow> (nat option \<times> CSVReader) res" where
  "csv_next_line B r = res_bind (next_line B (csv_in r)) (\<lambda>(p, lr). ret (p, r\<lparr>csv_in := lr\<rparr>))"

definition csv_set_file_name :: "string option \<Rightarrow> CSVReader \<Rightarrow> CSVReader" where
  "csv_set_file_name name r = r\<lparr>csv_in := lr_set_file_name name (csv_in r)\<rparr>"

definition csv_get_truncated_file_name :: "CSVReader \<Rightarrow> char list" where
  "csv_get_truncated_file_name r = get_truncated_file_name (csv_in r)"

definition csv_set_file_line :: "u32 \<Rightarrow> CSVReader \<Rightarrow> CSVReader" where
  "csv_set_file_line n r = r\<lparr>csv_in := lr_set_file_line n (csv_in r)\<rparr>"

definition csv_get_file_line :: "CSVReader \<Rightarrow> u32" where
  "csv_get_file_line r = get_file_line (csv_in r)"

text \<open>The loop that skips comment lines; every line takes at least one byte of the text that remains.\<close>

fun line_loop :: "nat \<Rightarrow> nat \<Rightarrow> csv_policies \<Rightarrow> LineReader \<Rightarrow> (nat option \<times> LineReader) res" where
  "line_loop 0 B P lr = None"
| "line_loop (Suc n) B P lr =
     res_bind (next_line B lr) (\<lambda>(line, lr').
       case line of
         None \<Rightarrow> ret (None, lr')
       | Some p \<Rightarrow>
           (case comment_policy P (lr_buffer lr') p of
              None \<Rightarrow> None
            | Some c \<Rightarrow> if c then line_loop n B P lr' else ret (Some p, lr')))"

definition set_name_of :: "LineReader \<Rightarrow> csv_error \<Rightarrow> csv_error" where
  "set_name_of lr e = e\<lparr>err_file_name := set_file_name (cstr (get_truncated_file_name lr)) (err_file_name e)\<rparr>"

definition read_header :: "nat \<Rightarrow> csv_policies \<Rightarrow> u32 \<Rightarrow> string list \<Rightarrow> CSVReader \<Rightarrow> CSVReader res" where
  "read_header B P ignore_policy cols r =
     (let names = set_column_names 0 cols (column_names r)
      in rethrow (\<lambda>_. True) (set_name_of (csv_in r))
           (res_bind (line_loop (length (text_left (csv_in r)) + 1) B P (csv_in r)) (\<lambda>(line, lr).
              if line = None then throw (new_error header_missing)
              else res_bind (parse_header_line (trim_policy P) (quote_policy_of P) (lr_buffer lr) line names ignore_policy)
                     (\<lambda>(mem, order).
                        ret (r\<lparr>csv_in := lr\<lparr>lr_buffer := mem\<rparr>, column_names := names, col_order := order\<rparr>)))))"

text \<open>\<^verbatim>\<open>parse_helper\<close>: the variables from column \<open>k\<close> on; one whose column is missing keeps its value.\<close>

fun parse_helper :: "overflow_policy \<Rightarrow> char list \<Rightarrow> nat option list \<Rightarrow> string list \<Rightarrow> nat \<Rightarrow>
    ('f col_type \<times> 'f col_value) list \<Rightarrow> 'f col_value list res" where
  "parse_helper pol mem row names k [] = ret []"
| "parse_helper pol mem row names k ((T, v) # cols) =
     (case row ! k of
        None \<Rightarrow> res_bind (parse_helper pol mem row names (k + 1) cols) (\<lambda>vs. ret (v # vs))
      | Some p \<Rightarrow>
          (case cstr (drop p mem) of
             None \<Rightarrow> None
           | Some col \<Rightarrow>
               res_bind
                 (rethrow has_column_name
                    (\<lambda>e. e\<lparr>err_column_name :=
                       set_column_name (Some (takeWhile (\<lambda>c. c \<noteq> NUL) (names ! k))) (err_column_name e)\<rparr>)
                    (rethrow has_column_content
                       (\<lambda>e. e\<lparr>err_column_content := set_column_content (Some col) (err_column_content e)\<rparr>)
                       (parse_value pol T col)))
                 (\<lambda>v'. res_bind (parse_helper pol mem row names (k + 1) cols) (\<lambda>vs. ret (v' # vs)))))"

text \<open>
  \<^verbatim>\<open>read_row\<close>: the result, the variables and the new state. The handlers take the file name and the line of
  the reader as it is when the exception passes them; one that \<^verbatim>\<open>next_line\<close> raised already holds both.
\<close>

definition read_row :: "nat \<Rightarrow> csv_policies \<Rightarrow> ('f col_type \<times> 'f col_value) list \<Rightarrow> CSVReader \<Rightarrow>
    (bool \<times> 'f col_value list \<times> CSVReader) res" where
  "read_row B P cols r =
     res_bind (line_loop (length (text_left (csv_in r)) + 1) B P (csv_in r)) (\<lambda>(line, lr).
       if line = None then ret (False, map snd cols, r\<lparr>csv_in := lr\<rparr>)
       else
         rethrow has_file_line (set_file_line (sint (get_file_line lr)))
           (rethrow (\<lambda>_. True) (set_name_of lr)
              (res_bind (parse_line (trim_policy P) (quote_policy_of P) (lr_buffer lr) line (csv_row r) (col_order r))
                 (\<lambda>(mem, row).
                    res_bind (parse_helper (overflow_of P) mem row (column_names r) 0 cols) (\<lambda>vs.
                      ret (True, vs, r\<lparr>csv_in := lr\<lparr>lr_buffer := mem\<rparr>, csv_row := row\<rparr>))))))"

section \<open>CsvParse\<close>

record CsvParse =
  strDbIp :: string
  strDbPort :: string
  strDbUserName :: string
  strDbPasswd :: string
  strDbName :: string
  strDbTable :: string
  csv_log :: "string list"

definition CsvParse_new :: CsvParse where
  "CsvParse_new = \<lparr>strDbIp = [], strDbPort = [], strDbUserName = [], strDbPasswd = [], strDbName = [],
     strDbTable = [], csv_log = []\<rparr>"

definition log_error :: "string \<Rightarrow> CsvParse \<Rightarrow> CsvParse" where
  "log_error msg c = c\<lparr>csv_log := csv_log c @ [msg]\<rparr>"

definition db_columns :: "string list" where
  "db_columns = [''DbIp'', ''DbPort'', ''DbUserName'', ''DbPasswd'', ''DbName'', ''DbTable'']"

text \<open>The six string variables, and what is done with them once a row has been read.\<close>

definition store_settings :: "string list \<Rightarrow> CsvParse \<Rightarrow> bool \<times> CsvParse" where
  "store_settings vs c =
     (if vs ! 0 = [] \<or> vs ! 1 = [] \<or> vs ! 2 = [] \<or> vs ! 3 = [] \<or> vs ! 4 = [] \<or> vs ! 5 = [] then
        (False, log_error ''read empty data from cvs'' c)
      else
        (True, c\<lparr>strDbIp := vs ! 0, strDbPort := vs ! 1, strDbUserName := vs ! 2, strDbPasswd := vs ! 3,
                 strDbName := vs ! 4, strDbTable := vs ! 5\<rparr>))"

fun string_value :: "'f col_value \<Rightarrow> string" where
  "string_value (V_string s) = s"
| "string_value _ = []"

definition ParseCsvData :: "nat \<Rightarrow> (string \<Rightarrow> int + char list) \<Rightarrow> char list \<Rightarrow> string option \<Rightarrow> CsvParse \<Rightarrow>
    (bool \<times> CsvParse) res" where
  "ParseCsvData B fopen junk path c =
     (case path of
        None \<Rightarrow> ret (False, log_error ''cvs file path is null'' c)
      | Some name \<Rightarrow>
          res_bind (CSVReader_new B fopen junk 6 name) (\<lambda>r.
          res_bind (read_header B default_policies ignore_missing_column db_columns r) (\<lambda>r1.
          res_bind (read_row B default_policies (replicate 6 (T_string :: real col_type, V_string [])) r1) (\<lambda>(ok, vs, r2).
            if \<not> ok then ret (False, log_error ''read csv fail'' c)
            else ret (store_settings (map string_value vs) c)))))"

definition GetDbIp :: "CsvParse \<Rightarrow> string" where "GetDbIp c = strDbIp c"
definition GetDbPort :: "CsvParse \<Rightarrow> string" where "GetDbPort c = strDbPort c"
definition GetDbUserName :: "CsvParse \<Rightarrow> string" where "GetDbUserName c = strDbUserName c"
definition GetDbPasswd :: "CsvParse \<Rightarrow> string" where "GetDbPasswd c = strDbPasswd c"
definition GetDbName :: "CsvParse \<Rightarrow> string" where "GetDbName c = strDbName c"
definition GetDbTable :: "CsvParse \<Rightarrow> string" where "GetDbTable c = strDbTable c"

section \<open>Lines in the buffer\<close>

lemma line_bytes_split: obtains x where "line_bytes l = strip_cr l @ NUL # x"
proof (cases "l \<noteq> [] \<and> last l = CR")
  case True
  then show thesis by (intro that [of "[NUL]"]) (simp add: line_bytes_def strip_cr_def)
next
  case False
  then show thesis by (intro that [of "[]"]) (auto simp: line_bytes_def strip_cr_def)
qed

lemma next_line_buffer:
  assumes "lr_inv B lr" "text_left lr \<noteq> []" "length (first_line (text_left lr)) < B"
  obtains pre x lr' where "next_line B lr = ret (Some (length pre), lr')" "lr_inv B lr'"
    "text_left lr' = after_line (text_left lr)"
    "lr_buffer lr' = pre @ strip_cr (first_line (text_left lr)) @ NUL # x @ drop (data_begin lr') (lr_buffer lr')"
    "data_begin lr' = length (pre @ strip_cr (first_line (text_left lr)) @ NUL # x)"
    "file_line lr' = file_line lr + 1" "lr_file_name lr' = lr_file_name lr"
proof -
  obtain p lr' where n: "next_line B lr = ret (Some p, lr')" "lr_inv B lr'" "text_left lr' = after_line (text_left lr)"
    "line_memory p lr' = line_bytes (first_line (text_left lr))" "file_line lr' = file_line lr + 1"
    "lr_file_name lr' = lr_file_name lr"
    using next_line_ok [OF assms] by blast
  obtain x where x: "line_bytes (first_line (text_left lr)) = strip_cr (first_line (text_left lr)) @ NUL # x"
    by (rule line_bytes_split)
  let ?d = "data_begin lr'" and ?buf = "lr_buffer lr'"
  have d: "?d \<le> length ?buf" using n(2) by (auto simp: lr_inv_def)
  have m: "drop p (take ?d ?buf) = strip_cr (first_line (text_left lr)) @ NUL # x" using n(4) x by (simp add: line_memory_def)
  then have p: "p < ?d" using d by (metis Nil_is_append_conv drop_all leI length_take list.distinct(1) min.absorb2)
  have t: "take ?d ?buf = take p ?buf @ strip_cr (first_line (text_left lr)) @ NUL # x"
    using m p append_take_drop_id [of p "take ?d ?buf"] by (simp add: min_def)
  have lp: "length (take p ?buf) = p" using p d by simp
  show thesis
  proof (rule that [of "take p ?buf" lr' x])
    show "?buf = take p ?buf @ strip_cr (first_line (text_left lr)) @ NUL # x @ drop ?d ?buf"
      using t append_take_drop_id [of ?d ?buf] by simp
    show "?d = length (take p ?buf @ strip_cr (first_line (text_left lr)) @ NUL # x)"
      using arg_cong [OF t, of length] d by simp
  qed (use n lp in simp_all)
qed

text \<open>Changing the bytes before the read position keeps the reader's state and the text that remains.\<close>

lemma replace_before:
  assumes "lr_inv B lr" "length a = data_begin lr"
  defines "lr' \<equiv> lr\<lparr>lr_buffer := a @ drop (data_begin lr) (lr_buffer lr)\<rparr>"
  shows "lr_inv B lr'" "text_left lr' = text_left lr"
proof -
  have b: "data_begin lr \<le> length (lr_buffer lr)" "data_begin lr \<le> data_end lr" using assms(1) by (auto simp: lr_inv_def)
  then show "lr_inv B lr'" using assms(1,2) unfolding lr_inv_def lr'_def by (auto simp: source_left_def)
  show "text_left lr' = text_left lr"
    using assms(2) b(2) by (simp add: text_left_def lr'_def source_left_def drop_take)
qed

lemma line_loop_default: "line_loop (Suc n) B default_policies lr = next_line B lr"
proof (cases "next_line B lr" rule: res_cases)
  case (ok r)
  obtain line lr' where "r = (line, lr')" by (cases r)
  with ok show ?thesis by (cases line) (simp_all add: default_policies_def no_comment_def)
qed simp_all

section \<open>Reading the settings\<close>

abbreviation blanks :: "char list" where "blanks \<equiv> [CHR '' '', CHR 0x09]"

definition line_cells :: "char list \<Rightarrow> string list" where
  "line_cells l = map (trim_text blanks) (split_sep CHR '','' l)"

lemma fill_row_by_name:
  assumes "distinct names" "length row = length names" "distinct hs" "set hs \<subseteq> set names" "length hs = length ds"
  shows "fill_row row (map (name_index names) hs) ds =
    map (\<lambda>i. case map_of (zip hs ds) (names ! i) of Some v \<Rightarrow> Some v | None \<Rightarrow> row ! i) [0..<length names]"
  using assms(2-)
proof (induction hs arbitrary: row ds)
  case Nil
  then show ?case using map_nth [of row] by simp
next
  case (Cons h hs)
  then obtain d ds' where ds: "ds = d # ds'" by (cases ds) auto
  obtain k where k: "k < length names" "names ! k = h" using Cons.prems(3) by (auto simp: in_set_conv_nth)
  have idx: "name_index names h = int k" using match_name_nth [OF assms(1) k(1)] k(2) by (simp add: name_index_def)
  let ?row = "row[k := Some d]"
  have IH: "fill_row ?row (map (name_index names) hs) ds' =
      map (\<lambda>i. case map_of (zip hs ds') (names ! i) of Some v \<Rightarrow> Some v | None \<Rightarrow> ?row ! i) [0..<length names]"
    using Cons.prems ds by (intro Cons.IH) auto
  have "h \<notin> set hs" using Cons.prems(2) by simp
  then have hn: "map_of (zip hs ds') h = None" using Cons.prems(4) ds by (simp add: map_of_zip_is_None)
  have "(case map_of (zip hs ds') (names ! i) of Some v \<Rightarrow> Some v | None \<Rightarrow> ?row ! i) =
      (case map_of (zip (h # hs) ds) (names ! i) of Some v \<Rightarrow> Some v | None \<Rightarrow> row ! i)" if "i < length names" for i
  proof (cases "i = k")
    case True
    then show ?thesis using k hn ds Cons.prems(1) by simp
  next
    case False
    then have "names ! i \<noteq> h" using assms(1) that k nth_eq_iff_index_eq by metis
    then show ?thesis using False ds by (simp split: option.split)
  qed
  then show ?case using IH idx ds by simp
qed

lemma parse_helper_strings:
  assumes "points mem row srow" "k + m \<le> length srow"
  shows "parse_helper pol mem row names k (replicate m (T_string :: 'f col_type, V_string [])) =
    ret (map (\<lambda>i. V_string (case srow ! i of Some s \<Rightarrow> s | None \<Rightarrow> [])) [k..<k + m])"
  using assms(2)
proof (induction m arbitrary: k)
  case (Suc m)
  have IH: "parse_helper pol mem row names (k + 1) (replicate m (T_string :: 'f col_type, V_string [])) =
      ret (map (\<lambda>i. V_string (case srow ! i of Some s \<Rightarrow> s | None \<Rightarrow> [])) [k + 1..<k + 1 + m])"
    using Suc.prems by (intro Suc.IH) simp
  have u: "[k..<k + Suc m] = k # [k + 1..<k + 1 + m]" by (simp add: upt_conv_Cons)
  have k: "k < length srow" using Suc.prems by simp
  show ?case
  proof (cases "srow ! k")
    case None
    then show ?thesis using points_None [OF assms(1) k] IH unfolding u by simp
  next
    case (Some s)
    then obtain a where "row ! k = Some a" "cstr (drop a mem) = Some s" using points_nth [OF assms(1) k] by blast
    then show ?thesis using IH Some unfolding u by (simp add: parse_string_def)
  qed
qed simp

lemma set_column_names_all: "length cols = length names \<Longrightarrow> set_column_names 0 cols names = cols"
proof -
  have "length a = i \<Longrightarrow> length cols = length b \<Longrightarrow> set_column_names i cols (a @ b) = a @ cols" for i a b
  proof (induction cols arbitrary: i a b)
    case (Cons c cols)
    then obtain x b' where b: "b = x # b'" by (cases b) auto
    have "set_column_names (i + 1) cols ((a @ [c]) @ b') = (a @ [c]) @ cols"
      using Cons.prems b by (intro Cons.IH) simp_all
    then show ?case using Cons.prems(1) b by (auto simp: list_update_append)
  qed simp
  from this [of "[]" 0 names] show "length cols = length names \<Longrightarrow> set_column_names 0 cols names = cols" by simp
qed

lemma distinct_db_columns: "distinct db_columns" "length db_columns = 6"
  by (simp_all add: db_columns_def)

text \<open>The header line, for the settings file.\<close>

definition header_accepted :: "string list \<Rightarrow> bool" where
  "header_accepted hs \<longleftrightarrow> distinct hs \<and> set hs \<subseteq> set db_columns"

lemma policy_bits: "ignore_missing_column AND ignore_extra_column = 0" "ignore_missing_column \<noteq> 0"
  by (simp_all add: ignore_missing_column_def ignore_extra_column_def)

lemma default_policies_simps [simp]:
  "trim_policy default_policies = blanks" "quote_policy_of default_policies = no_quote_escape CHR '',''"
  by (simp_all add: default_policies_def)

text \<open>\<^verbatim>\<open>read_header\<close> and \<^verbatim>\<open>read_row\<close> parse the next line in place, behind the bytes \<open>pre\<close> and before \<open>x @ rest\<close>.\<close>

lemma read_header_run:
  assumes inv: "lr_inv B (csv_in r)" and ne: "text_left (csv_in r) \<noteq> []"
    and short: "length (first_line (text_left (csv_in r))) < B" and names: "length (column_names r) = 6"
    and h: "h = strip_cr (first_line (text_left (csv_in r)))"
  obtains pre x lr rest where "lr_inv B lr" "text_left lr = after_line (text_left (csv_in r))"
    "rest = drop (data_begin lr) (lr_buffer lr)" "data_begin lr = length (pre @ h @ NUL # x)"
    "file_line lr = file_line (csv_in r) + 1"
    "read_header B default_policies ignore_missing_column db_columns r =
      rethrow (\<lambda>_. True) (set_name_of (csv_in r))
        (res_bind (parse_header_line blanks (no_quote_escape CHR '','') (pre @ h @ NUL # (x @ rest)) (Some (length pre))
            db_columns ignore_missing_column)
          (\<lambda>(mem, order). ret (r\<lparr>csv_in := lr\<lparr>lr_buffer := mem\<rparr>, column_names := db_columns, col_order := order\<rparr>)))"
proof -
  obtain pre x lr where n: "next_line B (csv_in r) = ret (Some (length pre), lr)" "lr_inv B lr"
    "text_left lr = after_line (text_left (csv_in r))"
    "lr_buffer lr = pre @ h @ NUL # x @ drop (data_begin lr) (lr_buffer lr)"
    "data_begin lr = length (pre @ h @ NUL # x)" "file_line lr = file_line (csv_in r) + 1"
    unfolding h by (rule next_line_buffer [OF inv ne short]) blast
  have nm: "set_column_names 0 db_columns (column_names r) = db_columns"
    using names distinct_db_columns(2) by (intro set_column_names_all) simp
  define rest where "rest = drop (data_begin lr) (lr_buffer lr)"
  have buf: "lr_buffer lr = pre @ h @ NUL # (x @ rest)" using n(4) by (simp add: rest_def)
  show thesis
    by (rule that [OF n(2,3) rest_def n(5,6)])
      (simp add: read_header_def line_loop_default n(1) nm buf del: append_assoc append_Cons line_loop.simps)
qed

lemma read_header_ok:
  assumes inv: "lr_inv B (csv_in r)" and ne: "text_left (csv_in r) \<noteq> []"
    and short: "length (first_line (text_left (csv_in r))) < B"
    and nn: "NUL \<notin> set (strip_cr (first_line (text_left (csv_in r))))"
    and names: "length (column_names r) = 6"
  defines "hs \<equiv> line_cells (strip_cr (first_line (text_left (csv_in r))))"
  shows "if header_accepted hs then
      \<exists>lr. lr_inv B lr \<and> text_left lr = after_line (text_left (csv_in r)) \<and> file_line lr = file_line (csv_in r) + 1 \<and>
        read_header B default_policies ignore_missing_column db_columns r =
          ret (r\<lparr>csv_in := lr, column_names := db_columns, col_order := map (name_index db_columns) hs\<rparr>)
    else \<exists>e. kind e \<in> {duplicated_column_in_header, extra_column_in_header, missing_column_in_header} \<and>
        read_header B default_policies ignore_missing_column db_columns r = throw e"
proof -
  define h where "h = strip_cr (first_line (text_left (csv_in r)))"
  obtain pre x lr rest where n: "lr_inv B lr" "text_left lr = after_line (text_left (csv_in r))"
    "rest = drop (data_begin lr) (lr_buffer lr)" "data_begin lr = length (pre @ h @ NUL # x)"
    "file_line lr = file_line (csv_in r) + 1"
    and run: "read_header B default_policies ignore_missing_column db_columns r =
      rethrow (\<lambda>_. True) (set_name_of (csv_in r))
        (res_bind (parse_header_line blanks (no_quote_escape CHR '','') (pre @ h @ NUL # (x @ rest)) (Some (length pre))
            db_columns ignore_missing_column)
          (\<lambda>(mem, order). ret (r\<lparr>csv_in := lr\<lparr>lr_buffer := mem\<rparr>, column_names := db_columns, col_order := order\<rparr>)))"
    by (rule read_header_run [OF inv ne short names h_def])
  have hs: "hs = map (trim_text blanks) (split_sep CHR '','' h)" by (simp add: hs_def h_def line_cells_def)
  have "header_accepted hs \<longleftrightarrow> distinct (filter (\<lambda>s. s \<in> set db_columns) hs) \<and> set hs \<subseteq> set db_columns"
    unfolding header_accepted_def by (metis (no_types, lifting) filter_True subsetD distinct_filter)
  then have acc: "distinct (filter (\<lambda>s. s \<in> set db_columns) hs) \<and>
      (ignore_missing_column AND ignore_extra_column \<noteq> 0 \<or> set hs \<subseteq> set db_columns) \<and>
      (ignore_missing_column AND ignore_missing_column \<noteq> 0 \<or> set db_columns \<subseteq> set hs) \<longleftrightarrow> header_accepted hs"
    by (auto simp: policy_bits)
  note spec = header_line_spec [OF distinct_db_columns(1) nn [folded h_def], of blanks "CHR '',''" ignore_missing_column pre
      "x @ rest", folded hs, unfolded acc]
  show ?thesis
  proof (cases "header_accepted hs")
    case True
    then obtain pre' where p: "length pre' = length pre + length h + 1"
      "parse_header_line blanks (no_quote_escape CHR '','') (pre @ h @ NUL # (x @ rest)) (Some (length pre))
         db_columns ignore_missing_column = ret (pre' @ x @ rest, map (name_index db_columns) hs)"
      using spec unfolding if_P [OF True] by blast
    have "length (pre' @ x) = data_begin lr" using p(1) n(4) by simp
    note rb = replace_before [OF n(1) this, folded n(3)]
    have "read_header B default_policies ignore_missing_column db_columns r =
        ret (r\<lparr>csv_in := lr\<lparr>lr_buffer := (pre' @ x) @ rest\<rparr>, column_names := db_columns,
               col_order := map (name_index db_columns) hs\<rparr>)"
      unfolding run p(2) by simp
    moreover have "file_line (lr\<lparr>lr_buffer := (pre' @ x) @ rest\<rparr>) = file_line (csv_in r) + 1" using n(5) by simp
    ultimately show ?thesis using True rb n(2) by auto
  next
    case False
    then obtain e where e: "kind e \<in> {duplicated_column_in_header, extra_column_in_header, missing_column_in_header}"
      "parse_header_line blanks (no_quote_escape CHR '','') (pre @ h @ NUL # (x @ rest)) (Some (length pre))
         db_columns ignore_missing_column = throw e"
      using spec unfolding if_not_P [OF False] by blast
    then show ?thesis unfolding run if_not_P [OF False]
      by (intro exI [of _ "set_name_of (csv_in r) e"]) (auto simp: set_name_of_def)
  qed
qed

text \<open>A header that is not accepted: the error names the first cell that repeats a name or is none.\<close>

lemma read_header_error:
  assumes inv: "lr_inv B (csv_in r)" and ne: "text_left (csv_in r) \<noteq> []"
    and short: "length (first_line (text_left (csv_in r))) < B"
    and nn: "NUL \<notin> set (strip_cr (first_line (text_left (csv_in r))))"
    and names: "length (column_names r) = 6"
  defines "hs \<equiv> line_cells (strip_cr (first_line (text_left (csv_in r))))"
  assumes bad: "\<not> header_accepted hs"
  obtains us v ws where "hs = us @ v # ws" "header_accepted us" "v \<in> set us \<or> v \<notin> set db_columns"
    "read_header B default_policies ignore_missing_column db_columns r =
      throw (set_name_of (csv_in r)
        (column_error (if v \<in> set us then duplicated_column_in_header else extra_column_in_header) v))"
proof -
  define h where "h = strip_cr (first_line (text_left (csv_in r)))"
  obtain pre x lr rest where run: "read_header B default_policies ignore_missing_column db_columns r =
      rethrow (\<lambda>_. True) (set_name_of (csv_in r))
        (res_bind (parse_header_line blanks (no_quote_escape CHR '','') (pre @ h @ NUL # (x @ rest)) (Some (length pre))
            db_columns ignore_missing_column)
          (\<lambda>(mem, order). ret (r\<lparr>csv_in := lr\<lparr>lr_buffer := mem\<rparr>, column_names := db_columns, col_order := order\<rparr>)))"
    by (rule read_header_run [OF inv ne short names h_def]) blast
  have hs: "hs = map (trim_text blanks) (split_sep CHR '','' h)" by (simp add: hs_def h_def line_cells_def)
  have acc: "distinct (filter (\<lambda>s. s \<in> set db_columns) us) \<and>
      (ignore_missing_column AND ignore_extra_column \<noteq> 0 \<or> set us \<subseteq> set db_columns) \<longleftrightarrow> header_accepted us" for us
    unfolding header_accepted_def policy_bits(1) by (metis (no_types, lifting) filter_True subsetD distinct_filter)
  from header_line_error [OF distinct_db_columns(1) nn [folded h_def], of blanks "CHR '',''" ignore_missing_column pre
      "x @ rest", folded hs, unfolded acc, OF bad] obtain us v ws where u: "hs = us @ v # ws"
    "distinct (filter (\<lambda>s. s \<in> set db_columns) us)" "ignore_missing_column AND ignore_extra_column \<noteq> 0 \<or> set us \<subseteq> set db_columns"
    "if v \<in> set db_columns then v \<in> set us else ignore_missing_column AND ignore_extra_column = 0"
    "parse_header_line blanks (no_quote_escape CHR '','') (pre @ h @ NUL # (x @ rest)) (Some (length pre)) db_columns
       ignore_missing_column =
      throw (column_error (if v \<in> set db_columns then duplicated_column_in_header else extra_column_in_header) v)" by blast
  have "header_accepted us" using acc u(2,3) by blast
  moreover from this have "v \<in> set db_columns \<longleftrightarrow> v \<in> set us" using u(4) by (auto simp: header_accepted_def split: if_splits)
  ultimately show thesis using u(1,5) run by (intro that [of us v ws]) simp_all
qed

lemma read_row_run:
  assumes inv: "lr_inv B (csv_in r)" and ne: "text_left (csv_in r) \<noteq> []"
    and short: "length (first_line (text_left (csv_in r))) < B"
    and l: "l = strip_cr (first_line (text_left (csv_in r)))"
  obtains pre rest lr where "file_line lr = file_line (csv_in r) + 1"
    "\<And>cols :: ('f col_type \<times> 'f col_value) list. read_row B default_policies cols r =
      rethrow has_file_line (set_file_line (sint (get_file_line lr)))
        (rethrow (\<lambda>_. True) (set_name_of lr)
          (res_bind (parse_line blanks (no_quote_escape CHR '','') (pre @ l @ NUL # rest) (Some (length pre)) (csv_row r) (col_order r))
             (\<lambda>(mem, row).
             res_bind (parse_helper (overflow_of default_policies) mem row (column_names r) 0 cols) (\<lambda>vs.
               ret (True, vs, r\<lparr>csv_in := lr\<lparr>lr_buffer := mem\<rparr>, csv_row := row\<rparr>)))))"
proof -
  obtain pre x lr where n: "next_line B (csv_in r) = ret (Some (length pre), lr)"
    "lr_buffer lr = pre @ l @ NUL # x @ drop (data_begin lr) (lr_buffer lr)" "file_line lr = file_line (csv_in r) + 1"
    unfolding l by (rule next_line_buffer [OF inv ne short]) blast
  define rest where "rest = x @ drop (data_begin lr) (lr_buffer lr)"
  have buf: "lr_buffer lr = pre @ l @ NUL # rest" using n(2) by (simp add: rest_def)
  show thesis
    by (rule that [OF n(3)])
      (simp add: read_row_def line_loop_default n(1) buf del: append_assoc append_Cons line_loop.simps replicate.simps)
qed

text \<open>The six strings read from a row of pointers are the cells below the names.\<close>

lemma parse_helper_settings:
  assumes "length ds = length hs" "header_accepted hs"
    and "points mem row (fill_row (replicate 6 None) (map (name_index db_columns) hs) ds)"
  shows "parse_helper pol mem row names 0 (replicate 6 (T_string :: 'f col_type, V_string [])) =
    ret (map (\<lambda>k. V_string (case map_of (zip hs ds) k of Some v \<Rightarrow> v | None \<Rightarrow> [])) db_columns)"
proof -
  let ?f = "fill_row (replicate 6 None) (map (name_index db_columns) hs) ds"
  have fr: "?f = map (\<lambda>i. case map_of (zip hs ds) (db_columns ! i) of Some v \<Rightarrow> Some v | None \<Rightarrow> (replicate 6 None) ! i) [0..<6]"
    using fill_row_by_name [OF distinct_db_columns(1), of "replicate 6 None" hs ds] assms(1,2) distinct_db_columns(2)
    by (simp add: header_accepted_def)
  have "parse_helper pol mem row names 0 (replicate 6 (T_string :: 'f col_type, V_string [])) =
      ret (map (\<lambda>i. V_string (case ?f ! i of Some s \<Rightarrow> s | None \<Rightarrow> [])) [0..<0 + 6])"
    using assms(3) by (intro parse_helper_strings) (simp_all add: fr)
  also have "map (\<lambda>i. V_string (case ?f ! i of Some s \<Rightarrow> s | None \<Rightarrow> [])) [0..<0 + 6] =
      map (\<lambda>i. V_string (case map_of (zip hs ds) (db_columns ! i) of Some v \<Rightarrow> v | None \<Rightarrow> [])) [0..<length db_columns]"
    unfolding distinct_db_columns(2) fr by (intro map_cong) (auto split: option.split)
  also have "\<dots> = map (\<lambda>k. V_string (case map_of (zip hs ds) k of Some v \<Rightarrow> v | None \<Rightarrow> [])) db_columns"
    by (intro nth_equalityI) simp_all
  finally show ?thesis .
qed

lemma read_row_ok:
  assumes inv: "lr_inv B (csv_in r)" and ne: "text_left (csv_in r) \<noteq> []"
    and short: "length (first_line (text_left (csv_in r))) < B"
    and nn: "NUL \<notin> set (strip_cr (first_line (text_left (csv_in r))))"
    and r: "csv_row r = replicate 6 None" "col_order r = map (name_index db_columns) hs" "header_accepted hs"
  defines "ds \<equiv> line_cells (strip_cr (first_line (text_left (csv_in r))))"
  shows "if length ds = length hs then
      \<exists>r'. read_row B default_policies (replicate 6 (T_string :: 'f col_type, V_string [])) r =
        ret (True, map (\<lambda>k. V_string (case map_of (zip hs ds) k of Some v \<Rightarrow> v | None \<Rightarrow> [])) db_columns, r')
    else \<exists>e. kind e = (if length ds < length hs then too_few_columns else too_many_columns) \<and>
      err_file_line e = sint (file_line (csv_in r) + 1) \<and>
      read_row B default_policies (replicate 6 (T_string :: 'f col_type, V_string [])) r = throw e"
proof -
  let ?ord = "map (name_index db_columns) hs"
  define l where "l = strip_cr (first_line (text_left (csv_in r)))"
  obtain pre rest lr where fl: "file_line lr = file_line (csv_in r) + 1"
    and run: "\<And>cols :: ('f col_type \<times> 'f col_value) list. read_row B default_policies cols r =
      rethrow has_file_line (set_file_line (sint (get_file_line lr)))
        (rethrow (\<lambda>_. True) (set_name_of lr)
          (res_bind (parse_line blanks (no_quote_escape CHR '','') (pre @ l @ NUL # rest) (Some (length pre)) (csv_row r) (col_order r))
             (\<lambda>(mem, row).
             res_bind (parse_helper (overflow_of default_policies) mem row (column_names r) 0 cols) (\<lambda>vs.
               ret (True, vs, r\<lparr>csv_in := lr\<lparr>lr_buffer := mem\<rparr>, csv_row := row\<rparr>)))))"
    by (rule read_row_run [where 'f = 'f, OF inv ne short l_def]) blast
  have ord: "\<forall>i\<in>set ?ord. i = -1 \<or> 0 \<le> i \<and> nat i < length (replicate 6 (None :: nat option))"
    using match_name_Some [of _ 0 db_columns] distinct_db_columns(2)
    by (fastforce simp: name_index_def split: option.splits)
  have pts: "points pre (replicate 6 None) (replicate 6 None)" by (simp add: points_def list_all2_conv_all_nth)
  have ds: "ds = map (trim_text blanks) (split_sep CHR '','' l)" by (simp add: ds_def l_def line_cells_def)
  define R where "R = parse_line blanks (no_quote_escape CHR '','') (pre @ l @ NUL # rest) (Some (length pre)) (replicate 6 None) ?ord"
  note spec = parse_line_columns [OF ord pts nn [folded l_def], of "CHR '',''" blanks rest, folded R_def ds, unfolded length_map]
  have lds: "length ds = length (split_sep CHR '','' l)" by (simp add: ds)
  note run = run [unfolded r(1,2), folded R_def]
  show ?thesis
  proof (cases "length ds = length hs")
    case True
    then obtain pre' row' where p: "points pre' row' (fill_row (replicate 6 None) ?ord ds)" "R = ret (pre' @ rest, row')"
      using spec lds by auto
    show ?thesis unfolding run p(2) if_P [OF True]
      using parse_helper_settings [where 'f = 'f, OF True r(3) points_append [OF p(1), of rest]] by simp
  next
    case False
    then have "R = throw (new_error (if length ds < length hs then too_few_columns else too_many_columns))"
      using spec lds by (auto split: if_splits)
    then show ?thesis unfolding run using False fl
      by (auto simp: has_file_line_def set_name_of_def set_file_line_def get_file_line_def new_error_def)
  qed
qed

section \<open>Properties\<close>

lemma split_text_Cons:
  assumes "split_text t = l # ls" "lines_fit B t"
  shows "t \<noteq> []" "length (first_line t) < B" "strip_cr (first_line t) = l" "split_text (after_line t) = ls"
    "lines_fit B (after_line t)"
  using assms by (auto simp: split_text.simps [of t] lines_fit.simps [of B t] split: if_splits)

lemma set_split_text: "l \<in> set (split_text t) \<Longrightarrow> set l \<subseteq> set t"
proof (induction t rule: split_text.induct)
  case (1 t)
  show ?case
  proof (cases "t = []")
    case False
    then consider "l = strip_cr (first_line t)" | "l \<in> set (split_text (after_line t))"
      using "1.prems" by (auto simp: split_text.simps [of t])
    then show ?thesis
    proof cases
      case 1
      have "set (strip_cr (first_line t)) \<subseteq> set (first_line t)" by (auto simp: strip_cr_def dest: in_set_butlastD)
      also have "\<dots> \<subseteq> set t" unfolding first_line_def by (auto dest: set_takeWhileD)
      finally show ?thesis using 1 by simp
    next
      case 2
      then have "set l \<subseteq> set (after_line t)" using "1.IH" False by blast
      then show ?thesis unfolding after_line_def by (meson order_trans set_drop_subset)
    qed
  qed (use "1.prems" in \<open>simp add: split_text.simps\<close>)
qed

lemma CSVReader_new_ok:
  assumes "2 \<le> B" "length junk = 3 * B" "NUL \<notin> set name" "fopen name = Inr src"
  obtains r where "CSVReader_new B fopen junk 6 name = ret r" "lr_inv B (csv_in r)" "text_left (csv_in r) = drop_bom src"
    "csv_row r = replicate 6 None" "length (column_names r) = 6" "file_line (csv_in r) = 0"
proof -
  obtain lr where "LineReader_open B fopen junk name = ret lr" "lr_inv B lr" "text_left lr = drop_bom src" "file_line lr = 0"
    using LineReader_open_spec [of B junk name fopen src, OF assms] by blast
  then show thesis using that by (simp add: CSVReader_new_def)
qed

lemma ParseCsvData_two_lines:
  assumes "2 \<le> B" "length junk = 3 * B" "NUL \<notin> set name" "fopen name = Inr src" "NUL \<notin> set src"
    and "lines_fit B (drop_bom src)" "split_text (drop_bom src) = h # d # ls"
    and "header_accepted (line_cells h)" "length (line_cells d) = length (line_cells h)"
  shows "ParseCsvData B fopen junk (Some name) c =
    ret (store_settings
           (map (\<lambda>k. case map_of (zip (line_cells h) (line_cells d)) k of Some v \<Rightarrow> v | None \<Rightarrow> []) db_columns) c)"
proof -
  obtain r where r: "CSVReader_new B fopen junk 6 name = ret r" "lr_inv B (csv_in r)" "text_left (csv_in r) = drop_bom src"
    "csv_row r = replicate 6 None" "length (column_names r) = 6"
    by (rule CSVReader_new_ok [OF assms(1-3), where fopen = fopen and src = src]) (use assms(4) in auto)
  have "set (drop_bom src) \<subseteq> set src" by (auto simp: drop_bom_def dest: in_set_dropD)
  then have nn: "NUL \<notin> set h" "NUL \<notin> set d"
    using set_split_text [of h "drop_bom src"] set_split_text [of d "drop_bom src"] assms(5,7) by auto
  note l1 = split_text_Cons [OF assms(7,6)]
  note l2 = split_text_Cons [OF l1(4,5)]
  obtain lr where lr: "lr_inv B lr" "text_left lr = after_line (drop_bom src)"
    "read_header B default_policies ignore_missing_column db_columns r =
       ret (r\<lparr>csv_in := lr, column_names := db_columns, col_order := map (name_index db_columns) (line_cells h)\<rparr>)"
    using read_header_ok [of B r] r l1 nn(1) assms(8) by auto
  let ?r1 = "r\<lparr>csv_in := lr, column_names := db_columns, col_order := map (name_index db_columns) (line_cells h)\<rparr>"
  obtain r' where "read_row B default_policies (replicate 6 (T_string :: real col_type, V_string [])) ?r1 =
      ret (True, map (\<lambda>k. V_string (case map_of (zip (line_cells h) (line_cells d)) k of Some v \<Rightarrow> v | None \<Rightarrow> [])) db_columns, r')"
    using read_row_ok [of B ?r1 "line_cells h"] lr r(4) l2 nn(2) assms(8,9) by auto
  then show ?thesis using r(1) lr(3) by (simp add: ParseCsvData_def comp_def)
qed

text \<open>
  C14: the settings file is read correctly from its bytes. When its header line names each setting at most
  once and nothing else, and its second line has as many cells, every setting gets the trimmed cell below
  its name: the call succeeds and stores them exactly when all six are there and not empty, and
  otherwise logs an error, returns false and stores nothing. Further lines are not looked at.
\<close>

theorem ParseCsvData_correct:
  assumes "2 \<le> B" "length junk = 3 * B" "NUL \<notin> set name" "fopen name = Inr src" "NUL \<notin> set src"
    and "lines_fit B (drop_bom src)" "split_text (drop_bom src) = h # d # ls"
    and "header_accepted (line_cells h)" "length (line_cells d) = length (line_cells h)"
    and "cell = (\<lambda>k. case map_of (zip (line_cells h) (line_cells d)) k of Some v \<Rightarrow> v | None \<Rightarrow> [])"
  shows "ParseCsvData B fopen junk (Some name) c = ret
    (if cell ''DbIp'' \<noteq> [] \<and> cell ''DbPort'' \<noteq> [] \<and> cell ''DbUserName'' \<noteq> [] \<and> cell ''DbPasswd'' \<noteq> [] \<and>
        cell ''DbName'' \<noteq> [] \<and> cell ''DbTable'' \<noteq> []
     then (True, c\<lparr>strDbIp := cell ''DbIp'', strDbPort := cell ''DbPort'', strDbUserName := cell ''DbUserName'',
                    strDbPasswd := cell ''DbPasswd'', strDbName := cell ''DbName'', strDbTable := cell ''DbTable''\<rparr>)
     else (False, log_error ''read empty data from cvs'' c))"
proof -
  have "ParseCsvData B fopen junk (Some name) c = ret (store_settings (map cell db_columns) c)"
    unfolding assms(10) using assms(1-9) by (rule ParseCsvData_two_lines)
  also have "map cell db_columns = [cell ''DbIp'', cell ''DbPort'', cell ''DbUserName'', cell ''DbPasswd'', cell ''DbName'', cell ''DbTable'']"
    by (simp add: db_columns_def)
  finally show ?thesis by (auto simp: store_settings_def)
qed

theorem ParseCsvData_correct_witness:
  "ParseCsvData 64 (\<lambda>_. Inr (''DbName,DbIp,DbPort,DbTable,DbUserName,DbPasswd'' @ [NL] @ ''cams, 10.0.0.9 ,3306,t,u,p''))
       (replicate 192 NUL) (Some ''f.csv'') CsvParse_new =
     ret (True, CsvParse_new\<lparr>strDbIp := ''10.0.0.9'', strDbPort := ''3306'', strDbUserName := ''u'',
                    strDbPasswd := ''p'', strDbName := ''cams'', strDbTable := ''t''\<rparr>)"
proof -
  let ?h = "''DbName,DbIp,DbPort,DbTable,DbUserName,DbPasswd''" and ?d = "''cams, 10.0.0.9 ,3306,t,u,p''"
  let ?src = "?h @ [NL] @ ?d"
  have b: "drop_bom ?src = ?src" by (simp add: drop_bom_def)
  have s: "split_text ?src = [?h, ?d]"
    by (simp add: split_text.simps first_line_def after_line_def strip_cr_def)
  have f: "lines_fit 64 ?src" by (simp add: lines_fit.simps first_line_def after_line_def)
  have h: "line_cells ?h = [''DbName'', ''DbIp'', ''DbPort'', ''DbTable'', ''DbUserName'', ''DbPasswd'']"
    "line_cells ?d = [''cams'', ''10.0.0.9'', ''3306'', ''t'', ''u'', ''p'']"
    by (simp_all add: line_cells_def trim_text_def)
  have a: "header_accepted (line_cells ?h)" "length (line_cells ?d) = length (line_cells ?h)"
    unfolding h by (simp_all add: header_accepted_def db_columns_def)
  have n: "NUL \<notin> set ''f.csv''" "NUL \<notin> set ?src" by simp_all
  have "ParseCsvData 64 (\<lambda>_. Inr ?src) (replicate 192 NUL) (Some ''f.csv'') CsvParse_new = ret
    (if cell ''DbIp'' \<noteq> [] \<and> cell ''DbPort'' \<noteq> [] \<and> cell ''DbUserName'' \<noteq> [] \<and> cell ''DbPasswd'' \<noteq> [] \<and>
        cell ''DbName'' \<noteq> [] \<and> cell ''DbTable'' \<noteq> []
     then (True, CsvParse_new\<lparr>strDbIp := cell ''DbIp'', strDbPort := cell ''DbPort'', strDbUserName := cell ''DbUserName'',
                    strDbPasswd := cell ''DbPasswd'', strDbName := cell ''DbName'', strDbTable := cell ''DbTable''\<rparr>)
     else (False, log_error ''read empty data from cvs'' CsvParse_new))"
    if cell: "cell = (\<lambda>k. case map_of (zip (line_cells ?h) (line_cells ?d)) k of Some v \<Rightarrow> v | None \<Rightarrow> [])" for cell
    by (rule ParseCsvData_correct [where src = ?src and h = ?h and d = ?d and ls = "[]"])
      (simp_all only: b s f a n cell length_replicate, simp_all)
  from this [OF refl] show ?thesis unfolding h by simp
qed

text \<open>The exceptions of \<^verbatim>\<open>ParseCsvData\<close>, by what is wrong with the file.\<close>

lemma ParseCsvData_unopened:
  assumes "NUL \<notin> set name" "fopen name = Inl x"
  shows "\<exists>e. ParseCsvData B fopen junk (Some name) c = throw e \<and> kind e = can_not_open_file \<and> errno_value e = x \<and>
    cstr (err_file_name e) = Some (take 255 name)"
proof -
  let ?e = "set_errno x (new_error can_not_open_file)"
  have "ParseCsvData B fopen junk (Some name) c =
      throw (?e\<lparr>err_file_name := set_file_name (Some name) (err_file_name ?e)\<rparr>)"
    using assms(2) by (simp add: ParseCsvData_def CSVReader_new_def LineReader_open_def open_file_def Let_def)
  moreover have "cstr (set_file_name (Some name) (err_file_name ?e)) = Some (take 255 name)"
    using set_file_name_cstr [of "err_file_name ?e" name] assms(1)
    by (simp add: set_errno_def new_error_def max_file_name_length_def)
  ultimately show ?thesis by (simp add: set_errno_def new_error_def)
qed

lemma ParseCsvData_empty:
  assumes "2 \<le> B" "length junk = 3 * B" "NUL \<notin> set name" "fopen name = Inr []"
  shows "\<exists>e. ParseCsvData B fopen junk (Some name) c = throw e \<and> kind e = header_missing"
proof -
  obtain r where r: "CSVReader_new B fopen junk 6 name = ret r" "lr_inv B (csv_in r)" "text_left (csv_in r) = drop_bom []"
    by (rule CSVReader_new_ok [OF assms(1-3), where fopen = fopen and src = "[]"]) (use assms(4) in auto)
  then have "ParseCsvData B fopen junk (Some name) c = throw (set_name_of (csv_in r) (new_error header_missing))"
    by (simp add: ParseCsvData_def read_header_def line_loop_default [of 0, simplified] next_line_at_end drop_bom_def Let_def)
  then show ?thesis by (simp add: set_name_of_def new_error_def)
qed

lemma lines_start:
  assumes "2 \<le> B" "length junk = 3 * B" "NUL \<notin> set name" "fopen name = Inr src"
    and "NUL \<notin> set src" "lines_fit B (drop_bom src)" "split_text (drop_bom src) = h # ls"
  obtains r where "CSVReader_new B fopen junk 6 name = ret r" "lr_inv B (csv_in r)" "text_left (csv_in r) = drop_bom src"
    "csv_row r = replicate 6 None" "length (column_names r) = 6" "file_line (csv_in r) = 0"
    "drop_bom src \<noteq> []" "length (first_line (drop_bom src)) < B" "strip_cr (first_line (drop_bom src)) = h"
    "split_text (after_line (drop_bom src)) = ls" "lines_fit B (after_line (drop_bom src))"
    "\<forall>l\<in>set (h # ls). NUL \<notin> set l"
proof -
  have "set (drop_bom src) \<subseteq> set src" by (auto simp: drop_bom_def dest: in_set_dropD)
  then have "\<forall>l\<in>set (h # ls). NUL \<notin> set l"
    using set_split_text [of _ "drop_bom src"] assms(5,7) by fastforce
  then show thesis
    by (rule_tac CSVReader_new_ok [where fopen = fopen, OF assms(1-4)]) (rule that; use split_text_Cons [OF assms(7,6)] in simp)
qed

lemma set_split_sep: "w \<in> set (split_sep sep t) \<Longrightarrow> set w \<subseteq> set t"
  by (induction sep t arbitrary: w rule: split_sep.induct) (fastforce split: if_splits list.splits)+

lemma cells_no_nul: "NUL \<notin> set h \<Longrightarrow> v \<in> set (line_cells h) \<Longrightarrow> NUL \<notin> set v"
  using set_trim_text set_split_sep by (fastforce simp: line_cells_def)

lemma column_error_name:
  "NUL \<notin> set v \<Longrightarrow> kind (set_name_of lr (column_error k v)) = k \<and>
    cstr (err_column_name (set_name_of lr (column_error k v))) = Some (take 63 v)"
  using set_column_name_cstr [of "replicate 64 NUL" v]
  by (simp add: set_name_of_def column_error_def new_error_def Let_def max_column_name_length_def)

lemma ParseCsvData_bad_header:
  assumes "2 \<le> B" "length junk = 3 * B" "NUL \<notin> set name" "fopen name = Inr src"
    and src: "NUL \<notin> set src" "lines_fit B (drop_bom src)" "split_text (drop_bom src) = h # ls"
    and bad: "\<not> header_accepted (line_cells h)"
  shows "\<exists>e us v ws. ParseCsvData B fopen junk (Some name) c = throw e \<and> line_cells h = us @ v # ws \<and>
    header_accepted us \<and> (v \<in> set us \<or> v \<notin> set db_columns) \<and>
    kind e = (if v \<in> set us then duplicated_column_in_header else extra_column_in_header) \<and>
    cstr (err_column_name e) = Some (take 63 v)"
proof -
  obtain r where r: "CSVReader_new B fopen junk 6 name = ret r" "lr_inv B (csv_in r)" "text_left (csv_in r) = drop_bom src"
    "length (column_names r) = 6" "drop_bom src \<noteq> []" "length (first_line (drop_bom src)) < B"
    "strip_cr (first_line (drop_bom src)) = h" "\<forall>l\<in>set (h # ls). NUL \<notin> set l"
    by (rule lines_start [where fopen = fopen, OF assms(1-4) src])
  obtain us v ws where u: "line_cells h = us @ v # ws" "header_accepted us" "v \<in> set us \<or> v \<notin> set db_columns"
    "read_header B default_policies ignore_missing_column db_columns r =
      throw (set_name_of (csv_in r)
        (column_error (if v \<in> set us then duplicated_column_in_header else extra_column_in_header) v))"
    by (rule read_header_error [of B r]) (use r bad in auto)
  have "NUL \<notin> set v"
  proof -
    have "v \<in> set (line_cells h)" using u(1) by simp
    then show ?thesis using r(8) cells_no_nul [of h] by auto
  qed
  then show ?thesis using r(1) u
    by (intro exI [of _ "set_name_of (csv_in r) (column_error (if v \<in> set us then duplicated_column_in_header else extra_column_in_header) v)"]
        exI [of _ us] exI [of _ v] exI [of _ ws])
      (simp add: ParseCsvData_def column_error_name)
qed

lemma ParseCsvData_bad_row:
  assumes "2 \<le> B" "length junk = 3 * B" "NUL \<notin> set name" "fopen name = Inr src"
    and src: "NUL \<notin> set src" "lines_fit B (drop_bom src)" "split_text (drop_bom src) = h # d # ls"
    and h: "header_accepted (line_cells h)" and bad: "length (line_cells d) \<noteq> length (line_cells h)"
  shows "\<exists>e. ParseCsvData B fopen junk (Some name) c = throw e \<and> err_file_line e = 2 \<and>
    kind e = (if length (line_cells d) < length (line_cells h) then too_few_columns else too_many_columns)"
proof -
  obtain r where r: "CSVReader_new B fopen junk 6 name = ret r" "lr_inv B (csv_in r)" "text_left (csv_in r) = drop_bom src"
    "csv_row r = replicate 6 None" "length (column_names r) = 6" "file_line (csv_in r) = 0"
    "drop_bom src \<noteq> []" "length (first_line (drop_bom src)) < B" "strip_cr (first_line (drop_bom src)) = h"
    "split_text (after_line (drop_bom src)) = d # ls" "lines_fit B (after_line (drop_bom src))"
    "\<forall>l\<in>set (h # d # ls). NUL \<notin> set l"
    by (rule lines_start [where fopen = fopen, OF assms(1-4) src])
  note l2 = split_text_Cons [OF r(10,11)]
  let ?r1 = "\<lambda>lr. r\<lparr>csv_in := lr, column_names := db_columns, col_order := map (name_index db_columns) (line_cells h)\<rparr>"
  obtain lr where lr: "lr_inv B lr" "text_left lr = after_line (drop_bom src)" "file_line lr = 1"
    "read_header B default_policies ignore_missing_column db_columns r = ret (?r1 lr)"
    using read_header_ok [of B r] r h by auto
  obtain e where "kind e = (if length (line_cells d) < length (line_cells h) then too_few_columns else too_many_columns)"
    "err_file_line e = sint (1 + 1 :: u32)"
    "read_row B default_policies (replicate 6 (T_string :: real col_type, V_string [])) (?r1 lr) = throw e"
    using read_row_ok [of B "?r1 lr" "line_cells h"] lr r(4,12) l2 h bad by (auto split: if_splits)
  then show ?thesis using r(1) lr(4) by (auto simp: ParseCsvData_def)
qed

text \<open>
  C15: a settings file that cannot be opened, is empty, or whose header or second line is not acceptable, makes
  \<^verbatim>\<open>ParseCsvData\<close> throw; nothing in it catches the exception. An unreadable file gives \<^verbatim>\<open>can_not_open_file\<close> with
  the errno value and the name (to 255 characters), an empty file \<^verbatim>\<open>header_missing\<close>. A header that is not accepted
  gives the error of its first wrong cell \<open>v\<close>, with that cell (to 63 characters) as the name of the column:
  \<^verbatim>\<open>duplicated_column_in_header\<close> when \<open>v\<close> occurred before, \<^verbatim>\<open>extra_column_in_header\<close> when it is no expected name. With an
  accepted header, a second line of fewer cells gives \<^verbatim>\<open>too_few_columns\<close> and one of more cells \<^verbatim>\<open>too_many_columns\<close>,
  with line number 2. Assumed is that the text has no NUL and no line of the block length or more.
\<close>

theorem ParseCsvData_throws:
  assumes "2 \<le> B" "length junk = 3 * B" "NUL \<notin> set name"
    and "case fopen name of
           Inl x \<Rightarrow> True
         | Inr src \<Rightarrow> src = [] \<or> NUL \<notin> set src \<and> lines_fit B (drop_bom src) \<and>
             (\<exists>h ls. split_text (drop_bom src) = h # ls \<and>
                (\<not> header_accepted (line_cells h) \<or> (\<exists>d ls'. ls = d # ls' \<and> length (line_cells d) \<noteq> length (line_cells h))))"
  shows "\<exists>e. ParseCsvData B fopen junk (Some name) c = throw e \<and>
    (case fopen name of
       Inl x \<Rightarrow> kind e = can_not_open_file \<and> errno_value e = x \<and> cstr (err_file_name e) = Some (take 255 name)
     | Inr src \<Rightarrow>
        (if src = [] then kind e = header_missing
         else let hs = line_cells (split_text (drop_bom src) ! 0); ds = line_cells (split_text (drop_bom src) ! 1) in
           if \<not> header_accepted hs
           then \<exists>us v ws. hs = us @ v # ws \<and> header_accepted us \<and> (v \<in> set us \<or> v \<notin> set db_columns) \<and>
             kind e = (if v \<in> set us then duplicated_column_in_header else extra_column_in_header) \<and>
             cstr (err_column_name e) = Some (take 63 v)
           else kind e = (if length ds < length hs then too_few_columns else too_many_columns) \<and> err_file_line e = 2))"
proof (cases "fopen name")
  case (Inl x)
  then show ?thesis using ParseCsvData_unopened [where fopen = fopen, OF assms(3)] by simp
next
  case (Inr src)
  show ?thesis
  proof (cases "src = []")
    case True
    then show ?thesis using ParseCsvData_empty [where fopen = fopen, OF assms(1-3), of c] Inr by fastforce
  next
    case False
    then obtain h ls where s: "NUL \<notin> set src" "lines_fit B (drop_bom src)" "split_text (drop_bom src) = h # ls"
      and bad: "\<not> header_accepted (line_cells h) \<or> (\<exists>d ls'. ls = d # ls' \<and> length (line_cells d) \<noteq> length (line_cells h))"
      using assms(4) Inr by auto
    show ?thesis
    proof (cases "header_accepted (line_cells h)")
      case True
      then obtain d ls' where d: "ls = d # ls'" "length (line_cells d) \<noteq> length (line_cells h)" using bad by blast
      from ParseCsvData_bad_row [where fopen = fopen, OF assms(1-3) Inr s [unfolded d(1)] True d(2), of c] show ?thesis
        using Inr False True s(3) d(1) by (cases "length (line_cells d) < length (line_cells h)") auto
    next
      case no: False
      from ParseCsvData_bad_header [where fopen = fopen, OF assms(1-3) Inr s no, of c] show ?thesis
        using Inr False no s(3) by simp
    qed
  qed
qed

theorem ParseCsvData_throws_witness:
  "\<exists>e. ParseCsvData 2 (\<lambda>_. Inl 2) (replicate 6 NUL) (Some ''f.csv'') CsvParse_new = throw e \<and>
     kind e = can_not_open_file \<and> errno_value e = 2 \<and> cstr (err_file_name e) = Some ''f.csv''"
  using ParseCsvData_throws [of 2 "replicate 6 NUL" "''f.csv''" "\<lambda>_. Inl 2" CsvParse_new] by simp

end
