(* ===== verification/Service_Main.thy ===== *)
theory Service_Main
  imports Alarm_Ring DataBase Serial_Config Hik_Device Csv_Parse
begin

text \<open>
  The service itself, \<^verbatim>\<open>src/src/main.cpp\<close>: the PID file, the start-up sequence, the camera loop, the alarm
  loop and the end.

  The state of the process is one record with the states of the components, the log, the standard output
  and the calls to the SDK. A run of a piece of code continues (\<open>Ok\<close>), returns from \<^verbatim>\<open>main\<close> (\<open>Exit\<close>), ends in an
  exception that nothing catches (\<open>Abort\<close>) or accesses memory outside an object (\<open>Undefined\<close>).

  The alarm callback and the signal handler run while the loop sleeps and while it handles a batch: before
  each test of the flag and after each alarm of the batch an arbitrary list of events takes place. What
  arrives during the start-up is in the events before the first test, because the start-up does not read
  the ring and only clears the flag. Interleavings between single calls are the subject of \<open>Alarm_Ring\<close>.
\<close>

section \<open>State\<close>

datatype 'a run = Ok 'a | Exit int | Abort | Undefined

fun run_bind :: "'a run \<Rightarrow> ('a \<Rightarrow> 'b run) \<Rightarrow> 'b run" where
  "run_bind (Ok x) f = f x"
| "run_bind (Exit n) f = Exit n"
| "run_bind Abort f = Abort"
| "run_bind Undefined f = Undefined"

fun of_option :: "'a option \<Rightarrow> 'a run" where
  "of_option None = Undefined"
| "of_option (Some x) = Ok x"

definition of_res :: "'a res \<Rightarrow> 'a run" where
  "of_res r = (case r of None \<Rightarrow> Undefined | Some (Inl e) \<Rightarrow> Abort | Some (Inr x) \<Rightarrow> Ok x)"

record service =
  ServiceRun :: bool
  st_hik :: hik_state
  st_db :: db_state
  st_port :: serial_port
  st_dev :: "string \<Rightarrow> tty"
  st_dev_name :: string
  st_writes :: nat
  st_log :: "string list"
  st_out :: "string list"
  st_sdk :: "sdk_call list"
  st_pid :: "string option"
  st_closed :: "int list"

definition log_line :: "string \<Rightarrow> service \<Rightarrow> service" where
  "log_line msg st = st\<lparr>st_log := st_log st @ [msg]\<rparr>"

definition print_line :: "string \<Rightarrow> service \<Rightarrow> service" where
  "print_line msg st = st\<lparr>st_out := st_out st @ [msg]\<rparr>"

definition stop :: "service \<Rightarrow> service" where
  "stop st = st\<lparr>ServiceRun := False\<rparr>"

section \<open>Signal and PID file\<close>

definition SIGTERM :: int where "SIGTERM = 15"

definition ProcessQuit :: "int \<Rightarrow> service \<Rightarrow> service" where
  "ProcessQuit pid st = (if SIGTERM = pid then st\<lparr>ServiceRun := False\<rparr> else st)"

text \<open>What the system calls of \<^verbatim>\<open>CreatePidFile\<close> return, and the text of \<^verbatim>\<open>errno\<close>.\<close>

record pid_env =
  getpid :: int
  access_ret :: int
  mkdir_ret :: int
  pid_open_ret :: int
  ftruncate_ret :: int
  pid_write_ret :: int
  errno_text :: string

text \<open>The return value, the message in \<^verbatim>\<open>pMsg\<close> and the content of the PID file, if it was written.\<close>

definition CreatePidFile :: "pid_env \<Rightarrow> nat \<Rightarrow> int \<times> string \<times> string option" where
  "CreatePidFile env u32MsgSize =
     (let fail = (\<lambda>msg. (-1, snprintf_str u32MsgSize (msg @ errno_text env @ [CHR 0x0A]), None));
          u8PidBuf = snprintf_str 64 (dec_int (getpid env) @ [CHR 0x0A])
      in if access_ret env < 0 \<and> mkdir_ret env < 0 then fail ''mkdir /var/run/mdalarm fail : ''
         else if pid_open_ret env < 0 then fail ''open /var/run/mdalarm/mdalarm pid file fail : ''
         else if ftruncate_ret env < 0 then fail ''clear /var/run/mdalarm/mdalarm pid file fail : ''
         else if pid_write_ret env < int (length u8PidBuf)
         then fail ''write pid to /var/run/mdalarm/mdalarm file fail : ''
         else (0, [], Some u8PidBuf))"

section \<open>Start-up\<close>

text \<open>
  Everything outside the process that the start-up meets; \<^verbatim>\<open>argv\<close> is the text that \<^verbatim>\<open>%p\<close> prints for it.
\<close>

record start_env =
  se_argc :: int
  se_argv :: string
  se_pid :: pid_env
  se_block :: nat
  se_fopen :: "string \<Rightarrow> int + char list"
  se_junk :: "char list"
  se_mysql :: mysql_env
  se_sdk :: hik_sdk
  se_past :: "nat \<Rightarrow> u32 \<times> u32"
  se_open :: "string \<Rightarrow> int"
  se_tcgetattr :: int
  se_tcsetattr :: int

text \<open>
  One round of the camera loop; \<open>continue\<close> keeps the state. \<open>port0\<close> is what \<^verbatim>\<open>CameraPort\<close> holds before it
  is set.
\<close>

definition camera_step :: "hik_sdk \<Rightarrow> u32 \<Rightarrow> nat \<Rightarrow> service \<Rightarrow> service run" where
  "camera_step sdk port0 i st =
     (case GetCameraIp i [] (st_db st) of (ok1, ip, db1) \<Rightarrow>
      if \<not> ok1 then Ok (log_line (''get camera['' @ dec i @ ''] ip from database fail'') (st\<lparr>st_db := db1\<rparr>))
      else case GetCameraPort i port0 db1 of (ok2, port, db2) \<Rightarrow>
      if \<not> ok2 then Ok (log_line (''get camera['' @ dec i @ ''] port from database fail'') (st\<lparr>st_db := db2\<rparr>))
      else case GetCameraUserName i [] db2 of (ok3, user, db3) \<Rightarrow>
      if \<not> ok3 then Ok (log_line (''get camera['' @ dec i @ ''] user name from database fail'') (st\<lparr>st_db := db3\<rparr>))
      else case GetCameraPasswd i [] db3 of (ok4, pass, db4) \<Rightarrow>
      if \<not> ok4 then Ok (log_line (''get camera['' @ dec i @ ''] password from database fail'') (st\<lparr>st_db := db4\<rparr>))
      else
        let h = \<lparr>sDevIp = ip, wDevPort = ucast port, sDevUserName = user, sDevPassword = pass, lUserId = -1\<rparr>
        in run_bind (of_option (HikDevLogin sdk h)) (\<lambda>(uid, cs).
             let st1 = st\<lparr>st_db := db4, st_sdk := st_sdk st @ cs\<rparr>
             in if uid < 0 then Ok (log_line (''camera['' @ c_str ip @ ''] login fail'') st1)
                else
                  let st2 = log_line (''camera['' @ c_str ip @ ''] login successful'') st1;
                      (armed, hik, cs2) = HikDevStartAlarm sdk uid (st_hik st2)
                  in Ok (st2\<lparr>st_hik := hik, st_sdk := st_sdk st2 @ cs2\<rparr>)))"

fun camera_loop :: "hik_sdk \<Rightarrow> u32 \<Rightarrow> nat \<Rightarrow> nat \<Rightarrow> service \<Rightarrow> service run" where
  "camera_loop sdk port0 0 i st = Ok st"
| "camera_loop sdk port0 (Suc n) i st =
     run_bind (camera_step sdk port0 i st) (camera_loop sdk port0 n (i + 1))"

text \<open>The database settings of the file, the connection and the table.\<close>

definition start_database :: "start_env \<Rightarrow> service \<Rightarrow> service run" where
  "start_database env st =
     run_bind (of_res (ParseCsvData (se_block env) (se_fopen env) (se_junk env)
                 (Some ''/usr/local/mdalarm/DbCfg.csv'') CsvParse_new)) (\<lambda>(ok, DbCfg).
       let st1 = st\<lparr>st_log := st_log st @ csv_log DbCfg, ServiceRun := ServiceRun st \<and> ok\<rparr>;
           (port_ok, port) = StrToUint (GetDbPort DbCfg);
           st2 = (if \<not> port_ok then stop (log_line ''get invalid port from DbCfg.csv'' st1) else st1)
       in run_bind (of_option (ConnectDataBase (se_mysql env) (Some (c_str (GetDbIp DbCfg))) port
                      (Some (c_str (GetDbUserName DbCfg))) (Some (c_str (GetDbPasswd DbCfg)))
                      (Some (c_str (GetDbName DbCfg))) (Some (c_str (GetDbTable DbCfg))) (st_db st2))) (\<lambda>(r, db).
            Ok (st2\<lparr>st_db := db, ServiceRun := ServiceRun st2 \<and> r\<rparr>)))"

text \<open>The first lines of \<^verbatim>\<open>main\<close>: the banner, the log entry and the PID file.\<close>

definition start_process :: "start_env \<Rightarrow> service \<Rightarrow> service" where
  "start_process env st0 =
     (let banner = ''argc = '' @ dec_int (se_argc env) @ '', argv = '' @ se_argv env @ '' '';
          st1 = log_line ''motion detect service start'' (print_line banner st0);
          (pid_ret, msg, content) = CreatePidFile (se_pid env) 256;
          st2 = st1\<lparr>st_pid := content\<rparr>
      in if pid_ret < 0 then stop (log_line msg st2) else st2)"

text \<open>The port of the modem: 115200 baud, 8 data bits, one stop bit and no parity.\<close>

definition start_port :: "start_env \<Rightarrow> service \<Rightarrow> service" where
  "start_port env st =
     (let (r, port, dev) = Open (se_past env) (se_open env) (se_tcgetattr env) (se_tcsetattr env)
                             115200 8 1 CHR ''N'' SerialPort (st_dev st);
          name = (case open_loop (se_open env) dev_t of (f, Some n) \<Rightarrow> n | _ \<Rightarrow> [])
      in st\<lparr>st_port := port, st_dev := dev, st_dev_name := name, ServiceRun := ServiceRun st \<and> \<not> r < 0\<rparr>)"

definition start_service :: "start_env \<Rightarrow> u32 \<Rightarrow> service \<Rightarrow> service run" where
  "start_service env port0 st0 =
     run_bind (start_database env (start_process env st0)) (\<lambda>st3.
       let (init_ok, cs) = InitialSDK (se_sdk env);
           st4 = st3\<lparr>st_sdk := st_sdk st3 @ cs, ServiceRun := ServiceRun st3 \<and> init_ok\<rparr>
       in run_bind (camera_loop (se_sdk env) port0 (GetCameraNum (st_db st4)) 0 st4) (\<lambda>st5.
            Ok (start_port env st5)))"

section \<open>The alarm loop\<close>

text \<open>\<^verbatim>\<open>snprintf(sDataTime, 128, "%u-%u-%u %u:%u:%u", ...)\<close>.\<close>

definition date_time_text :: "date_time \<Rightarrow> string" where
  "date_time_text d =
     snprintf_str 128 (dec (unat (uiYear d)) @ ''-'' @ dec (unat (uiMonth d)) @ ''-'' @ dec (unat (uiDay d)) @ '' '' @
       dec (unat (uiHour d)) @ '':'' @ dec (unat (uiMinute d)) @ '':'' @ dec (unat (uiSecond d)))"

text \<open>
  One message to one number: packed, printed, copied byte by byte into the 512-byte array and written.
  \<open>wr k n\<close> is what the \<open>k\<close>-th \<^verbatim>\<open>write\<close> returns, of \<open>n\<close> bytes.
\<close>

definition send_alarm :: "(nat \<Rightarrow> nat \<Rightarrow> int) \<Rightarrow> string \<Rightarrow> string \<Rightarrow> string \<Rightarrow> string \<Rightarrow> service \<Rightarrow> service run" where
  "send_alarm wr dt ip name phone st =
     (case PackMsgToAlarm dt ip name phone of
        None \<Rightarrow> Abort
      | Some msg \<Rightarrow>
          let st1 = print_line (msg @ '' size = '' @ dec (length msg)) st
          in if 512 < length msg then Undefined
             else
               let BufSent = map byte_of msg;
                   (r, d) = writeBuffer (wr (st_writes st1) (length BufSent)) BufSent (st_port st1) (st_dev st1 (st_dev_name st1))
               in Ok (print_line (ip @ '' alarm to '' @ phone)
                        (st1\<lparr>st_dev := (st_dev st1)(st_dev_name st1 := d), st_writes := st_writes st1 + 1\<rparr>)))"

fun phone_loop :: "(nat \<Rightarrow> nat \<Rightarrow> int) \<Rightarrow> string \<Rightarrow> string \<Rightarrow> string \<Rightarrow> string list \<Rightarrow> service \<Rightarrow> service run" where
  "phone_loop wr dt ip name [] st = Ok st"
| "phone_loop wr dt ip name (p # ps) st =
     run_bind (send_alarm wr dt ip name p st) (phone_loop wr dt ip name ps)"

text \<open>One pending alarm.\<close>

definition alarm_step :: "(int \<Rightarrow> tm) \<Rightarrow> (nat \<Rightarrow> nat \<Rightarrow> int) \<Rightarrow> u32 \<Rightarrow> service \<Rightarrow> service run" where
  "alarm_step localtime wr i st =
     run_bind (of_option (HikDevGetAlarmDateTime localtime i (st_hik st))) (\<lambda>d.
     run_bind (of_option (HikDevGetAlarmIp i [] (st_hik st))) (\<lambda>ip.
       if ip = [] then Ok (log_line ''get alarm camera ip null'' st)
       else case GetCameraName ip [] (st_db st) of (ok, name, db1) \<Rightarrow>
         if \<not> ok then Ok (log_line ''get alarm camera name null'' (st\<lparr>st_db := db1\<rparr>))
         else case GetCameraWarnPhone ip [] db1 of (ok2, phones, db2) \<Rightarrow>
           if \<not> ok2 then Exit (-1)
           else phone_loop wr (date_time_text d) ip name phones (st\<lparr>st_db := db2\<rparr>)))"

text \<open>The alarm callback and the signal handler.\<close>

datatype event = Alarm sdk_event | Signal int

fun apply_event :: "event \<Rightarrow> service \<Rightarrow> service run" where
  "apply_event (Alarm ev) st = run_bind (of_option (deliver ev (st_hik st))) (\<lambda>h. Ok (st\<lparr>st_hik := h\<rparr>))"
| "apply_event (Signal n) st = Ok (ProcessQuit n st)"

fun apply_events :: "event list \<Rightarrow> service \<Rightarrow> service run" where
  "apply_events [] st = Ok st"
| "apply_events (e # es) st = run_bind (apply_event e st) (apply_events es)"

text \<open>
  The batch: \<open>evs i\<close> are the events that arrive while alarm \<open>i\<close> is handled.
\<close>

fun alarm_loop :: "(int \<Rightarrow> tm) \<Rightarrow> (nat \<Rightarrow> nat \<Rightarrow> int) \<Rightarrow> (u32 \<Rightarrow> event list) \<Rightarrow> nat \<Rightarrow> u32 \<Rightarrow> service \<Rightarrow> service run" where
  "alarm_loop localtime wr evs 0 i st = Ok st"
| "alarm_loop localtime wr evs (Suc n) i st =
     run_bind (alarm_step localtime wr i st) (\<lambda>st1.
       run_bind (apply_events (evs i) st1) (alarm_loop localtime wr evs n (i + 1)))"

text \<open>One iteration of \<^verbatim>\<open>while (ServiceRun)\<close>; without a pending alarm it only sleeps.\<close>

definition service_iteration ::
    "(int \<Rightarrow> tm) \<Rightarrow> (nat \<Rightarrow> nat \<Rightarrow> int) \<Rightarrow> (u32 \<Rightarrow> event list) \<Rightarrow> service \<Rightarrow> service run" where
  "service_iteration localtime wr evs st =
     (let uiAlarmNum = HikDevGetAlarmNum (st_hik st)
      in if uiAlarmNum = 0 then Ok st
         else run_bind (alarm_loop localtime wr evs (unat uiAlarmNum) 0 st) (\<lambda>st1.
                Ok (st1\<lparr>st_hik := HikDevSetAlarmIdxOffset uiAlarmNum (st_hik st1)\<rparr>)))"

text \<open>
  The loop over a sequence of rounds: the events that arrive while the loop sleeps, the test of
  \<^verbatim>\<open>ServiceRun\<close>, and an iteration with the events that arrive in it. The result says whether the loop has
  ended.
\<close>

type_synonym round = "event list \<times> (u32 \<Rightarrow> event list)"

fun service_loop :: "(int \<Rightarrow> tm) \<Rightarrow> (nat \<Rightarrow> nat \<Rightarrow> int) \<Rightarrow> round list \<Rightarrow> service \<Rightarrow> (bool \<times> service) run" where
  "service_loop localtime wr [] st = Ok (False, st)"
| "service_loop localtime wr ((es, evs) # rounds) st =
     run_bind (apply_events es st) (\<lambda>st1.
       if \<not> ServiceRun st1 then Ok (True, st1)
       else run_bind (service_iteration localtime wr evs st1) (service_loop localtime wr rounds))"

text \<open>The end of \<^verbatim>\<open>main\<close>; the destructor of the port closes it a second time.\<close>

definition end_service :: "hik_sdk \<Rightarrow> service \<Rightarrow> service run" where
  "end_service sdk st =
     (let (p1, fds1) = Close (st_port st) (st_closed st);
          (r, cs) = DeinitialSDK sdk;
          (p2, fds2) = Close p1 fds1
      in Ok (st\<lparr>st_pid := None, st_port := p2, st_closed := fds2, st_sdk := st_sdk st @ cs\<rparr>))"

text \<open>
  The whole of \<^verbatim>\<open>main\<close>: its return value, or \<open>None\<close> when the rounds are over and it still runs.
\<close>

definition main :: "start_env \<Rightarrow> u32 \<Rightarrow> (int \<Rightarrow> tm) \<Rightarrow> (nat \<Rightarrow> nat \<Rightarrow> int) \<Rightarrow> round list \<Rightarrow> service \<Rightarrow>
    (int option \<times> service) run" where
  "main env port0 localtime wr rounds st0 =
     run_bind (start_service env port0 st0) (\<lambda>st.
       run_bind (service_loop localtime wr rounds st) (\<lambda>(ended, st1).
         if ended then run_bind (end_service (se_sdk env) st1) (\<lambda>st2. Ok (Some 0, st2))
         else Ok (None, st1)))"

section \<open>Sequences of runs\<close>

lemma run_bind_eq_Ok: "run_bind r f = Ok y \<longleftrightarrow> (\<exists>x. r = Ok x \<and> f x = Ok y)"
  by (cases r) simp_all

lemma run_bind_eq_Exit: "run_bind r f = Exit n \<longleftrightarrow> r = Exit n \<or> (\<exists>x. r = Ok x \<and> f x = Exit n)"
  by (cases r) simp_all

lemma of_option_eq [simp]: "of_option r = Ok x \<longleftrightarrow> r = Some x" "of_option r \<noteq> Exit n"
  by (cases r; simp)+

lemma of_res_Exit [simp]: "of_res r \<noteq> Exit n"
  by (simp add: of_res_def split: option.split sum.split)

section \<open>Invariants of the process\<close>

definition service_inv :: "service \<Rightarrow> bool" where
  "service_inv st \<longleftrightarrow> ring_inv (st_hik st) \<and> db_inv (st_db st)"

lemma service_inv_simps [simp]:
  "service_inv (log_line m st) = service_inv st" "service_inv (stop st) = service_inv st"
  "service_inv (print_line m st) = service_inv st"
  by (simp_all add: service_inv_def log_line_def stop_def print_line_def)

lemma camera_getters_inv:
  assumes "db_inv s"
  shows "GetCameraIp i x s = (ok, v, s') \<Longrightarrow> db_inv s'" "GetCameraPort i p s = (ok, q, s') \<Longrightarrow> db_inv s'"
    "GetCameraUserName i x s = (ok, v, s') \<Longrightarrow> db_inv s'" "GetCameraPasswd i x s = (ok, v, s') \<Longrightarrow> db_inv s'"
proof -
  have f: "\<not> length (CameraInfoFromDB s) \<le> i \<Longrightarrow> camera_field i key s = (v, s') \<Longrightarrow> db_inv s'" for key v s'
    by (rule camera_field_inv(1) [OF assms]) simp_all
  show "GetCameraIp i x s = (ok, v, s') \<Longrightarrow> db_inv s'" "GetCameraUserName i x s = (ok, v, s') \<Longrightarrow> db_inv s'"
    "GetCameraPasswd i x s = (ok, v, s') \<Longrightarrow> db_inv s'" "GetCameraPort i p s = (ok, q, s') \<Longrightarrow> db_inv s'"
    using assms f
    by (auto simp: GetCameraIp_def GetCameraPort_def GetCameraUserName_def GetCameraPasswd_def
        split: if_splits prod.splits)
qed

lemma HikDevStartAlarm_ring: "HikDevStartAlarm sdk u s = (ok, s', cs) \<Longrightarrow> ring_inv s \<Longrightarrow> ring_inv s'"
  by (auto simp: HikDevStartAlarm_def ring_inv_def Let_def split: prod.splits if_splits)

lemma camera_step_inv:
  assumes inv: "service_inv st" and run: "camera_step sdk p0 i st = Ok st'"
  shows "service_inv st'"
proof -
  have r: "ring_inv (st_hik st)" and d: "db_inv (st_db st)" using inv by (simp_all add: service_inv_def)
  obtain ok1 ip db1 where g1: "GetCameraIp i [] (st_db st) = (ok1, ip, db1)" by (metis prod_cases3)
  obtain ok2 port db2 where g2: "GetCameraPort i p0 db1 = (ok2, port, db2)" by (metis prod_cases3)
  obtain ok3 user db3 where g3: "GetCameraUserName i [] db2 = (ok3, user, db3)" by (metis prod_cases3)
  obtain ok4 pass db4 where g4: "GetCameraPasswd i [] db3 = (ok4, pass, db4)" by (metis prod_cases3)
  have d1: "db_inv db1" using camera_getters_inv(1) [OF d g1] .
  have d2: "db_inv db2" using camera_getters_inv(2) [OF d1 g2] .
  have d3: "db_inv db3" using camera_getters_inv(3) [OF d2 g3] .
  have d4: "db_inv db4" using camera_getters_inv(4) [OF d3 g4] .
  show ?thesis
    using run r d1 d2 d3 d4 unfolding camera_step_def g1 g2 g3 g4 prod.case Let_def
    by (auto simp: run_bind_eq_Ok service_inv_def log_line_def split: if_splits prod.splits dest: HikDevStartAlarm_ring)
qed

lemma camera_loop_inv: "service_inv st \<Longrightarrow> camera_loop sdk p0 n i st = Ok st' \<Longrightarrow> service_inv st'"
  by (induction n arbitrary: i st) (auto simp: run_bind_eq_Ok dest: camera_step_inv)

lemma start_database_inv:
  assumes "start_database env s = Ok s'" "st_db s = db_static"
  shows "st_hik s' = st_hik s \<and> db_inv (st_db s')"
proof -
  obtain ok c where "of_res (ParseCsvData (se_block env) (se_fopen env) (se_junk env)
      (Some ''/usr/local/mdalarm/DbCfg.csv'') CsvParse_new) = Ok (ok, c)"
    using assms(1) by (auto simp: start_database_def run_bind_eq_Ok)
  moreover obtain pok port where "StrToUint (GetDbPort c) = (pok, port)" by fastforce
  moreover define s2 where "s2 = (let st1 = s\<lparr>st_log := st_log s @ csv_log c, ServiceRun := ServiceRun s \<and> ok\<rparr>
      in if \<not> pok then stop (log_line ''get invalid port from DbCfg.csv'' st1) else st1)"
  ultimately have run: "run_bind (of_option (ConnectDataBase (se_mysql env) (Some (c_str (GetDbIp c))) port
       (Some (c_str (GetDbUserName c))) (Some (c_str (GetDbPasswd c)))
       (Some (c_str (GetDbName c))) (Some (c_str (GetDbTable c))) (st_db s2))) (\<lambda>(r, db).
         Ok (s2\<lparr>st_db := db, ServiceRun := ServiceRun s2 \<and> r\<rparr>)) = Ok s'"
    using assms(1) by (simp add: start_database_def Let_def)
  have s2: "st_db s2 = db_static" "st_hik s2 = st_hik s"
    using assms(2) by (simp_all add: s2_def Let_def stop_def log_line_def)
  obtain r db where c: "ConnectDataBase (se_mysql env) (Some (c_str (GetDbIp c))) port
       (Some (c_str (GetDbUserName c))) (Some (c_str (GetDbPasswd c)))
       (Some (c_str (GetDbName c))) (Some (c_str (GetDbTable c))) db_static = Some (r, db)"
    and s': "s' = s2\<lparr>st_db := db, ServiceRun := ServiceRun s2 \<and> r\<rparr>"
    using run unfolding s2(1) by (auto simp: run_bind_eq_Ok)
  then show ?thesis using s2(2) ConnectDataBase_db_inv [OF c] by simp
qed

lemma start_process_simps [simp]:
  "st_db (start_process env st0) = st_db st0" "st_hik (start_process env st0) = st_hik st0"
  by (simp_all add: start_process_def log_line_def print_line_def stop_def Let_def split: prod.split)

lemma start_port_simps [simp]:
  "st_db (start_port env st) = st_db st" "st_hik (start_port env st) = st_hik st"
  by (simp_all add: start_port_def Let_def split: prod.split)

lemma start_service_inv:
  assumes "st_db st0 = db_static" "ring_inv (st_hik st0)" "start_service env p0 st0 = Ok st"
  shows "service_inv st"
proof -
  obtain io cs where i: "InitialSDK (se_sdk env) = (io, cs)" by fastforce
  obtain st3 st5 where s3: "start_database env (start_process env st0) = Ok st3"
    and s5: "camera_loop (se_sdk env) p0 (GetCameraNum (st_db st3)) 0
       (st3\<lparr>st_sdk := st_sdk st3 @ cs, ServiceRun := ServiceRun st3 \<and> io\<rparr>) = Ok st5"
    and st: "st_hik st = st_hik st5" "st_db st = st_db st5"
    using assms(3) unfolding start_service_def i by (auto simp: run_bind_eq_Ok Let_def split: prod.splits)
  have "service_inv (st3\<lparr>st_sdk := st_sdk st3 @ cs, ServiceRun := ServiceRun st3 \<and> io\<rparr>)"
    using start_database_inv [OF s3] assms(1,2) by (simp add: service_inv_def)
  from camera_loop_inv [OF this s5] st show ?thesis by (simp add: service_inv_def)
qed

text \<open>
  A run that keeps the invariant and never leaves \<^verbatim>\<open>main\<close>; sequences of such runs are such runs.
\<close>

definition keeps :: "service run \<Rightarrow> bool" where
  "keeps r \<longleftrightarrow> (\<forall>n. r \<noteq> Exit n) \<and> (\<forall>st. r = Ok st \<longrightarrow> service_inv st)"

lemma keeps_simps [simp]: "keeps (Ok st) = service_inv st" "\<not> keeps (Exit n)" "keeps Abort" "keeps Undefined"
  by (simp_all add: keeps_def)

lemma keeps_bind: "keeps r \<Longrightarrow> (\<And>st. service_inv st \<Longrightarrow> keeps (f st)) \<Longrightarrow> keeps (run_bind r f)"
  by (cases r) simp_all

lemma keeps_of_option: "(\<And>x. r = Some x \<Longrightarrow> keeps (f x)) \<Longrightarrow> keeps (run_bind (of_option r) f)"
  by (cases r) simp_all

lemma send_alarm_keeps: "service_inv st \<Longrightarrow> keeps (send_alarm wr dt ip name p st)"
  by (auto simp: send_alarm_def print_line_def service_inv_def Let_def split: option.split prod.split)

lemma phone_loop_keeps: "service_inv st \<Longrightarrow> keeps (phone_loop wr dt ip name ps st)"
  by (induction ps arbitrary: st) (simp_all add: keeps_bind send_alarm_keeps)

lemma alarm_step_keeps:
  assumes inv: "service_inv st"
  shows "keeps (alarm_step localtime wr i st)"
  unfolding alarm_step_def
proof (intro keeps_of_option)
  fix d ip
  obtain ok name db1 where n: "GetCameraName ip [] (st_db st) = (ok, name, db1)" by (metis prod_cases3)
  obtain ok2 phones db2 where w: "GetCameraWarnPhone ip [] db1 = (ok2, phones, db2)" by (metis prod_cases3)
  have db: "db_inv (st_db st)" using inv by (simp add: service_inv_def)
  have d1: "service_inv (st\<lparr>st_db := db1\<rparr>)" using db.find_name_invar [OF db n] inv by (simp add: service_inv_def)
  have d2: "ok \<Longrightarrow> ok2 \<and> service_inv (st\<lparr>st_db := db2\<rparr>)"
    using db.lookup_never_fails [OF db] n w inv by (auto simp: service_inv_def)
  show "keeps (if ip = [] then Ok (log_line ''get alarm camera ip null'' st)
       else case GetCameraName ip [] (st_db st) of (ok, name, db1) \<Rightarrow>
         if \<not> ok then Ok (log_line ''get alarm camera name null'' (st\<lparr>st_db := db1\<rparr>))
         else case GetCameraWarnPhone ip [] db1 of (ok2, phones, db2) \<Rightarrow>
           if \<not> ok2 then Exit (-1)
           else phone_loop wr (date_time_text d) ip name phones (st\<lparr>st_db := db2\<rparr>))"
    using inv d1 d2 by (simp add: n w phone_loop_keeps)
qed

lemma apply_event_Ok:
  assumes "service_inv st"
  shows "\<exists>st'. apply_event e st = Ok st' \<and> service_inv st' \<and> st_out st' = st_out st \<and>
    (ServiceRun st' \<longleftrightarrow> ServiceRun st \<and> e \<noteq> Signal SIGTERM)"
proof (cases e)
  case (Alarm ev)
  then show ?thesis using deliver_inv [of "st_hik st" ev] assms by (auto simp: service_inv_def)
next
  case (Signal k)
  then show ?thesis using assms by (auto simp: ProcessQuit_def service_inv_def)
qed

lemma apply_events_Ok:
  "service_inv st \<Longrightarrow> \<exists>st'. apply_events es st = Ok st' \<and> service_inv st' \<and> st_out st' = st_out st \<and>
     (ServiceRun st' \<longleftrightarrow> ServiceRun st \<and> Signal SIGTERM \<notin> set es)"
proof (induction es arbitrary: st)
  case (Cons e es)
  obtain st1 where st1: "apply_event e st = Ok st1" "service_inv st1" "st_out st1 = st_out st"
    "ServiceRun st1 \<longleftrightarrow> ServiceRun st \<and> e \<noteq> Signal SIGTERM"
    using apply_event_Ok [OF Cons.prems] by blast
  then show ?case using Cons.IH [OF st1(2)] by auto
qed simp

lemma apply_events_keeps: "service_inv st \<Longrightarrow> keeps (apply_events es st)"
  using apply_events_Ok [of st es] by auto

lemma alarm_loop_keeps: "service_inv st \<Longrightarrow> keeps (alarm_loop localtime wr evs k i st)"
  by (induction k arbitrary: i st) (simp_all add: keeps_bind alarm_step_keeps apply_events_keeps)

lemma service_iteration_keeps:
  assumes inv: "service_inv st"
  shows "keeps (service_iteration localtime wr evs st)"
proof -
  let ?n = "HikDevGetAlarmNum (st_hik st)"
  have "unat ?n < 32" using inv unat_GetAlarmNum ring_len_less by (simp add: service_inv_def)
  then have "service_inv (st1\<lparr>st_hik := HikDevSetAlarmIdxOffset ?n (st_hik st1)\<rparr>)" if "service_inv st1" for st1
    using that SetAlarmIdxOffset_inv [of "st_hik st1" ?n] by (simp add: service_inv_def)
  then show ?thesis using inv by (simp add: service_iteration_def Let_def keeps_bind alarm_loop_keeps)
qed

lemma service_loop_no_exit: "service_inv st \<Longrightarrow> service_loop localtime wr rounds st \<noteq> Exit n"
proof (induction rounds arbitrary: st)
  case (Cons r rounds)
  obtain es evs where r: "r = (es, evs)" by fastforce
  obtain st1 where st1: "apply_events es st = Ok st1" "service_inv st1" using apply_events_Ok [OF Cons.prems] by blast
  then show ?case
    using service_iteration_keeps [OF st1(2), of localtime wr evs] Cons.IH
    by (auto simp: r keeps_def run_bind_eq_Exit)
qed simp

lemma service_loop_inv: "service_inv st \<Longrightarrow> service_loop localtime wr rounds st = Ok (b, st') \<Longrightarrow> service_inv st'"
proof (induction rounds arbitrary: st)
  case (Cons r rounds)
  obtain es evs where r: "r = (es, evs)" by fastforce
  obtain st1 where st1: "apply_events es st = Ok st1" "service_inv st1" using apply_events_Ok [OF Cons.prems(1)] by blast
  show ?case
    using Cons.prems(2) Cons.IH st1 service_iteration_keeps [OF st1(2), of localtime wr evs]
    by (auto simp: r keeps_def run_bind_eq_Ok split: if_splits)
qed simp

lemma camera_step_no_exit: "camera_step sdk p0 i st \<noteq> Exit n"
  by (auto simp: camera_step_def run_bind_eq_Exit Let_def split: prod.split)

lemma start_service_no_exit: "start_service env p0 st0 \<noteq> Exit n"
proof -
  have "camera_loop sdk p0 k i st \<noteq> Exit n" for sdk k i st
    by (induction k arbitrary: i st) (simp_all add: run_bind_eq_Exit camera_step_no_exit)
  moreover have "start_database env st \<noteq> Exit n" for st
    by (auto simp: start_database_def run_bind_eq_Exit Let_def split: prod.split)
  ultimately show ?thesis
    by (auto simp: start_service_def run_bind_eq_Exit Let_def split: prod.split)
qed

text \<open>Once the flag is cleared before a test, nothing that follows matters.\<close>

lemma service_loop_stop:
  assumes "service_inv st" "Signal SIGTERM \<in> set es"
  shows "service_loop localtime wr (pre @ (es, evs) # post) st = service_loop localtime wr (pre @ [(es, evs')]) st \<and>
    (\<forall>st'. service_loop localtime wr (pre @ [(es, evs')]) st \<noteq> Ok (False, st'))"
  using assms(1)
proof (induction pre arbitrary: st)
  case Nil
  obtain st1 where "apply_events es st = Ok st1" "\<not> ServiceRun st1"
    using apply_events_Ok [OF Nil.prems, of es] assms(2) by blast
  then show ?case by simp
next
  case (Cons r pre)
  obtain es1 evs1 where r: "r = (es1, evs1)" by fastforce
  obtain st1 where st1: "apply_events es1 st = Ok st1" "service_inv st1" using apply_events_Ok [OF Cons.prems] by blast
  then show ?case
    using service_iteration_keeps [OF st1(2), of localtime wr evs1] Cons.IH
    by (cases "service_iteration localtime wr evs1 st1") (auto simp: r)
qed

lemma main_keeps:
  assumes "st_db st0 = db_static" "st_hik st0 = hik_static"
  shows "main env p0 localtime wr rounds st0 \<noteq> Exit n"
    "main env p0 localtime wr rounds st0 = Ok (r, st') \<Longrightarrow> service_inv st'"
proof -
  have ring: "ring_inv (st_hik st0)" using assms(2) by simp
  note start = start_service_inv [OF assms(1) ring]
  show "main env p0 localtime wr rounds st0 \<noteq> Exit n"
    using start service_loop_no_exit start_service_no_exit
    by (auto simp: main_def run_bind_eq_Exit end_service_def Let_def split: prod.splits)
  show "service_inv st'" if run: "main env p0 localtime wr rounds st0 = Ok (r, st')"
  proof -
    obtain st b st1 where st: "start_service env p0 st0 = Ok st" "service_loop localtime wr rounds st = Ok (b, st1)"
      and fin: "(if b then run_bind (end_service (se_sdk env) st1) (\<lambda>st2. Ok (Some 0, st2)) else Ok (None, st1)) = Ok (r, st')"
      using run by (auto simp: main_def run_bind_eq_Ok)
    have "service_inv st1" using service_loop_inv [OF start [OF st(1)] st(2)] .
    then show ?thesis
      using fin by (auto simp: end_service_def Close_def DeinitialSDK_def service_inv_def split: if_splits)
  qed
qed

lemma main_stops:
  assumes "st_db st0 = db_static" "st_hik st0 = hik_static" "Signal SIGTERM \<in> set es"
    and m: "m = main env p0 localtime wr (pre @ (es, evs) # post) st0"
  shows "m = main env p0 localtime wr (pre @ [(es, evs')]) st0 \<and>
    (m \<in> {Abort, Undefined} \<or>
     (\<exists>st' calls closed. m = Ok (Some 0, st') \<and> st_pid st' = None \<and> st_sdk st' = calls @ [CallCleanup] \<and>
        st_closed st' = closed @ [fd (st_port st'), fd (st_port st')]))"
proof (cases "start_service env p0 st0")
  case (Ok st)
  have inv: "service_inv st" using start_service_inv [OF assms(1) _ Ok] assms(2) by simp
  note stop = service_loop_stop [OF inv assms(3), of localtime wr pre evs post evs']
  show ?thesis
    using stop Ok service_loop_no_exit [OF inv, of localtime wr "pre @ [(es, evs')]"]
    by (cases "service_loop localtime wr (pre @ [(es, evs')]) st")
      (auto simp: m main_def end_service_def Close_def DeinitialSDK_def)
next
  case (Exit n)
  then show ?thesis using start_service_no_exit by blast
qed (simp_all add: m main_def)

end
