(* ===== verification/Service_Sending.thy ===== *)
theory Service_Sending
  imports Service_Main
begin

text \<open>
  What the service sends: the messages an alarm calls for, as a list of jobs computed from the camera table,
  and the proof that the alarm loop of \<^verbatim>\<open>src/src/main.cpp\<close> carries out exactly the jobs of the pending alarms,
  in order, on the standard output and on the modem, while alarms and signals arrive.

  \<open>sends wr jobs Q st r\<close> is a small Hoare triple: the run \<open>r\<close> from \<open>st\<close> carries out the jobs and ends in a state
  with \<open>Q\<close>, or, when a job cannot be carried out, ends the process. The specifications of the loops are
  composed with its rule for sequences.
\<close>

section \<open>The camera table as a directory\<close>

text \<open>The name of the first camera of each address, as \<^verbatim>\<open>GetCameraName\<close> sees the table.\<close>

definition camera_entry :: "camera_info \<Rightarrow> string \<times> string" where
  "camera_entry cam = (the (map_of cam CameraIp), case map_of cam CameraName of None \<Rightarrow> [] | Some n \<Rightarrow> n)"

definition directory :: "db_state \<Rightarrow> (string \<times> string) list" where
  "directory s = map camera_entry (CameraInfoFromDB s)"

lemma CameraName_field:
  assumes "db_inv s" "i < length (CameraInfoFromDB s)" "camera_field i CameraName s = (v, s')"
  shows "v = snd (directory s ! i)" "directory s' = directory s"
proof -
  let ?cam = "CameraInfoFromDB s ! i"
  have wf: "omap_wf ?cam" using db_inv_nth(1) [OF assms(1,2)] .
  have neq: "CameraName \<noteq> CameraIp" by (simp add: column_names)
  obtain c where c: "omap_index CameraName [] ?cam = (v, c)"
    and s': "s' = s\<lparr>CameraInfoFromDB := (CameraInfoFromDB s)[i := c]\<rparr>"
    using assms(3) by (auto simp: camera_field_def split: prod.splits)
  have v: "v = (case map_of ?cam CameraName of None \<Rightarrow> [] | Some n \<Rightarrow> n)"
    using c by (auto simp: omap_index_def split: option.splits)
  note p = omap_index_props [OF wf c]
  have "camera_entry c = camera_entry ?cam"
    using p(2) p(3) [of CameraIp] neq v by (simp add: camera_entry_def)
  then show "directory s' = directory s"
    using assms(2) by (simp add: directory_def s' map_update list_update_same_conv)
  show "v = snd (directory s ! i)" using v assms(2) by (simp add: directory_def camera_entry_def)
qed

lemma GetCameraName_loop_directory:
  "db_inv s \<Longrightarrow> i + n = length (CameraInfoFromDB s) \<Longrightarrow> GetCameraName_loop n i ip nm s = (ok, v, s') \<Longrightarrow>
   directory s' = directory s \<and>
   (case map_of (drop i (directory s)) ip of None \<Rightarrow> \<not> ok | Some x \<Rightarrow> ok \<and> v = x)"
proof (induction n arbitrary: i)
  case (Suc n)
  let ?cam = "CameraInfoFromDB s ! i"
  have i: "i < length (CameraInfoFromDB s)" using Suc.prems(2) by simp
  then obtain ip' where ip': "map_of ?cam CameraIp = Some ip'" using db_inv_nth [OF Suc.prems(1)] by blast
  note f = camera_field_get [OF i ip']
  have d: "drop i (directory s) = (ip', snd (directory s ! i)) # drop (Suc i) (directory s)"
    using i ip' by (simp add: directory_def camera_entry_def drop_map Cons_nth_drop_Suc [symmetric])
  show ?case
  proof (cases "ip' = ip")
    case True
    obtain w s2 where c: "camera_field i CameraName s = (w, s2)" by fastforce
    then have "ok" "v = w" "s' = s2" using Suc.prems(3) f True by simp_all
    then show ?thesis using CameraName_field [OF Suc.prems(1) i c] True d by simp
  next
    case False
    then show ?thesis using Suc.IH [of "Suc i"] Suc.prems f d by simp
  qed
qed (simp add: directory_def)

lemma GetCameraName_directory:
  assumes "db_inv s" "GetCameraName ip nm s = (ok, v, s')"
  shows "directory s' = directory s" "case map_of (directory s) ip of None \<Rightarrow> \<not> ok | Some x \<Rightarrow> ok \<and> v = x"
  using GetCameraName_loop_directory [of s 0 "length (CameraInfoFromDB s)" ip nm ok v s'] assms
  by (auto simp: GetCameraName_def)

section \<open>What an iteration sends\<close>

text \<open>The messages an alarm calls for: its time, address, camera name and one number each.\<close>

type_synonym job = "string \<times> string \<times> string \<times> string"

definition alarm_ip :: "alarm \<Rightarrow> string option" where
  "alarm_ip a = (if byDeviceIPValid (fst a) \<noteq> 0 then cstr (sDeviceIP (fst a)) else Some [])"

definition alarm_date :: "(int \<Rightarrow> tm) \<Rightarrow> alarm \<Rightarrow> string" where
  "alarm_date localtime a =
     (let t = localtime (snd (snd a)) in
      date_time_text \<lparr>uiYear = word_of_int (tm_year t) + 1900, uiMonth = word_of_int (tm_mon t) + 1,
        uiDay = word_of_int (tm_mday t), uiHour = word_of_int (tm_hour t), uiMinute = word_of_int (tm_min t),
        uiSecond = word_of_int (tm_sec t)\<rparr>)"

definition alarm_jobs :: "(int \<Rightarrow> tm) \<Rightarrow> db_state \<Rightarrow> alarm \<Rightarrow> job list" where
  "alarm_jobs localtime db a =
     (case alarm_ip a of
        None \<Rightarrow> []
      | Some ip \<Rightarrow>
          if ip = [] then []
          else case (map_of (directory db) ip, map_of (IpWarnToPhoneFromDB db) ip) of
                 (Some name, Some phones) \<Rightarrow> map (\<lambda>p. (alarm_date localtime a, ip, name, p)) phones
               | _ \<Rightarrow> [])"

definition job_message :: "job \<Rightarrow> string option" where
  "job_message j = (case j of (dt, ip, name, p) \<Rightarrow> PackMsgToAlarm dt ip name p)"

definition sendable :: "job \<Rightarrow> bool" where
  "sendable j \<longleftrightarrow> (case job_message j of None \<Rightarrow> False | Some m \<Rightarrow> length m \<le> 512)"

definition job_lines :: "job \<Rightarrow> string list" where
  "job_lines j = (case j of (dt, ip, name, p) \<Rightarrow>
     let m = the (job_message j) in [m @ '' size = '' @ dec (length m), ip @ '' alarm to '' @ p])"

text \<open>What a job does to the bytes the modem has not sent: a write of no bytes fails and discards them.\<close>

definition send_effect :: "u8 list \<Rightarrow> job \<Rightarrow> u8 list" where
  "send_effect q j = (let m = the (job_message j) in if m = [] then [] else q @ map byte_of m)"

definition modem_queue :: "service \<Rightarrow> u8 list" where
  "modem_queue st = tx_queue (st_dev st (st_dev_name st))"

text \<open>The port is open and every \<^verbatim>\<open>write\<close> accepts the whole buffer.\<close>

definition online :: "(nat \<Rightarrow> nat \<Rightarrow> int) \<Rightarrow> service \<Rightarrow> bool" where
  "online wr st \<longleftrightarrow> isnormal (st_port st) \<noteq> UART_FALSE \<and> (\<forall>k n. wr k n = int n)"

section \<open>Runs that carry out jobs\<close>

text \<open>The parts of the state that neither sending nor an event touches.\<close>

definition same_setup :: "service \<Rightarrow> service \<Rightarrow> bool" where
  "same_setup st st' \<longleftrightarrow> directory (st_db st') = directory (st_db st) \<and>
     IpWarnToPhoneFromDB (st_db st') = IpWarnToPhoneFromDB (st_db st) \<and> st_port st' = st_port st \<and>
     st_dev_name st' = st_dev_name st \<and> (db_inv (st_db st) \<longrightarrow> db_inv (st_db st'))"

lemma same_setup_refl [simp]: "same_setup st st"
  by (simp add: same_setup_def)

lemma same_setup_trans: "same_setup a b \<Longrightarrow> same_setup b c \<Longrightarrow> same_setup a c"
  by (simp add: same_setup_def)

lemma alarm_jobs_same: "same_setup st st' \<Longrightarrow> alarm_jobs localtime (st_db st') = alarm_jobs localtime (st_db st)"
  by (intro ext) (simp only: alarm_jobs_def same_setup_def)

lemma online_same: "same_setup st st' \<Longrightarrow> online wr st' = online wr st"
  by (simp add: online_def same_setup_def)

definition sends :: "(nat \<Rightarrow> nat \<Rightarrow> int) \<Rightarrow> job list \<Rightarrow> (service \<Rightarrow> bool) \<Rightarrow> service \<Rightarrow> service run \<Rightarrow> bool" where
  "sends wr jobs Q st r \<longleftrightarrow>
     (if list_all sendable jobs
      then \<exists>st'. r = Ok st' \<and> Q st' \<and> same_setup st st' \<and> st_out st' = st_out st @ concat (map job_lines jobs) \<and>
        (online wr st \<longrightarrow> modem_queue st' = foldl send_effect (modem_queue st) jobs)
      else r \<in> {Abort, Undefined})"

lemma sends_Ok:
  "list_all sendable jobs \<Longrightarrow> sends wr jobs Q st r \<longleftrightarrow>
   (\<exists>st'. r = Ok st' \<and> Q st' \<and> same_setup st st' \<and> st_out st' = st_out st @ concat (map job_lines jobs) \<and>
        (online wr st \<longrightarrow> modem_queue st' = foldl send_effect (modem_queue st) jobs))"
  by (simp add: sends_def)

lemma sends_bad: "\<not> (list_all sendable jobs) \<Longrightarrow> sends wr jobs Q st r \<longleftrightarrow> r \<in> {Abort, Undefined}"
  by (simp add: sends_def)

lemma sends_bind:
  assumes r: "sends wr js Q st r"
    and f: "\<And>st1. Q st1 \<Longrightarrow> same_setup st st1 \<Longrightarrow> sends wr js' R st1 (f st1)"
  shows "sends wr (js @ js') R st (run_bind r f)"
proof (cases "list_all sendable js")
  case True
  then obtain st1 where st1: "r = Ok st1" "Q st1" "same_setup st st1" "st_out st1 = st_out st @ concat (map job_lines js)"
    "online wr st \<longrightarrow> modem_queue st1 = foldl send_effect (modem_queue st) js"
    using r by (auto simp: sends_Ok)
  note f1 = f [OF st1(2,3)]
  show ?thesis
  proof (cases "list_all sendable js'")
    case ok: True
    then show ?thesis
      using True f1 st1 same_setup_trans [OF st1(3)] online_same [OF st1(3)] by (auto simp: sends_Ok)
  next
    case bad: False
    then show ?thesis using f1 st1(1) by (simp add: sends_bad)
  qed
next
  case False
  then show ?thesis using r by (auto simp: sends_bad)
qed

lemma sends_weaken: "sends wr js Q st r \<Longrightarrow> (\<And>st'. Q st' \<Longrightarrow> R st') \<Longrightarrow> sends wr js R st r"
  by (auto simp: sends_def split: if_splits)

lemma sends_nothing:
  "Q st' \<Longrightarrow> same_setup st st' \<Longrightarrow> st_out st' = st_out st \<Longrightarrow> modem_queue st' = modem_queue st \<Longrightarrow>
   sends wr [] Q st (Ok st')"
  by (simp add: sends_def)

section \<open>The alarm loop\<close>

text \<open>Sending touches neither the ring nor the flag.\<close>

abbreviation calm :: "service \<Rightarrow> service \<Rightarrow> bool" where
  "calm st st' \<equiv> st_hik st' = st_hik st \<and> ServiceRun st' = ServiceRun st"

lemma send_alarm_sends: "sends wr [(dt, ip, name, p)] (calm st) st (send_alarm wr dt ip name p st)"
proof (cases "PackMsgToAlarm dt ip name p")
  case None
  then show ?thesis by (simp add: sends_def send_alarm_def sendable_def job_message_def)
next
  case (Some m)
  have w: "writeBuffer (int (length m)) (map byte_of m) q d = (UART_TRUE, d\<lparr>tx_queue := tx_queue d @ map byte_of m\<rparr>)"
    if "m \<noteq> []" "isnormal q \<noteq> UART_FALSE" for q d
    using that by (simp add: writeBuffer_def)
  have w0: "writeBuffer 0 [] q d = (UART_FALSE, d\<lparr>tx_queue := []\<rparr>)" if "isnormal q \<noteq> UART_FALSE" for q d
    using that by (simp add: writeBuffer_def)
  from Some show ?thesis
    by (auto simp: sends_def send_alarm_def sendable_def job_message_def job_lines_def print_line_def same_setup_def
        online_def modem_queue_def send_effect_def w w0 Let_def split: prod.split)
qed

lemma phone_loop_sends:
  "sends wr (map (\<lambda>p. (dt, ip, name, p)) ps) (calm st) st (phone_loop wr dt ip name ps st)"
proof (induction ps arbitrary: st)
  case Nil
  show ?case by (simp add: sends_nothing)
next
  case (Cons p ps)
  have "sends wr ([(dt, ip, name, p)] @ map (\<lambda>p. (dt, ip, name, p)) ps) (calm st) st
      (run_bind (send_alarm wr dt ip name p st) (phone_loop wr dt ip name ps))"
    by (rule sends_bind [OF send_alarm_sends]) (auto intro: sends_weaken [OF Cons.IH])
  then show ?case by simp
qed

lemma alarm_step_sends:
  assumes ring: "ring_inv (st_hik st)" "unat i < ring_len (st_hik st)" and db: "db_inv (st_db st)"
  defines "a \<equiv> ring_contents (st_hik st) ! unat i"
  assumes ip: "alarm_ip a \<noteq> None"
  shows "sends wr (alarm_jobs localtime (st_db st) a) (calm st) st (alarm_step localtime wr i st)"
proof -
  obtain e where e: "alarm_slot i (st_hik st) = Some e" "alarm_view e = a"
    using alarm_slot_pending [OF ring] unfolding a_def by blast
  have av: "a = (struAlarmDevInfo e, byChannel e, AlarmTime e)" using e(2) by (simp add: alarm_view_def)
  obtain d where d: "HikDevGetAlarmDateTime localtime i (st_hik st) = Some d" "date_time_text d = alarm_date localtime a"
    using e(1) by (simp add: HikDevGetAlarmDateTime_def alarm_date_def av Let_def)
  obtain addr where addr: "alarm_ip a = Some addr" using ip by blast
  then have g: "HikDevGetAlarmIp i [] (st_hik st) = Some addr"
    using e(1) by (auto simp: HikDevGetAlarmIp_def alarm_ip_def av Let_def)
  obtain ok name db1 where n: "GetCameraName addr [] (st_db st) = (ok, name, db1)" by (metis prod_cases3)
  note n1 = GetCameraName_directory [OF db n] and n2 = GetCameraName_spec [OF db n]
  have kept: "same_setup st (st\<lparr>st_db := db1\<rparr>)" using n1(1) n2(1,2) by (simp add: same_setup_def)
  have quiet: "sends wr [] (calm st) st (Ok (log_line m st))" "sends wr [] (calm st) st (Ok (log_line m (st\<lparr>st_db := db1\<rparr>)))"
    for m using kept by (intro sends_nothing; simp add: same_setup_def log_line_def modem_queue_def)+
  consider (no_addr) "addr = []" | (unknown) "addr \<noteq> []" "\<not> ok" | (known) "addr \<noteq> []" "ok" by blast
  then show ?thesis
  proof cases
    case no_addr
    then show ?thesis using d(1) g addr quiet(1) by (simp add: alarm_step_def alarm_jobs_def)
  next
    case unknown
    then have "map_of (directory (st_db st)) addr = None" using n1(2) by (auto split: option.splits)
    then show ?thesis using unknown d(1) g addr n quiet(2) by (simp add: alarm_step_def alarm_jobs_def)
  next
    case known
    then have nm: "map_of (directory (st_db st)) addr = Some name" using n1(2) by (auto split: option.splits)
    obtain phones where ph: "map_of (IpWarnToPhoneFromDB (st_db st)) addr = Some phones" using n2(4) known by blast
    then have w: "GetCameraWarnPhone addr [] db1 = (True, phones, db1)" using n2(2) by (simp add: GetCameraWarnPhone_spec)
    have "sends wr ([] @ alarm_jobs localtime (st_db st) a) (calm st) st
        (run_bind (Ok (st\<lparr>st_db := db1\<rparr>)) (phone_loop wr (alarm_date localtime a) addr name phones))"
      using known(1) addr nm ph kept phone_loop_sends [of wr "alarm_date localtime a" addr name phones "st\<lparr>st_db := db1\<rparr>"]
      by (intro sends_bind [where Q = "\<lambda>s. s = st\<lparr>st_db := db1\<rparr>"] sends_nothing)
        (auto simp: alarm_jobs_def modem_queue_def intro: sends_weaken)
    then show ?thesis using known d g n w by (simp add: alarm_step_def)
  qed
qed

section \<open>Alarms that arrive meanwhile\<close>

fun event_alarms :: "event \<Rightarrow> alarm list" where
  "event_alarms (Alarm ev) = recorded ev"
| "event_alarms (Signal n) = []"

definition arrivals :: "event list \<Rightarrow> alarm list" where
  "arrivals es = concat (map event_alarms es)"

text \<open>The ring holds exactly these alarms, and the flag is as after these events.\<close>

definition ring_holds :: "alarm list \<Rightarrow> service \<Rightarrow> bool" where
  "ring_holds as st \<longleftrightarrow> ring_inv (st_hik st) \<and> ring_contents (st_hik st) = as \<and> db_inv (st_db st)"

lemma ring_holds_len: "ring_holds as st \<Longrightarrow> ring_len (st_hik st) = length as"
  by (auto simp: ring_holds_def simp flip: length_ring_contents)

lemma apply_event_sends:
  assumes "ring_holds as st" "length as + length (event_alarms e) \<le> 31"
  shows "sends wr [] (\<lambda>st'. ring_holds (as @ event_alarms e) st' \<and>
      (ServiceRun st' \<longleftrightarrow> ServiceRun st \<and> e \<noteq> Signal SIGTERM)) st (apply_event e st)"
proof (cases e)
  case (Alarm ev)
  have r: "ring_inv (st_hik st)" "ring_contents (st_hik st) = as" using assms(1) by (simp_all add: ring_holds_def)
  obtain h where h: "deliver ev (st_hik st) = Some h" "ring_inv h" using deliver_inv [OF r(1)] by blast
  then have "ring_contents h = as @ recorded ev" using deliver_contents [OF r(1) _ h(1)] r(2) assms(2) Alarm by simp
  then show ?thesis
    using h assms(1) Alarm by (auto simp: ring_holds_def same_setup_def modem_queue_def intro!: sends_nothing)
next
  case (Signal n)
  then show ?thesis
    using assms(1) by (auto simp: ring_holds_def ProcessQuit_def same_setup_def modem_queue_def intro!: sends_nothing)
qed

lemma apply_events_sends:
  "ring_holds as st \<Longrightarrow> length as + length (arrivals es) \<le> 31 \<Longrightarrow>
   sends wr [] (\<lambda>st'. ring_holds (as @ arrivals es) st' \<and>
      (ServiceRun st' \<longleftrightarrow> ServiceRun st \<and> Signal SIGTERM \<notin> set es)) st (apply_events es st)"
proof (induction es arbitrary: as st)
  case Nil
  then show ?case by (simp add: arrivals_def sends_nothing)
next
  case (Cons e es)
  have e: "length as + length (event_alarms e) \<le> 31" "length (as @ event_alarms e) + length (arrivals es) \<le> 31"
    using Cons.prems(2) by (simp_all add: arrivals_def)
  have "sends wr ([] @ []) (\<lambda>st'. ring_holds (as @ arrivals (e # es)) st' \<and>
      (ServiceRun st' \<longleftrightarrow> ServiceRun st \<and> Signal SIGTERM \<notin> set (e # es))) st (run_bind (apply_event e st) (apply_events es))"
  proof (rule sends_bind [OF apply_event_sends [OF Cons.prems(1) e(1)]], elim conjE)
    fix st1 assume st1: "ring_holds (as @ event_alarms e) st1" "ServiceRun st1 = (ServiceRun st \<and> e \<noteq> Signal SIGTERM)"
    show "sends wr [] (\<lambda>st'. ring_holds (as @ arrivals (e # es)) st' \<and>
        (ServiceRun st' \<longleftrightarrow> ServiceRun st \<and> Signal SIGTERM \<notin> set (e # es))) st1 (apply_events es st1)"
      by (rule sends_weaken [OF Cons.IH [OF st1(1) e(2)]]) (use st1(2) in \<open>auto simp: arrivals_def\<close>)
  qed
  then show ?case by simp
qed

text \<open>The events of a part of a batch, and the alarms that arrive in it.\<close>

fun batch_events :: "(u32 \<Rightarrow> event list) \<Rightarrow> nat \<Rightarrow> u32 \<Rightarrow> event list" where
  "batch_events evs 0 i = []"
| "batch_events evs (Suc n) i = evs i @ batch_events evs n (i + 1)"

lemma arrivals_append [simp]: "arrivals (es @ es') = arrivals es @ arrivals es'" "arrivals [] = []"
  by (simp_all add: arrivals_def)

lemma alarm_loop_sends:
  assumes "ring_holds as st" "unat i + n \<le> length as" "length as + length (arrivals (batch_events evs n i)) \<le> 31"
    and "\<forall>a\<in>set (take n (drop (unat i) as)). alarm_ip a \<noteq> None"
  shows "sends wr (concat (map (alarm_jobs localtime (st_db st)) (take n (drop (unat i) as))))
    (\<lambda>st'. ring_holds (as @ arrivals (batch_events evs n i)) st' \<and>
       (ServiceRun st' \<longleftrightarrow> ServiceRun st \<and> Signal SIGTERM \<notin> set (batch_events evs n i))) st
    (alarm_loop localtime wr evs n i st)"
  using assms
proof (induction n arbitrary: as i st)
  case 0
  then show ?case by (simp add: sends_nothing)
next
  case (Suc n)
  let ?as1 = "as @ arrivals (evs i)" and ?es = "batch_events evs (Suc n) i"
  let ?Q = "\<lambda>st'. ring_holds (as @ arrivals ?es) st' \<and> (ServiceRun st' \<longleftrightarrow> ServiceRun st \<and> Signal SIGTERM \<notin> set ?es)"
  have i: "unat i < length as" and i1: "unat (i + 1) = unat i + 1"
    using Suc.prems(2,3) unat_add_small [of i 1] by simp_all
  have d: "drop (unat i) as = as ! unat i # drop (unat i + 1) as" using i Cons_nth_drop_Suc [of "unat i" as] by simp
  have later: "take n (drop (unat (i + 1)) ?as1) = take n (drop (unat i + 1) as)" using Suc.prems(2) i1 by simp
  have len: "length as + length (arrivals (evs i)) \<le> 31" "unat (i + 1) + n \<le> length ?as1"
      "length ?as1 + length (arrivals (batch_events evs n (i + 1))) \<le> 31"
    using Suc.prems(2,3) i1 by simp_all
  have as: "ring_inv (st_hik st)" "ring_contents (st_hik st) = as" "db_inv (st_db st)"
    using Suc.prems(1) by (simp_all add: ring_holds_def)
  have ip: "alarm_ip (as ! unat i) \<noteq> None" "\<forall>a\<in>set (take n (drop (unat i + 1) as)). alarm_ip a \<noteq> None"
    using Suc.prems(4) by (simp_all add: d)
  have step: "sends wr (alarm_jobs localtime (st_db st) (as ! unat i)) (calm st) st (alarm_step localtime wr i st)"
    using alarm_step_sends [of st i wr localtime] as i ip(1) ring_holds_len [OF Suc.prems(1)] by simp
  have rest: "sends wr (concat (map (alarm_jobs localtime (st_db st)) (take n (drop (unat i + 1) as)))) ?Q st2
      (alarm_loop localtime wr evs n (i + 1) st2)"
    if "ring_holds ?as1 st2" "ServiceRun st2 \<longleftrightarrow> ServiceRun st \<and> Signal SIGTERM \<notin> set (evs i)" "same_setup st st2" for st2
    by (rule sends_weaken [OF Suc.IH [OF that(1) len(2,3), unfolded later alarm_jobs_same [OF that(3)], OF ip(2)]])
      (use that(2) in auto)
  have "sends wr (alarm_jobs localtime (st_db st) (as ! unat i) @
        ([] @ concat (map (alarm_jobs localtime (st_db st)) (take n (drop (unat i + 1) as))))) ?Q st
      (run_bind (alarm_step localtime wr i st) (\<lambda>st1. run_bind (apply_events (evs i) st1) (alarm_loop localtime wr evs n (i + 1))))"
  proof (rule sends_bind [OF step], rule sends_bind, rule apply_events_sends [OF _ len(1)])
    fix st1 assume st1: "calm st st1" "same_setup st st1"
    then show "ring_holds as st1" using Suc.prems(1) by (simp add: ring_holds_def same_setup_def)
    fix st2 assume "ring_holds ?as1 st2 \<and> (ServiceRun st2 = (ServiceRun st1 \<and> Signal SIGTERM \<notin> set (evs i)))" "same_setup st1 st2"
    then show "sends wr (concat (map (alarm_jobs localtime (st_db st)) (take n (drop (unat i + 1) as)))) ?Q st2
        (alarm_loop localtime wr evs n (i + 1) st2)"
      using st1 same_setup_trans by (intro rest) auto
  qed
  then show ?case by (simp add: d)
qed

text \<open>One iteration: the batch is carried out, and what arrived meanwhile is pending.\<close>

lemma service_iteration_sends:
  assumes h: "ring_holds as st" and room: "length as + length (arrivals (batch_events evs (length as) 0)) \<le> 31"
    and ips: "\<forall>a\<in>set as. alarm_ip a \<noteq> None"
  shows "sends wr (concat (map (alarm_jobs localtime (st_db st)) as))
    (\<lambda>st'. ring_holds (arrivals (batch_events evs (length as) 0)) st' \<and>
       (ServiceRun st' \<longleftrightarrow> ServiceRun st \<and> Signal SIGTERM \<notin> set (batch_events evs (length as) 0))) st
    (service_iteration localtime wr evs st)"
proof -
  let ?n = "HikDevGetAlarmNum (st_hik st)" and ?es = "batch_events evs (length as) 0"
  have ring: "ring_inv (st_hik st)" "ring_contents (st_hik st) = as" using h by (simp_all add: ring_holds_def)
  then have n: "unat ?n = length as" using unat_GetAlarmNum ring_holds_len [OF h] by simp
  show ?thesis
  proof (cases "?n = 0")
    case True
    then have "as = []" using n by simp
    then show ?thesis using True h by (simp add: service_iteration_def sends_nothing)
  next
    case False
    have "sends wr (concat (map (alarm_jobs localtime (st_db st)) (take (length as) (drop (unat (0 :: u32)) as))) @ [])
      (\<lambda>st'. ring_holds (arrivals ?es) st' \<and> (ServiceRun st' \<longleftrightarrow> ServiceRun st \<and> Signal SIGTERM \<notin> set ?es)) st
      (run_bind (alarm_loop localtime wr evs (length as) 0 st)
        (\<lambda>st1. Ok (st1\<lparr>st_hik := HikDevSetAlarmIdxOffset ?n (st_hik st1)\<rparr>)))"
    proof (rule sends_bind [OF alarm_loop_sends [OF h _ room]])
      fix st1 assume "ring_holds (as @ arrivals ?es) st1 \<and> (ServiceRun st1 \<longleftrightarrow> ServiceRun st \<and> Signal SIGTERM \<notin> set ?es)"
      then show "sends wr [] (\<lambda>st'. ring_holds (arrivals ?es) st' \<and> (ServiceRun st' \<longleftrightarrow> ServiceRun st \<and> Signal SIGTERM \<notin> set ?es)) st1
          (Ok (st1\<lparr>st_hik := HikDevSetAlarmIdxOffset ?n (st_hik st1)\<rparr>))"
        using n ring.advance_invar [of "st_hik st1" ?n] ring.advance_contents [of "st_hik st1" ?n]
        by (intro sends_nothing) (auto simp: ring_holds_def same_setup_def modem_queue_def)
    qed (use ips in auto)
    then show ?thesis using False n by (simp add: service_iteration_def)
  qed
qed

section \<open>The whole loop\<close>

text \<open>
  The history of a sequence of rounds that starts with the alarms \<open>p\<close> pending: the events in the order in
  which they take place, the alarms handled, those pending at the end, and that no more than 31 are ever
  pending.
\<close>

fun all_events :: "alarm list \<Rightarrow> round list \<Rightarrow> event list" where
  "all_events p [] = []"
| "all_events p ((es, evs) # rounds) =
     (let bs = batch_events evs (length (p @ arrivals es)) 0 in es @ bs @ all_events (arrivals bs) rounds)"

fun handled_alarms :: "alarm list \<Rightarrow> round list \<Rightarrow> alarm list" where
  "handled_alarms p [] = []"
| "handled_alarms p ((es, evs) # rounds) =
     (let q = p @ arrivals es in q @ handled_alarms (arrivals (batch_events evs (length q) 0)) rounds)"

fun pending_after :: "alarm list \<Rightarrow> round list \<Rightarrow> alarm list" where
  "pending_after p [] = p"
| "pending_after p ((es, evs) # rounds) =
     pending_after (arrivals (batch_events evs (length (p @ arrivals es)) 0)) rounds"

fun rounds_fit :: "alarm list \<Rightarrow> round list \<Rightarrow> bool" where
  "rounds_fit p [] = True"
| "rounds_fit p ((es, evs) # rounds) =
     (let q = p @ arrivals es; b = arrivals (batch_events evs (length q) 0)
      in length q + length b \<le> 31 \<and> rounds_fit b rounds)"

lemma handled_exactly_once: "handled_alarms p rounds @ pending_after p rounds = p @ arrivals (all_events p rounds)"
  by (induction p rounds rule: handled_alarms.induct) (simp_all add: Let_def)

lemma run_bind_assoc: "run_bind (run_bind r f) g = run_bind r (\<lambda>x. run_bind (f x) g)"
  by (cases r) simp_all

lemma service_loop_sends:
  assumes "ring_holds p st" "ServiceRun st" "rounds_fit p rounds" "Signal SIGTERM \<notin> set (all_events p rounds)"
    and "\<forall>a\<in>set (handled_alarms p rounds). alarm_ip a \<noteq> None"
  shows "sends wr (concat (map (alarm_jobs localtime (st_db st)) (handled_alarms p rounds)))
    (\<lambda>st'. ring_holds (pending_after p rounds) st' \<and> ServiceRun st') st
    (run_bind (service_loop localtime wr rounds st) (\<lambda>(ended, st'). if ended then Exit 0 else Ok st'))"
  using assms
proof (induction rounds arbitrary: p st)
  case Nil
  then show ?case by (simp add: sends_nothing)
next
  case (Cons r rounds)
  obtain es evs where r: "r = (es, evs)" by fastforce
  define q where "q = p @ arrivals es"
  define bs where "bs = batch_events evs (length q) 0"
  let ?fin = "\<lambda>(ended, st'). if ended then Exit 0 else Ok st'"
  let ?Q = "\<lambda>st'. ring_holds (pending_after (arrivals bs) rounds) st' \<and> ServiceRun st'"
  let ?J = "\<lambda>as. concat (map (alarm_jobs localtime (st_db st)) as)"
  have q: "length p + length (arrivals es) \<le> 31" "length q + length (arrivals bs) \<le> 31" "rounds_fit (arrivals bs) rounds"
    using Cons.prems(3) by (simp_all add: r q_def bs_def Let_def)
  have sig: "Signal SIGTERM \<notin> set es" "Signal SIGTERM \<notin> set bs" "Signal SIGTERM \<notin> set (all_events (arrivals bs) rounds)"
    using Cons.prems(4) by (simp_all add: r q_def bs_def Let_def)
  have h: "handled_alarms p (r # rounds) = q @ handled_alarms (arrivals bs) rounds" by (simp add: r q_def bs_def Let_def)
  have ips: "\<forall>a\<in>set q. alarm_ip a \<noteq> None" "\<forall>a\<in>set (handled_alarms (arrivals bs) rounds). alarm_ip a \<noteq> None"
    using Cons.prems(5) by (auto simp: h)
  have rest: "sends wr (?J (handled_alarms (arrivals bs) rounds)) ?Q st2 (run_bind (service_loop localtime wr rounds st2) ?fin)"
    if "ring_holds (arrivals bs) st2" "ServiceRun st2" "same_setup st st2" for st2
    using Cons.IH [OF that(1,2) q(3) sig(3) ips(2)] unfolding alarm_jobs_same [OF that(3)] .
  have iter: "sends wr (?J q @ ?J (handled_alarms (arrivals bs) rounds)) ?Q st1
      (run_bind (service_iteration localtime wr evs st1) (\<lambda>st2. run_bind (service_loop localtime wr rounds st2) ?fin))"
    if st1: "ring_holds q st1" "ServiceRun st1" "same_setup st st1" for st1
    by (rule sends_bind [OF service_iteration_sends [OF st1(1) q(2) [unfolded bs_def] ips(1),
          unfolded alarm_jobs_same [OF st1(3)], folded bs_def]])
      (use st1(2) sig(2) same_setup_trans [OF st1(3)] in \<open>auto intro: rest\<close>)
  have "sends wr ([] @ (?J q @ ?J (handled_alarms (arrivals bs) rounds))) ?Q st
      (run_bind (apply_events es st) (\<lambda>st1. run_bind (if \<not> ServiceRun st1 then Ok (True, st1)
         else run_bind (service_iteration localtime wr evs st1) (service_loop localtime wr rounds)) ?fin))"
    by (rule sends_bind [OF apply_events_sends [OF Cons.prems(1) q(1)]])
      (use Cons.prems(2) sig(1) iter in \<open>simp add: run_bind_assoc q_def\<close>)
  then show ?case unfolding h by (simp add: r run_bind_assoc q_def bs_def)
qed

text \<open>When every number is non-empty, nothing is discarded.\<close>

lemma str_insert_Nil: "str_insert k x y = Some [] \<longleftrightarrow> k = 0 \<and> x = [] \<and> y = []"
  by (auto simp: str_insert_def)

lemma PackMsgToAlarm_Nil: "PackMsgToAlarm dt ip name p = Some [] \<longleftrightarrow> ip = [] \<or> p = []"
  by (auto simp: PackMsgToAlarm_def Let_def str_insert_Nil bind_eq_Some_conv)

definition job_number :: "job \<Rightarrow> string" where
  "job_number j = snd (snd (snd j))"

lemma alarm_jobs_message: "j \<in> set (alarm_jobs localtime db a) \<Longrightarrow> job_message j = Some [] \<longleftrightarrow> job_number j = []"
  by (auto simp: alarm_jobs_def job_message_def job_number_def PackMsgToAlarm_Nil split: option.splits if_splits)

definition job_bytes :: "job \<Rightarrow> u8 list" where
  "job_bytes j = map byte_of (the (job_message j))"

lemma foldl_send_effect:
  "\<forall>j\<in>set jobs. job_message j \<noteq> Some [] \<Longrightarrow> list_all sendable jobs \<Longrightarrow>
   foldl send_effect q jobs = q @ concat (map job_bytes jobs)"
proof (induction jobs arbitrary: q)
  case (Cons j jobs)
  have "the (job_message j) \<noteq> []" using Cons.prems by (auto simp: sendable_def split: option.splits)
  then show ?case using Cons by (simp add: send_effect_def job_bytes_def)
qed simp

lemma sends_modem:
  assumes "sends wr jobs Q st r" "list_all sendable jobs" "jobs = concat (map (alarm_jobs localtime db) as)"
  shows "\<exists>st'. r = Ok st' \<and> Q st' \<and> same_setup st st' \<and> st_out st' = st_out st @ concat (map job_lines jobs) \<and>
    (online wr st \<and> (\<forall>j\<in>set jobs. job_number j \<noteq> []) \<longrightarrow> modem_queue st' = modem_queue st @ concat (map job_bytes jobs))"
proof -
  obtain st' where st': "r = Ok st'" "Q st'" "same_setup st st'" "st_out st' = st_out st @ concat (map job_lines jobs)"
    "online wr st \<longrightarrow> modem_queue st' = foldl send_effect (modem_queue st) jobs"
    using assms(1,2) by (auto simp: sends_Ok)
  have "\<forall>j\<in>set jobs. job_message j \<noteq> Some []" if "\<forall>j\<in>set jobs. job_number j \<noteq> []"
  proof
    fix j assume j: "j \<in> set jobs"
    then obtain a where "j \<in> set (alarm_jobs localtime db a)" unfolding assms(3) by auto
    then show "job_message j \<noteq> Some []" using alarm_jobs_message that j by blast
  qed
  then show ?thesis using st' foldl_send_effect [OF _ assms(2)] by auto
qed

end
