(* ===== verification/Log_Queue.thy ===== *)
theory Log_Queue
  imports Prelude "HOL-Library.Monad_Syntax"
begin

text \<open>
  The message store of the logging library (\<^verbatim>\<open>src/inc/spdlog/details/circular_q.h\<close> and
  \<^verbatim>\<open>details/backtracer-inl.h\<close>): a queue in a vector that overruns its oldest element when it is full,
  and the tracer that keeps the last messages in such a queue. An access outside the vector and a
  division by zero are \<open>None\<close>.

  The locale \<open>overrun_queue\<close> is the contract of such a queue: pushing keeps the last elements up to the
  capacity, and popping until the queue is empty visits them from the oldest on. It is interpreted on the
  operations of \<^verbatim>\<open>circular_q\<close>.
\<close>

named_theorems log_simps \<open>evaluation of the logging operations\<close>

section \<open>The circular queue\<close>

text \<open>The members of the class; \<^verbatim>\<open>size_t\<close> has 64 bits on the targets of the build.\<close>

record 'a circular_q =
  cq_max_items :: nat
  cq_head :: nat
  cq_tail :: nat
  cq_overrun_counter :: nat
  cq_v :: "'a list"

text \<open>The queue without elements, and the one for \<open>n\<close> elements: one slot more tells full from empty.\<close>

definition disabled_q :: "'a circular_q" where
  "disabled_q = \<lparr>cq_max_items = 0, cq_head = 0, cq_tail = 0, cq_overrun_counter = 0, cq_v = []\<rparr>"

definition sized_q :: "'a \<Rightarrow> nat \<Rightarrow> 'a circular_q" where
  "sized_q dflt n = (let m = (n + 1) mod 2 ^ 64 in
     \<lparr>cq_max_items = m, cq_head = 0, cq_tail = 0, cq_overrun_counter = 0, cq_v = replicate m dflt\<rparr>)"

definition q_push_back :: "'a \<Rightarrow> 'a circular_q \<Rightarrow> 'a circular_q option" where
  "q_push_back item q =
     (if cq_max_items q > 0 then
        if cq_tail q < length (cq_v q) then
          let t = (cq_tail q + 1) mod cq_max_items q;
              q1 = q\<lparr>cq_v := (cq_v q)[cq_tail q := item], cq_tail := t\<rparr>
          in Some (if t = cq_head q
                   then q1\<lparr>cq_head := (cq_head q + 1) mod cq_max_items q,
                           cq_overrun_counter := (cq_overrun_counter q + 1) mod 2 ^ 64\<rparr>
                   else q1)
        else None
      else Some q)"

definition q_front :: "'a circular_q \<Rightarrow> 'a option" where
  "q_front q = (if cq_head q < length (cq_v q) then Some (cq_v q ! cq_head q) else None)"

definition q_pop_front :: "'a circular_q \<Rightarrow> 'a circular_q option" where
  "q_pop_front q = (if cq_max_items q = 0 then None else Some (q\<lparr>cq_head := (cq_head q + 1) mod cq_max_items q\<rparr>))"

definition q_empty :: "'a circular_q \<Rightarrow> bool" where
  "q_empty q \<longleftrightarrow> cq_tail q = cq_head q"

definition q_full :: "'a circular_q \<Rightarrow> bool" where
  "q_full q \<longleftrightarrow> (if cq_max_items q > 0 then (cq_tail q + 1) mod cq_max_items q = cq_head q else False)"

text \<open>
  Moving out of a queue: the new queue has its members, the old one is disabled. The vector that was moved
  from is left unspecified by the standard; it is the argument \<open>rest\<close>.
\<close>

definition copy_moveable :: "'a list \<Rightarrow> 'a circular_q \<Rightarrow> 'a circular_q \<times> 'a circular_q" where
  "copy_moveable rest other =
     (\<lparr>cq_max_items = cq_max_items other, cq_head = cq_head other, cq_tail = cq_tail other,
       cq_overrun_counter = cq_overrun_counter other, cq_v = cq_v other\<rparr>,
      \<lparr>cq_max_items = 0, cq_head = 0, cq_tail = 0, cq_overrun_counter = 0, cq_v = rest\<rparr>)"

section \<open>The contract\<close>

text \<open>The last \<open>n\<close> elements of a list.\<close>

definition last_n :: "nat \<Rightarrow> 'a list \<Rightarrow> 'a list" where
  "last_n n xs = drop (length xs - n) xs"

lemma last_n_all [simp]: "length xs \<le> n \<Longrightarrow> last_n n xs = xs"
  by (simp add: last_n_def)

lemma last_n_0 [simp]: "last_n 0 xs = []"
  by (simp add: last_n_def)

lemma length_last_n [simp]: "length (last_n n xs) = min n (length xs)"
  by (simp add: last_n_def)

lemma last_n_snoc: "last_n n (last_n n xs @ [x]) = last_n n (xs @ [x])"
proof (cases n)
  case (Suc k)
  have "length xs - (length xs - n + k) + (length xs - n) = length xs - k" using Suc by linarith
  then show ?thesis using Suc by (simp add: last_n_def)
qed simp

lemma last_n_append: "last_n n (last_n n xs @ ys) = last_n n (xs @ ys)"
proof (induction ys rule: rev_induct)
  case (snoc y ys)
  have "last_n n ((last_n n xs @ ys) @ [y]) = last_n n (last_n n (last_n n xs @ ys) @ [y])"
    by (simp add: last_n_snoc del: append_assoc)
  also have "\<dots> = last_n n (last_n n (xs @ ys) @ [y])" using snoc.IH by simp
  also have "\<dots> = last_n n ((xs @ ys) @ [y])" by (rule last_n_snoc)
  finally show ?case by simp
qed (simp add: last_n_def)

text \<open>
  Popping every element and handing it to a function with a state: the loop of \<^verbatim>\<open>backtracer::foreach_pop\<close>,
  over the operations of any queue. A loop that does not end has the value \<open>None\<close>.
\<close>

partial_function (option) pop_loop ::
  "('q \<Rightarrow> bool) \<Rightarrow> ('q \<Rightarrow> 'a option) \<Rightarrow> ('q \<Rightarrow> 'q option) \<Rightarrow> ('a \<Rightarrow> 's \<Rightarrow> 's option) \<Rightarrow> 'q \<Rightarrow> 's \<Rightarrow> ('q \<times> 's) option"
where
  "pop_loop isempty front pop f q s =
     (if isempty q then Some (q, s)
      else do { x \<leftarrow> front q; s' \<leftarrow> f x s; q' \<leftarrow> pop q; pop_loop isempty front pop f q' s' })"

text \<open>What the function keeps, the loop keeps.\<close>

lemma pop_loop_keeps:
  assumes r: "pop_loop e fr po f q s = Some r" and f: "\<And>x s s'. f x s = Some s' \<Longrightarrow> P s \<Longrightarrow> P s'" and p: "P s"
  shows "P (snd r)"
proof -
  have "(\<forall>x s s'. f x s = Some s' \<longrightarrow> P s \<longrightarrow> P s') \<longrightarrow> P s \<longrightarrow> P (snd r)"
  proof (rule pop_loop.raw_induct [where P = "\<lambda>e fr po f q s r.
      (\<forall>x s s'. f x s = Some s' \<longrightarrow> P s \<longrightarrow> P s') \<longrightarrow> P s \<longrightarrow> P (snd r)", OF _ r])
    fix rec e fr po f q s y
    assume ih: "\<And>e fr po f q s y. rec e fr po f q s = Some y \<Longrightarrow>
        (\<forall>x s s'. f x s = Some s' \<longrightarrow> P s \<longrightarrow> P s') \<longrightarrow> P s \<longrightarrow> P (snd y)"
      and step: "(if e q then Some (q, s) else fr q \<bind> (\<lambda>x. f x s \<bind> (\<lambda>s'. po q \<bind> (\<lambda>q'. rec e fr po f q' s')))) = Some y"
    show "(\<forall>x s s'. f x s = Some s' \<longrightarrow> P s \<longrightarrow> P s') \<longrightarrow> P s \<longrightarrow> P (snd y)"
    proof (intro impI)
      assume a: "\<forall>x s s'. f x s = Some s' \<longrightarrow> P s \<longrightarrow> P s'" "P s"
      show "P (snd y)"
      proof (cases "e q")
        case False
        then obtain x s' q' where "f x s = Some s'" "rec e fr po f q' s' = Some y"
          using step by (auto simp: bind_eq_Some_conv)
        then show ?thesis using ih a by blast
      qed (use step a in auto)
    qed
  qed
  then show ?thesis using f p by blast
qed

text \<open>A function applied to every element of a list in turn; it stops at the first failure.\<close>

fun visit_all :: "('a \<Rightarrow> 's \<Rightarrow> 's option) \<Rightarrow> 'a list \<Rightarrow> 's \<Rightarrow> 's option" where
  "visit_all f [] s = Some s"
| "visit_all f (x # xs) s = do { s' \<leftarrow> f x s; visit_all f xs s' }"

lemma visit_all_append: "visit_all f (xs @ ys) s = do { s' \<leftarrow> visit_all f xs s; visit_all f ys s' }"
  by (induction xs arbitrary: s) (auto split: bind_splits)

locale overrun_queue =
  fixes invar :: "'q \<Rightarrow> bool" and elements :: "'q \<Rightarrow> 'a list" and cap :: "'q \<Rightarrow> nat"
    and push :: "'a \<Rightarrow> 'q \<Rightarrow> 'q option" and front :: "'q \<Rightarrow> 'a option" and pop :: "'q \<Rightarrow> 'q option"
    and isempty :: "'q \<Rightarrow> bool"
  assumes push_law: "invar q \<Longrightarrow>
        \<exists>q'. push x q = Some q' \<and> invar q' \<and> cap q' = cap q \<and> elements q' = last_n (cap q) (elements q @ [x])"
    and isempty_law: "invar q \<Longrightarrow> isempty q \<longleftrightarrow> elements q = []"
    and front_law: "invar q \<Longrightarrow> elements q = x # xs \<Longrightarrow> front q = Some x"
    and pop_law: "invar q \<Longrightarrow> elements q = x # xs \<Longrightarrow>
        \<exists>q'. pop q = Some q' \<and> invar q' \<and> cap q' = cap q \<and> elements q' = xs"
    and cap_law: "invar q \<Longrightarrow> length (elements q) \<le> cap q"
begin

lemma push_all:
  "invar q \<Longrightarrow> \<exists>q'. visit_all push xs q = Some q' \<and> invar q' \<and> cap q' = cap q \<and>
     elements q' = last_n (cap q) (elements q @ xs)"
proof (induction xs arbitrary: q)
  case Nil
  then show ?case using cap_law by simp
next
  case (Cons x xs)
  from push_law [OF Cons.prems, of x] obtain q1 where q1: "push x q = Some q1" "invar q1" "cap q1 = cap q"
    "elements q1 = last_n (cap q) (elements q @ [x])" by blast
  from Cons.IH [OF q1(2)] obtain q2 where q2: "visit_all push xs q1 = Some q2" "invar q2" "cap q2 = cap q1"
    "elements q2 = last_n (cap q1) (elements q1 @ xs)" by blast
  have "elements q2 = last_n (cap q) (elements q @ x # xs)"
    using q2(4) q1(3,4) last_n_append [of "cap q" "elements q @ [x]" xs] by simp
  with q1 q2 show ?case by simp
qed

lemma pop_all:
  "invar q \<Longrightarrow> \<exists>q'. invar q' \<and> cap q' = cap q \<and> elements q' = [] \<and>
     pop_loop isempty front pop f q s = map_option (Pair q') (visit_all f (elements q) s)"
proof (induction "elements q" arbitrary: q s)
  case Nil
  then have "isempty q" using isempty_law by simp
  with Nil show ?case by (auto simp: pop_loop.simps [of _ _ _ _ q])
next
  case (Cons x xs)
  have ne: "\<not> isempty q" using isempty_law [OF Cons.prems] Cons.hyps(2) by auto
  have fr: "front q = Some x" by (rule front_law [OF Cons.prems Cons.hyps(2) [symmetric]])
  from pop_law [OF Cons.prems Cons.hyps(2) [symmetric]] obtain q1 where
    q1: "pop q = Some q1" "invar q1" "cap q1 = cap q" "elements q1 = xs" by blast
  have step: "pop_loop isempty front pop f q s =
      do { s' \<leftarrow> f x s; pop_loop isempty front pop f q1 s' }"
    using ne fr q1(1) by (simp add: pop_loop.simps [of _ _ _ _ q])
  show ?case
  proof (cases "f x s")
    case None
    from Cons.hyps(1) [OF q1(4) [symmetric] q1(2), of undefined] q1(3) obtain q2 where
      "invar q2" "cap q2 = cap q" "elements q2 = []" by auto
    then show ?thesis using step None Cons.hyps(2) [symmetric] by auto
  next
    case (Some s')
    from Cons.hyps(1) [OF q1(4) [symmetric] q1(2), of s'] obtain q2 where q2:
      "invar q2" "cap q2 = cap q1" "elements q2 = []"
      "pop_loop isempty front pop f q1 s' = map_option (Pair q2) (visit_all f (elements q1) s')" by blast
    show ?thesis using q2 step Some q1 Cons.hyps(2) [symmetric] by auto
  qed
qed

end

section \<open>The queue keeps its contract\<close>

definition q_invar :: "'a circular_q \<Rightarrow> bool" where
  "q_invar q \<longleftrightarrow> (if cq_max_items q = 0 then cq_head q = 0 \<and> cq_tail q = 0
     else cq_head q < cq_max_items q \<and> cq_tail q < cq_max_items q \<and> length (cq_v q) = cq_max_items q)"

definition q_size :: "'a circular_q \<Rightarrow> nat" where
  "q_size q = (if cq_head q \<le> cq_tail q then cq_tail q - cq_head q else cq_max_items q - cq_head q + cq_tail q)"

definition q_elements :: "'a circular_q \<Rightarrow> 'a list" where
  "q_elements q = map (\<lambda>i. cq_v q ! ((cq_head q + i) mod cq_max_items q)) [0..<q_size q]"

definition q_cap :: "'a circular_q \<Rightarrow> nat" where
  "q_cap q = cq_max_items q - 1"

lemma length_q_elements [simp]: "length (q_elements q) = q_size q"
  by (simp add: q_elements_def)

lemma q_size_mod: "q_invar q \<Longrightarrow> 0 < cq_max_items q \<Longrightarrow> (cq_head q + q_size q) mod cq_max_items q = cq_tail q"
  by (auto simp: q_invar_def q_size_def)

lemma q_size_less: "q_invar q \<Longrightarrow> 0 < cq_max_items q \<Longrightarrow> q_size q < cq_max_items q"
  by (auto simp: q_invar_def q_size_def)

lemma q_size_le_cap: "q_invar q \<Longrightarrow> q_size q \<le> q_cap q"
  using q_size_less [of q] by (cases "cq_max_items q = 0") (auto simp: q_cap_def q_invar_def q_size_def)

lemma mod_add_neq: "i < n \<Longrightarrow> n < (m :: nat) \<Longrightarrow> (h + i) mod m \<noteq> (h + n) mod m"
proof
  assume h: "i < n" "n < m" "(h + i) mod m = (h + n) mod m"
  then have "m dvd (h + n) - (h + i)" by (metis mod_eq_dvd_iff_nat add_le_cancel_left less_imp_le)
  then have "m dvd n - i" by simp
  with h show False by (auto dest: dvd_imp_le)
qed

lemma last_n_tl: "length xs = Suc n \<Longrightarrow> last_n n xs = tl xs"
  by (cases xs) (auto simp: last_n_def)

lemma q_push_back_law:
  assumes "q_invar q"
  shows "\<exists>q'. q_push_back x q = Some q' \<and> q_invar q' \<and> q_cap q' = q_cap q \<and>
    q_elements q' = last_n (q_cap q) (q_elements q @ [x])"
proof (cases "cq_max_items q = 0")
  case True
  then show ?thesis using assms by (auto simp: q_push_back_def q_cap_def q_elements_def q_size_def q_invar_def)
next
  case False
  define m h t v n where d: "m = cq_max_items q" "h = cq_head q" "t = cq_tail q" "v = cq_v q" "n = q_size q"
  have i: "h < m" "t < m" "length v = m" using assms False by (auto simp: q_invar_def d)
  have n: "n < m" "(h + n) mod m = t" using q_size_less q_size_mod assms False by (auto simp: d)
  have slot: "v[t := x] ! ((h + i) mod m) = (if i = n then x else v ! ((h + i) mod m))" if "i \<le> n" for i
    using that n i mod_add_neq [of i n m h] by (cases "i = n") auto
  have app: "map (\<lambda>i. v[t := x] ! ((h + i) mod m)) [0..<Suc n] = q_elements q @ [x]"
  proof (rule nth_equalityI)
    fix k assume "k < length (map (\<lambda>i. v[t := x] ! ((h + i) mod m)) [0..<Suc n])"
    then have k: "k \<le> n" by simp
    show "map (\<lambda>i. v[t := x] ! ((h + i) mod m)) [0..<Suc n] ! k = (q_elements q @ [x]) ! k"
      using slot [OF k] k by (auto simp: nth_append q_elements_def d simp del: upt_Suc)
  qed (simp add: d)
  have t': "(t + 1) mod m = (h + Suc n) mod m" using n(2) by (metis Suc_eq_plus1 add_Suc_right mod_Suc_eq)
  show ?thesis
  proof (cases "(t + 1) mod m = h")
    case over: True
    have sn: "Suc n = m"
    proof (rule ccontr)
      assume "Suc n \<noteq> m"
      with n(1) have "Suc n < m" by simp
      with mod_add_neq [of 0 "Suc n" m h] t' over i(1) show False by simp
    qed
    let ?q = "q\<lparr>cq_v := v[t := x], cq_tail := h, cq_head := (h + 1) mod m,
               cq_overrun_counter := (cq_overrun_counter q + 1) mod 2 ^ 64\<rparr>"
    have push: "q_push_back x q = Some ?q"
      using False i over by (simp add: q_push_back_def Let_def d [symmetric])
    have inv: "q_invar ?q" using i by (simp add: q_invar_def d [symmetric])
    have size: "q_size ?q = n" using i sn by (auto simp: q_size_def d [symmetric] mod_Suc)
    have "q_elements ?q = map (\<lambda>i. v[t := x] ! ((h + Suc i) mod m)) [0..<n]"
      unfolding q_elements_def size by (simp add: d [symmetric] mod_simps)
    also have "\<dots> = tl (map (\<lambda>i. v[t := x] ! ((h + i) mod m)) [0..<Suc n])"
      by (simp add: map_upt_Suc del: upt_Suc)
    also have "\<dots> = last_n n (q_elements q @ [x])"
      unfolding app by (rule last_n_tl [symmetric]) (simp add: d)
    finally show ?thesis using push inv sn by (auto simp: q_cap_def d [symmetric])
  next
    case room: False
    let ?q = "q\<lparr>cq_v := v[t := x], cq_tail := (t + 1) mod m\<rparr>"
    have push: "q_push_back x q = Some ?q"
      using False i room by (simp add: q_push_back_def Let_def d [symmetric])
    have inv: "q_invar ?q" using i by (simp add: q_invar_def d [symmetric])
    have "(h + m) mod m = h" using i(1) by simp
    then have "Suc n \<noteq> m" using room t' by metis
    then have sn: "Suc n < m" using n(1) by simp
    have size: "q_size ?q = Suc n"
      using i n room sn by (auto simp: q_size_def d mod_Suc split: if_splits)
    have "q_elements ?q = q_elements q @ [x]"
      unfolding app [symmetric] q_elements_def [of ?q] size by (simp add: d [symmetric] del: upt_Suc)
    moreover have "last_n (m - 1) (q_elements q @ [x]) = q_elements q @ [x]"
      using sn by (intro last_n_all) (simp add: d)
    ultimately show ?thesis using push inv by (auto simp: q_cap_def d [symmetric])
  qed
qed

lemma q_empty_law: "q_invar q \<Longrightarrow> q_empty q \<longleftrightarrow> q_elements q = []"
  using q_size_less [of q] by (auto simp: q_empty_def q_elements_def q_size_def q_invar_def split: if_splits)

lemma q_elements_pos: "q_invar q \<Longrightarrow> q_elements q = x # xs \<Longrightarrow> 0 < cq_max_items q \<and> 0 < q_size q"
  using length_q_elements [of q] by (auto simp: q_invar_def q_size_def split: if_splits)

lemma q_front_law: "q_invar q \<Longrightarrow> q_elements q = x # xs \<Longrightarrow> q_front q = Some x"
proof -
  assume a: "q_invar q" "q_elements q = x # xs"
  then have p: "0 < cq_max_items q" "0 < q_size q" using q_elements_pos [of q x xs] by auto
  have "x = q_elements q ! 0" using a(2) by simp
  also have "\<dots> = cq_v q ! cq_head q" using p a(1) by (simp add: q_elements_def q_invar_def)
  finally show ?thesis using a(1) p by (simp add: q_front_def q_invar_def)
qed

lemma q_pop_front_law:
  assumes "q_invar q" "q_elements q = x # xs"
  shows "\<exists>q'. q_pop_front q = Some q' \<and> q_invar q' \<and> q_cap q' = q_cap q \<and> q_elements q' = xs"
proof -
  have p: "0 < cq_max_items q" "0 < q_size q" using q_elements_pos [OF assms] by auto
  let ?q = "q\<lparr>cq_head := (cq_head q + 1) mod cq_max_items q\<rparr>"
  have i: "cq_head q < cq_max_items q" "cq_tail q < cq_max_items q" using assms(1) p by (auto simp: q_invar_def)
  have size: "q_size ?q = q_size q - 1"
    using p i by (auto simp: q_size_def mod_Suc split: if_splits)
  have "q_elements ?q = map (\<lambda>i. cq_v q ! ((cq_head q + Suc i) mod cq_max_items q)) [0..<q_size q - 1]"
    unfolding q_elements_def size by (simp add: mod_simps)
  also have "\<dots> = tl (q_elements q)"
    using p(2) by (cases "q_size q") (simp_all add: q_elements_def map_upt_Suc del: upt_Suc)
  finally show ?thesis using p i assms by (auto simp: q_pop_front_def q_cap_def q_invar_def)
qed

interpretation circ: overrun_queue q_invar q_elements q_cap q_push_back q_front q_pop_front q_empty
  by unfold_locales
    (auto intro: q_push_back_law q_front_law q_pop_front_law simp: q_empty_law q_size_le_cap)

end
