(* ===== verification/Log_Message.thy ===== *)
theory Log_Message
  imports Log_Queue
begin

text \<open>
  Levels, messages and the tracer of the logging library (\<^verbatim>\<open>src/inc/spdlog/common.h\<close>, \<^verbatim>\<open>common-inl.h\<close>,
  \<^verbatim>\<open>details/log_msg.h\<close>, \<^verbatim>\<open>details/log_msg_buffer-inl.h\<close>, \<^verbatim>\<open>details/backtracer-inl.h\<close>).

  A string view is the text it shows. A time point is the number of nanoseconds since the epoch, the
  resolution of \<^verbatim>\<open>system_clock\<close> on the targets of the build; the clock, the thread number and the process
  number are arguments.
\<close>

section \<open>Levels\<close>

datatype level_enum = level_trace | level_debug | level_info | level_warn | level_err | level_critical | level_off

primrec level_num :: "level_enum \<Rightarrow> nat" where
  "level_num level_trace = 0"
| "level_num level_debug = 1"
| "level_num level_info = 2"
| "level_num level_warn = 3"
| "level_num level_err = 4"
| "level_num level_critical = 5"
| "level_num level_off = 6"

lemma level_num_inject [simp]: "level_num a = level_num b \<longleftrightarrow> a = b"
  by (cases a; cases b) simp_all

text \<open>The comparisons of the sources are those of the numbers of the enumeration.\<close>

instantiation level_enum :: linorder
begin

definition less_eq_level_enum :: "level_enum \<Rightarrow> level_enum \<Rightarrow> bool" where
  "less_eq_level_enum a b \<longleftrightarrow> level_num a \<le> level_num b"

definition less_level_enum :: "level_enum \<Rightarrow> level_enum \<Rightarrow> bool" where
  "less_level_enum a b \<longleftrightarrow> level_num a < level_num b"

instance
  by standard (auto simp: less_eq_level_enum_def less_level_enum_def)

end

lemma level_off_greatest [simp]: "l \<le> level_off"
  by (cases l) (simp_all add: less_eq_level_enum_def)

lemma level_off_le [simp]: "level_off \<le> l \<longleftrightarrow> l = level_off"
  by (cases l) (simp_all add: less_eq_level_enum_def)

definition level_string_views :: "string list" where
  "level_string_views = [''trace'', ''debug'', ''info'', ''warning'', ''error'', ''critical'', ''off'']"

definition short_level_names :: "string list" where
  "short_level_names = [''T'', ''D'', ''I'', ''W'', ''E'', ''C'', ''O'']"

definition level_to_string_view :: "level_enum \<Rightarrow> string" where
  "level_to_string_view l = level_string_views ! level_num l"

definition level_to_short_c_str :: "level_enum \<Rightarrow> string" where
  "level_to_short_c_str l = short_level_names ! level_num l"

definition level_of_num :: "nat \<Rightarrow> level_enum" where
  "level_of_num n =
     [level_trace, level_debug, level_info, level_warn, level_err, level_critical, level_off] ! n"

fun from_str_loop :: "string \<Rightarrow> nat \<Rightarrow> string list \<Rightarrow> level_enum" where
  "from_str_loop name level [] = level_off"
| "from_str_loop name level (level_str # rest) =
     (if level_str = name then level_of_num level else from_str_loop name (level + 1) rest)"

definition level_from_str :: "string \<Rightarrow> level_enum" where
  "level_from_str name = from_str_loop name 0 level_string_views"

text \<open>Reading the printed name of a level gives the level back, and every other text gives \<^verbatim>\<open>off\<close>.\<close>

lemma level_from_str_roundtrip: "level_from_str (level_to_string_view l) = l"
  by (cases l) (simp_all add: level_from_str_def level_to_string_view_def level_string_views_def level_of_num_def)

lemma from_str_loop_unknown: "name \<notin> set names \<Longrightarrow> from_str_loop name k names = level_off"
  by (induction names arbitrary: k) auto

lemma level_from_str_unknown: "name \<notin> set level_string_views \<Longrightarrow> level_from_str name = level_off"
  unfolding level_from_str_def by (rule from_str_loop_unknown)

section \<open>Messages\<close>

record source_loc =
  sl_filename :: "string option"
  sl_line :: int
  sl_funcname :: "string option"

definition no_source_loc :: source_loc where
  "no_source_loc = \<lparr>sl_filename = None, sl_line = 0, sl_funcname = None\<rparr>"

definition source_loc_empty :: "source_loc \<Rightarrow> bool" where
  "source_loc_empty s \<longleftrightarrow> sl_line s = 0"

record log_msg =
  lm_logger_name :: string
  lm_level :: level_enum
  lm_time :: int
  lm_thread_id :: nat
  lm_color_range_start :: nat
  lm_color_range_end :: nat
  lm_source :: source_loc
  lm_payload :: string

definition empty_log_msg :: log_msg where
  "empty_log_msg =
     \<lparr>lm_logger_name = [], lm_level = level_off, lm_time = 0, lm_thread_id = 0, lm_color_range_start = 0,
      lm_color_range_end = 0, lm_source = no_source_loc, lm_payload = []\<rparr>"

text \<open>The constructor stamps the message with the time and the number of the calling thread.\<close>

record log_env =
  env_now :: int
  env_thread :: nat

definition make_log_msg :: "log_env \<Rightarrow> source_loc \<Rightarrow> string \<Rightarrow> level_enum \<Rightarrow> string \<Rightarrow> log_msg" where
  "make_log_msg env loc name lvl msg =
     \<lparr>lm_logger_name = name, lm_level = lvl, lm_time = env_now env, lm_thread_id = env_thread env,
      lm_color_range_start = 0, lm_color_range_end = 0, lm_source = loc, lm_payload = msg\<rparr>"

text \<open>
  A message that owns its text: name and payload are copied behind each other into one buffer, and the
  views are directed to the two parts of it.
\<close>

record log_msg_buffer =
  lb_msg :: log_msg
  lb_buffer :: string

definition update_string_views :: "log_msg_buffer \<Rightarrow> log_msg_buffer" where
  "update_string_views b =
     b\<lparr>lb_msg := (lb_msg b)
        \<lparr>lm_logger_name := take (length (lm_logger_name (lb_msg b))) (lb_buffer b),
         lm_payload := take (length (lm_payload (lb_msg b)))
                         (drop (length (lm_logger_name (lb_msg b))) (lb_buffer b))\<rparr>\<rparr>"

definition make_log_msg_buffer :: "log_msg \<Rightarrow> log_msg_buffer" where
  "make_log_msg_buffer orig_msg = update_string_views
     \<lparr>lb_msg = orig_msg, lb_buffer = lm_logger_name orig_msg @ lm_payload orig_msg\<rparr>"

definition copy_log_msg_buffer :: "log_msg_buffer \<Rightarrow> log_msg_buffer" where
  "copy_log_msg_buffer other = update_string_views
     \<lparr>lb_msg = lb_msg other, lb_buffer = lm_logger_name (lb_msg other) @ lm_payload (lb_msg other)\<rparr>"

definition move_log_msg_buffer :: "log_msg_buffer \<Rightarrow> log_msg_buffer" where
  "move_log_msg_buffer other = update_string_views \<lparr>lb_msg = lb_msg other, lb_buffer = lb_buffer other\<rparr>"

definition assign_log_msg_buffer :: "log_msg_buffer \<Rightarrow> log_msg_buffer" where
  "assign_log_msg_buffer other = update_string_views \<lparr>lb_msg = lb_msg other, lb_buffer = [] @ lb_buffer other\<rparr>"

definition empty_log_msg_buffer :: log_msg_buffer where
  "empty_log_msg_buffer = \<lparr>lb_msg = empty_log_msg, lb_buffer = []\<rparr>"

text \<open>The views of a buffer show the text that the buffer holds.\<close>

definition lb_ok :: "log_msg_buffer \<Rightarrow> bool" where
  "lb_ok b \<longleftrightarrow> lb_buffer b = lm_logger_name (lb_msg b) @ lm_payload (lb_msg b)"

lemma log_msg_buffer_keeps_text [simp]: "lb_msg (make_log_msg_buffer m) = m"
  by (simp add: make_log_msg_buffer_def update_string_views_def)

lemma lb_ok_make [simp]: "lb_ok (make_log_msg_buffer m)"
  by (simp add: lb_ok_def make_log_msg_buffer_def update_string_views_def)

lemma log_msg_buffer_copies:
  assumes "lb_ok b"
  shows "copy_log_msg_buffer b = b" "move_log_msg_buffer b = b" "assign_log_msg_buffer b = b"
  using assms by (simp_all add: lb_ok_def copy_log_msg_buffer_def move_log_msg_buffer_def
      assign_log_msg_buffer_def update_string_views_def)

section \<open>The tracer\<close>

text \<open>
  \<^verbatim>\<open>backtracer\<close>: whether it is enabled, and the last messages. Its mutex makes every operation atomic, and
  each of them is one function here.
\<close>

record backtracer =
  bt_enabled :: bool
  bt_messages :: "log_msg_buffer circular_q"

definition default_backtracer :: backtracer where
  "default_backtracer = \<lparr>bt_enabled = False, bt_messages = disabled_q\<rparr>"

definition copy_backtracer :: "backtracer \<Rightarrow> backtracer" where
  "copy_backtracer other = \<lparr>bt_enabled = bt_enabled other, bt_messages = bt_messages other\<rparr>"

text \<open>Moving out of a tracer leaves it enabled as it was, with a disabled queue.\<close>

definition move_backtracer :: "log_msg_buffer list \<Rightarrow> backtracer \<Rightarrow> backtracer \<times> backtracer" where
  "move_backtracer rest other = (let (q, q') = copy_moveable rest (bt_messages other) in
     (\<lparr>bt_enabled = bt_enabled other, bt_messages = q\<rparr>, other\<lparr>bt_messages := q'\<rparr>))"

definition bt_enable :: "nat \<Rightarrow> backtracer \<Rightarrow> backtracer" where
  "bt_enable n b = b\<lparr>bt_enabled := True, bt_messages := sized_q empty_log_msg_buffer n\<rparr>"

definition bt_disable :: "backtracer \<Rightarrow> backtracer" where
  "bt_disable b = b\<lparr>bt_enabled := False\<rparr>"

definition bt_push_back :: "log_msg \<Rightarrow> backtracer \<Rightarrow> backtracer option" where
  "bt_push_back msg b = do {
     q \<leftarrow> q_push_back (make_log_msg_buffer msg) (bt_messages b);
     Some (b\<lparr>bt_messages := q\<rparr>) }"

definition bt_foreach_pop :: "(log_msg \<Rightarrow> 's \<Rightarrow> 's option) \<Rightarrow> backtracer \<Rightarrow> 's \<Rightarrow> (backtracer \<times> 's) option" where
  "bt_foreach_pop f b s = do {
     (q, s') \<leftarrow> pop_loop q_empty q_front q_pop_front (\<lambda>m. f (lb_msg m)) (bt_messages b) s;
     Some (b\<lparr>bt_messages := q\<rparr>, s') }"

text \<open>What a tracer stands for: the messages it keeps, oldest first, and how many it can keep.\<close>

definition bt_invar :: "backtracer \<Rightarrow> bool" where
  "bt_invar b \<longleftrightarrow> q_invar (bt_messages b)"

definition bt_kept :: "backtracer \<Rightarrow> log_msg list" where
  "bt_kept b = map lb_msg (q_elements (bt_messages b))"

definition bt_cap :: "backtracer \<Rightarrow> nat" where
  "bt_cap b = q_cap (bt_messages b)"

lemma last_n_map: "last_n n (map f xs) = map f (last_n n xs)"
  by (simp add: last_n_def drop_map)

lemma bt_invar_default [simp]: "bt_invar default_backtracer"
  by (simp add: bt_invar_def default_backtracer_def disabled_q_def q_invar_def)

lemma bt_kept_default [simp]: "bt_kept default_backtracer = []"
  by (simp add: bt_kept_def default_backtracer_def disabled_q_def q_elements_def q_size_def)

lemma bt_enable_spec:
  "n < 2 ^ 64 - 1 \<Longrightarrow> bt_invar (bt_enable n b) \<and> bt_kept (bt_enable n b) = [] \<and> bt_cap (bt_enable n b) = n"
  by (simp add: bt_invar_def bt_kept_def bt_cap_def bt_enable_def sized_q_def q_invar_def q_elements_def
      q_size_def q_cap_def)

lemma bt_enable_enabled [simp]: "bt_enabled (bt_enable n b)"
  by (simp add: bt_enable_def)

lemma bt_disable_spec [simp]:
  "bt_enabled (bt_disable b) = False" "bt_kept (bt_disable b) = bt_kept b" "bt_cap (bt_disable b) = bt_cap b"
  "bt_invar (bt_disable b) = bt_invar b"
  by (simp_all add: bt_disable_def bt_kept_def bt_cap_def bt_invar_def)

lemma bt_push_back_spec:
  assumes "bt_invar b"
  shows "\<exists>b'. bt_push_back m b = Some b' \<and> bt_invar b' \<and> bt_cap b' = bt_cap b \<and>
    bt_enabled b' = bt_enabled b \<and> bt_kept b' = last_n (bt_cap b) (bt_kept b @ [m])"
proof -
  from circ.push_law [OF assms [unfolded bt_invar_def], of "make_log_msg_buffer m"] obtain q where
    q: "q_push_back (make_log_msg_buffer m) (bt_messages b) = Some q" "q_invar q" "q_cap q = q_cap (bt_messages b)"
      "q_elements q = last_n (q_cap (bt_messages b)) (q_elements (bt_messages b) @ [make_log_msg_buffer m])" by blast
  then show ?thesis
    by (simp add: bt_push_back_def bt_invar_def bt_cap_def bt_kept_def last_n_map [symmetric])
qed

lemma visit_all_map: "visit_all (\<lambda>x. f (g x)) xs s = visit_all f (map g xs) s"
proof (induction xs arbitrary: s)
  case (Cons x xs)
  then show ?case by (cases "f (g x) s") simp_all
qed simp

lemma bt_foreach_pop_spec:
  assumes "bt_invar b"
  shows "\<exists>b'. bt_invar b' \<and> bt_cap b' = bt_cap b \<and> bt_enabled b' = bt_enabled b \<and> bt_kept b' = [] \<and>
    bt_foreach_pop f b s = map_option (Pair b') (visit_all f (bt_kept b) s)"
proof -
  from circ.pop_all [OF assms [unfolded bt_invar_def], of "\<lambda>m. f (lb_msg m)" s] obtain q where
    q: "q_invar q" "q_cap q = q_cap (bt_messages b)" "q_elements q = []"
      "pop_loop q_empty q_front q_pop_front (\<lambda>m. f (lb_msg m)) (bt_messages b) s =
        map_option (Pair q) (visit_all (\<lambda>m. f (lb_msg m)) (q_elements (bt_messages b)) s)" by blast
  let ?b = "b\<lparr>bt_messages := q\<rparr>"
  have "bt_foreach_pop f b s = map_option (Pair ?b) (visit_all f (bt_kept b) s)"
    unfolding bt_foreach_pop_def q(4) visit_all_map [of f lb_msg] bt_kept_def
    by (cases "visit_all f (map lb_msg (q_elements (bt_messages b))) s") simp_all
  moreover have "bt_invar ?b \<and> bt_cap ?b = bt_cap b \<and> bt_enabled ?b = bt_enabled b \<and> bt_kept ?b = []"
    using q by (simp add: bt_invar_def bt_cap_def bt_kept_def)
  ultimately show ?thesis by blast
qed

end
