(* ===== verification/Log_Digits.thy ===== *)
theory Log_Digits
  imports Prelude
begin

text \<open>
  How the logging library prints integers (\<^verbatim>\<open>src/inc/spdlog/fmt/bundled/format.h\<close>, \<^verbatim>\<open>format-inl.h\<close> and
  \<^verbatim>\<open>src/inc/spdlog/details/fmt_helper.h\<close>): digits are counted from the position of the highest bit and a
  table of powers of ten, and printed two at a time from a table of pairs. Shown: both optimised routines
  agree with decimal notation, and the buffer of \<^verbatim>\<open>format_int\<close> is large enough.
\<close>

section \<open>Counting digits\<close>

text \<open>The number of bits of a number, from which \<^verbatim>\<open>__builtin_clz\<close> and \<^verbatim>\<open>__builtin_clzll\<close> follow.\<close>

fun bit_count :: "nat \<Rightarrow> nat" where
  "bit_count n = (if n = 0 then 0 else Suc (bit_count (n div 2)))"

declare bit_count.simps [simp del]

definition builtin_clz :: "nat \<Rightarrow> nat \<Rightarrow> nat" where
  "builtin_clz bits n = bits - bit_count n"

definition zero_or_powers_of_10_32 :: "nat list" where
  "zero_or_powers_of_10_32 = [0, 10, 100, 1000, 10000, 100000, 1000000, 10000000, 100000000, 1000000000]"

definition zero_or_powers_of_10_64 :: "nat list" where
  "zero_or_powers_of_10_64 = [0, 10, 100, 1000, 10000, 100000, 1000000, 10000000, 100000000, 1000000000,
     10000000000, 100000000000, 1000000000000, 10000000000000, 100000000000000, 1000000000000000,
     10000000000000000, 100000000000000000, 1000000000000000000, 10000000000000000000]"

definition count_digits_64 :: "u64 \<Rightarrow> nat" where
  "count_digits_64 n = (let t = drop_bit 12 ((64 - builtin_clz 64 (unat (n OR 1))) * 1233) in
     t - (if unat n < zero_or_powers_of_10_64 ! t then 1 else 0) + 1)"

definition count_digits_32 :: "u32 \<Rightarrow> nat" where
  "count_digits_32 n = (let t = drop_bit 12 ((32 - builtin_clz 32 (unat (n OR 1))) * 1233) in
     t - (if unat n < zero_or_powers_of_10_32 ! t then 1 else 0) + 1)"

text \<open>The variant for compilers without the two built-in functions.\<close>

function count_digits_loop :: "nat \<Rightarrow> nat \<Rightarrow> nat" where
  "count_digits_loop n count =
     (if n < 10 then count
      else if n < 100 then count + 1
      else if n < 1000 then count + 2
      else if n < 10000 then count + 3
      else count_digits_loop (n div 10000) (count + 4))"
  by auto
termination by (relation "measure fst") auto

declare count_digits_loop.simps [simp del]

definition count_digits_fallback :: "u64 \<Rightarrow> nat" where
  "count_digits_fallback n = count_digits_loop (unat n) 1"

section \<open>Printing integers\<close>

definition digit_pairs :: string where
  "digit_pairs =
     ''0001020304050607080910111213141516171819'' @
     ''2021222324252627282930313233343536373839'' @
     ''4041424344454647484950515253545556575859'' @
     ''6061626364656667686970717273747576777879'' @
     ''8081828384858687888990919293949596979899''"

text \<open>
  \<^verbatim>\<open>format_decimal\<close> writes from the end of the buffer to its front: the argument is what is already written.
\<close>

function format_decimal_loop :: "nat \<Rightarrow> string \<Rightarrow> string" where
  "format_decimal_loop value buf =
     (if value \<ge> 100 then
        let index = value mod 100 * 2 in
        format_decimal_loop (value div 100) (digit_pairs ! index # digit_pairs ! (index + 1) # buf)
      else if value < 10 then char_of (48 + value) # buf
      else let index = value * 2 in digit_pairs ! index # digit_pairs ! (index + 1) # buf)"
  by auto
termination by (relation "measure fst") auto

declare format_decimal_loop.simps [simp del]

definition format_decimal :: "u64 \<Rightarrow> string" where
  "format_decimal value = format_decimal_loop (unat value) []"

definition format_signed :: "int \<Rightarrow> string" where
  "format_signed value =
     (let abs_value = (word_of_int value :: u64); negative = value < 0;
          a = (if negative then 0 - abs_value else abs_value)
      in if negative then CHR ''-'' # format_decimal a else format_decimal a)"

text \<open>The number of bytes of the buffer: \<^verbatim>\<open>digits10\<close> of 64 bits and three more; the last one is never written.\<close>

definition format_int_buffer_size :: nat where
  "format_int_buffer_size = 19 + 3"

section \<open>Helpers of the formatters\<close>

text \<open>Two digits, with one leading zero when there is room for it; what is negative is printed by \<^verbatim>\<open>{:02}\<close>.\<close>

definition pad2 :: "int \<Rightarrow> string \<Rightarrow> string" where
  "pad2 n dest =
     (if n > 99 then dest @ format_signed n
      else if n > 9 then dest @ [char_of (nat (48 + n div 10)), char_of (nat (48 + n mod 10))]
      else if n \<ge> 0 then dest @ [CHR ''0'', char_of (nat (48 + n))]
      else dest @ dec_int n)"

definition pad_uint_64 :: "u64 \<Rightarrow> nat \<Rightarrow> string \<Rightarrow> string" where
  "pad_uint_64 n width dest = (let digits = count_digits_64 n in
     (if width > digits then dest @ take (width - digits) ''0000000000000000000'' else dest) @ format_decimal n)"

definition pad_uint_32 :: "u32 \<Rightarrow> nat \<Rightarrow> string \<Rightarrow> string" where
  "pad_uint_32 n width dest = (let digits = count_digits_32 n in
     (if width > digits then dest @ take (width - digits) ''0000000000000000000'' else dest)
       @ format_decimal (ucast n))"

section \<open>Both agree with decimal notation\<close>

lemma length_dec_ge: "10 ^ k \<le> n \<Longrightarrow> Suc k \<le> length (dec n)"
proof (induction k arbitrary: n)
  case 0
  then show ?case by (cases "dec n") auto
next
  case (Suc k)
  have "1 \<le> (10 :: nat) ^ k" by simp
  with Suc.prems have "\<not> n < 10" unfolding power_Suc by linarith
  moreover have n: "10 ^ k \<le> n div 10"
    using Suc.prems by (auto simp: less_eq_div_iff_mult_less_eq mult.commute)
  ultimately show ?case using Suc.IH [OF n] by (simp add: dec.simps [of n])
qed

lemma length_dec_eq: "n < 10 ^ Suc k \<Longrightarrow> 10 ^ k \<le> n \<or> k = 0 \<Longrightarrow> length (dec n) = Suc k"
  using length_dec_le [of n "Suc k"] length_dec_ge [of k n] by (cases "dec n") auto

lemma bit_count_bounds: "0 < n \<Longrightarrow> 2 ^ (bit_count n - 1) \<le> n \<and> n < 2 ^ bit_count n \<and> 0 < bit_count n"
proof (induction n rule: bit_count.induct)
  case (1 n)
  show ?case
  proof (cases "n div 2 = 0")
    case True
    then have "n = 1" using 1(2) by (auto simp: div_eq_0_iff)
    then show ?thesis by (simp add: bit_count.simps [of "Suc 0"] bit_count.simps [of 0])
  next
    case False
    then have "0 < n div 2" by simp
    from 1(1) [OF _ this] 1(2) have ih: "2 ^ (bit_count (n div 2) - 1) \<le> n div 2"
      "n div 2 < 2 ^ bit_count (n div 2)" "0 < bit_count (n div 2)" by auto
    have b: "bit_count n = Suc (bit_count (n div 2))" using 1(2) by (simp add: bit_count.simps [of n])
    have "2 * 2 ^ (bit_count (n div 2) - 1) \<le> n" using ih(1) by linarith
    moreover have "2 * 2 ^ (bit_count (n div 2) - 1) = (2 :: nat) ^ bit_count (n div 2)"
      using ih(3) by (cases "bit_count (n div 2)") auto
    ultimately show ?thesis using b ih(2) by auto
  qed
qed

text \<open>
  The estimate of the number of digits from the number of bits is right up to one, which the comparison with
  a power of ten corrects: one check for each number of bits.
\<close>

definition digit_estimate :: "nat \<Rightarrow> nat" where
  "digit_estimate b = drop_bit 12 (b * 1233)"

lemma digit_estimate_ok:
  "list_all (\<lambda>b. 2 ^ b \<le> (10 :: nat) ^ Suc (digit_estimate b) \<and>
     (digit_estimate b = 0 \<or> 10 ^ (digit_estimate b - 1) \<le> (2 :: nat) ^ (b - 1))) (1 # [2..<65])"
  by (simp add: digit_estimate_def drop_bit_eq_div upt_rec_numeral)

lemma estimate_bounds:
  assumes "1 \<le> b" "b \<le> 64"
  shows "2 ^ b \<le> (10 :: nat) ^ Suc (digit_estimate b)"
    "digit_estimate b \<noteq> 0 \<Longrightarrow> 10 ^ (digit_estimate b - 1) \<le> (2 :: nat) ^ (b - 1)"
proof -
  have "b \<in> set (1 # [2..<65])" unfolding list.set set_upt using assms by auto
  then have "2 ^ b \<le> (10 :: nat) ^ Suc (digit_estimate b) \<and>
     (digit_estimate b = 0 \<or> 10 ^ (digit_estimate b - 1) \<le> (2 :: nat) ^ (b - 1))"
    using digit_estimate_ok unfolding list_all_iff by blast
  then show "2 ^ b \<le> (10 :: nat) ^ Suc (digit_estimate b)"
    and "digit_estimate b \<noteq> 0 \<Longrightarrow> 10 ^ (digit_estimate b - 1) \<le> (2 :: nat) ^ (b - 1)"
    by simp_all
qed

lemma count_digits_core:
  assumes m: "m = (if even n then Suc n else n)" and b: "bit_count m \<le> 64"
    and t: "t = digit_estimate (bit_count m)" and p: "p = (if t = 0 then 0 else 10 ^ t)"
  shows "t - (if n < p then 1 else 0) + 1 = length (dec n)"
proof -
  have m0: "0 < m" "n \<le> m" using m by (auto intro: odd_pos)
  note bb = bit_count_bounds [OF m0(1)]
  have up: "n < 10 ^ Suc t" using estimate_bounds(1) [OF _ b] bb m0(2) unfolding t by linarith
  show ?thesis
  proof (cases "t = 0")
    case True
    then show ?thesis using length_dec_eq [of n 0] up p by simp
  next
    case False
    have "10 ^ (t - 1) \<le> m" using estimate_bounds(2) [OF _ b] False bb t by (metis Suc_leI One_nat_def le_trans)
    moreover have "10 ^ (t - 1) \<noteq> m \<or> n = m \<or> t = 1"
    proof -
      have "odd m" using m by auto
      moreover have "even ((10 :: nat) ^ (t - 1))" if "t \<noteq> 1" using that False by simp
      ultimately show ?thesis by metis
    qed
    ultimately have low: "10 ^ (t - 1) \<le> n \<or> t = 1" using m by (auto split: if_splits)
    show ?thesis
    proof (cases "n < 10 ^ t")
      case True
      then show ?thesis using length_dec_eq [of n "t - 1"] low False p by auto
    next
      case False
      then show ?thesis using length_dec_eq [of n t] up p \<open>t \<noteq> 0\<close> by auto
    qed
  qed
qed

lemma nth_powers_64: "t < 20 \<Longrightarrow> zero_or_powers_of_10_64 ! t = (if t = 0 then 0 else 10 ^ t)"
proof -
  assume "t < 20"
  then have "t \<in> set (0 # 1 # [2..<20])" unfolding list.set set_upt by auto
  moreover have "list_all (\<lambda>t. zero_or_powers_of_10_64 ! t = (if t = 0 then 0 else 10 ^ t)) (0 # 1 # [2..<20])"
    by (simp add: zero_or_powers_of_10_64_def upt_rec_numeral)
  ultimately show ?thesis unfolding list_all_iff by blast
qed


lemma nth_powers_32: "t < 10 \<Longrightarrow> zero_or_powers_of_10_32 ! t = (if t = 0 then 0 else 10 ^ t)"
proof -
  assume "t < 10"
  then have "t \<in> set (0 # 1 # [2..<10])" unfolding list.set set_upt by auto
  moreover have "list_all (\<lambda>t. zero_or_powers_of_10_32 ! t = (if t = 0 then 0 else 10 ^ t)) (0 # 1 # [2..<10])"
    by (simp add: zero_or_powers_of_10_32_def upt_rec_numeral)
  ultimately show ?thesis unfolding list_all_iff by blast
qed

lemma unat_or_1: "unat (n OR 1 :: 'a :: len word) = (if even (unat n) then Suc (unat n) else unat n)"
proof -
  have "unat (n OR 1) = unat n OR 1" by (simp add: unsigned_or_eq)
  also have "\<dots> = (if even (unat n) then Suc (unat n) else unat n)"
    by (simp add: or_Suc_0_eq)
  finally show ?thesis .
qed

lemma bit_count_le: "n < 2 ^ k \<Longrightarrow> bit_count n \<le> k"
proof (cases "n = 0")
  case True
  then show ?thesis by (simp add: bit_count.simps)
next
  case False
  assume "n < 2 ^ k"
  moreover have "2 ^ (bit_count n - 1) \<le> n" "0 < bit_count n" using False bit_count_bounds [of n] by auto
  ultimately have "(2 :: nat) ^ (bit_count n - 1) < 2 ^ k" by linarith
  then have "bit_count n - 1 < k" by simp
  then show ?thesis by simp
qed

lemma digit_estimate_mono: "b \<le> c \<Longrightarrow> digit_estimate b \<le> digit_estimate c"
  by (simp add: digit_estimate_def drop_bit_eq_div div_le_mono)

lemma count_digits_64_dec: "count_digits_64 n = length (dec (unat n))"
proof -
  define m where m: "m = unat (n OR 1)"
  have mn: "m = (if even (unat n) then Suc (unat n) else unat n)" unfolding m by (rule unat_or_1)
  have "m < 2 ^ 64" unfolding m using unsigned_less [of "n OR 1", where ?'a = nat] by simp
  then have b: "bit_count m \<le> 64" by (rule bit_count_le)
  define t where t: "t = digit_estimate (bit_count m)"
  have "t \<le> digit_estimate 64" unfolding t by (rule digit_estimate_mono [OF b])
  then have t20: "t < 20" by (simp add: digit_estimate_def drop_bit_eq_div)
  have est: "drop_bit 12 ((64 - builtin_clz 64 (unat (n OR 1))) * 1233) = t"
    using b by (simp add: builtin_clz_def t digit_estimate_def m)
  show ?thesis
    unfolding count_digits_64_def est Let_def nth_powers_64 [OF t20]
    by (rule count_digits_core [OF mn b t refl])
qed

lemma count_digits_32_dec: "count_digits_32 n = length (dec (unat n))"
proof -
  define m where m: "m = unat (n OR 1)"
  have mn: "m = (if even (unat n) then Suc (unat n) else unat n)" unfolding m by (rule unat_or_1)
  have "m < 2 ^ 32" unfolding m using unsigned_less [of "n OR 1", where ?'a = nat] by simp
  then have b: "bit_count m \<le> 32" by (rule bit_count_le)
  then have b': "bit_count m \<le> 64" by simp
  define t where t: "t = digit_estimate (bit_count m)"
  have "t \<le> digit_estimate 32" unfolding t by (rule digit_estimate_mono [OF b])
  then have t10: "t < 10" by (simp add: digit_estimate_def drop_bit_eq_div)
  have est: "drop_bit 12 ((32 - builtin_clz 32 (unat (n OR 1))) * 1233) = t"
    using b by (simp add: builtin_clz_def t digit_estimate_def m)
  show ?thesis
    unfolding count_digits_32_def est Let_def nth_powers_32 [OF t10]
    by (rule count_digits_core [OF mn b' t refl])
qed

lemma dec_div_10: "10 \<le> n \<Longrightarrow> length (dec n) = Suc (length (dec (n div 10)))"
  by (simp add: dec.simps [of n])

lemma count_digits_loop_dec: "count_digits_loop n c + 1 = c + length (dec n)"
proof (induction n c rule: count_digits_loop.induct)
  case (1 n c)
  have four: "length (dec n) = 4 + length (dec (n div 10000))" if "\<not> n < 10000"
  proof -
    have "10 \<le> n" "10 \<le> n div 10" "10 \<le> n div 100" "10 \<le> n div 1000" using that by auto
    moreover have "n div 10 div 10 = n div 100" "n div 100 div 10 = n div 1000" "n div 1000 div 10 = n div 10000"
      by (simp_all add: div_mult2_eq [symmetric])
    ultimately show ?thesis
      using dec_div_10 [of n] dec_div_10 [of "n div 10"] dec_div_10 [of "n div 100"] dec_div_10 [of "n div 1000"] by simp
  qed
  consider "n < 10" | "10 \<le> n" "n < 100" | "100 \<le> n" "n < 1000" | "1000 \<le> n" "n < 10000" | "10000 \<le> n"
    by linarith
  then show ?case
  proof cases
    case 1
    then show ?thesis using length_dec_eq [of n 0] by (simp add: count_digits_loop.simps [of n])
  next
    case 2
    then show ?thesis using length_dec_eq [of n 1] by (simp add: count_digits_loop.simps [of n])
  next
    case 3
    then show ?thesis using length_dec_eq [of n 2] by (simp add: count_digits_loop.simps [of n])
  next
    case 4
    then show ?thesis using length_dec_eq [of n 3] by (simp add: count_digits_loop.simps [of n])
  next
    case 5
    then have h: "\<not> n < 10" "\<not> n < 100" "\<not> n < 1000" "\<not> n < 10000" by auto
    show ?thesis using "1.IH" [OF h] four [OF h(4)] h by (simp add: count_digits_loop.simps [of n])
  qed
qed

lemma nth_digit_pairs:
  "d < 100 \<Longrightarrow> digit_pairs ! (d * 2) = digit_char (d div 10) \<and> digit_pairs ! Suc (d * 2) = digit_char (d mod 10)"
proof -
  assume "d < 100"
  then have "d \<in> set (0 # 1 # [2..<100])" unfolding list.set set_upt by auto
  moreover have "list_all (\<lambda>d. digit_pairs ! (d * 2) = digit_char (d div 10) \<and>
      digit_pairs ! Suc (d * 2) = digit_char (d mod 10)) (0 # 1 # [2..<100])"
    by code_simp
  ultimately show ?thesis unfolding list_all_iff by blast
qed

lemma format_decimal_loop_dec: "format_decimal_loop v buf = dec v @ buf"
proof (induction v buf rule: format_decimal_loop.induct)
  case (1 v buf)
  consider "v < 10" | "10 \<le> v" "v < 100" | "100 \<le> v" by linarith
  then show ?case
  proof cases
    case 1
    then show ?thesis
      by (simp add: format_decimal_loop.simps [of v] dec.simps [of v] digit_char_def)
  next
    case 2
    then have "v div 10 < 10" by simp
    then have "dec v = [digit_char (v div 10), digit_char (v mod 10)]"
      using 2 by (simp add: dec.simps [of v] dec.simps [of "v div 10"])
    then show ?thesis using 2 nth_digit_pairs [of v]
      by (simp add: format_decimal_loop.simps [of v] Let_def)
  next
    case 3
    define r where r: "r = v mod 100"
    have r100: "r < 100" "r mod 10 = v mod 10" "r div 10 = v div 10 mod 10"
      unfolding r by (simp_all add: mod_mult2_eq [of v 10 10, simplified] )
    have "v div 10 div 10 = v div 100" by (simp add: div_mult2_eq [symmetric])
    moreover have "\<not> v < 10" "\<not> v div 10 < 10" using 3 by auto
    ultimately have d: "dec v = dec (v div 100) @ [digit_char (r div 10), digit_char (r mod 10)]"
      by (simp add: dec.simps [of v] dec.simps [of "v div 10"] r100)
    show ?thesis using "1.IH" [OF 3 refl] nth_digit_pairs [OF r100(1)] d 3
      by (simp add: format_decimal_loop.simps [of v] Let_def r)
  qed
qed

lemma format_decimal_dec [simp]: "format_decimal v = dec (unat v)"
  by (simp add: format_decimal_def format_decimal_loop_dec)

lemma format_signed_dec_int: "- (2 ^ 63) \<le> v \<Longrightarrow> v < 2 ^ 63 \<Longrightarrow> format_signed v = dec_int v"
proof -
  assume v: "- (2 ^ 63) \<le> v" "v < 2 ^ 63"
  have neg: "unat (0 - word_of_int v :: u64) = nat (- v)" if "v < 0"
  proof -
    have "(0 - word_of_int v :: u64) = word_of_int (- v)" by simp
    then have "uint (0 - word_of_int v :: u64) = - v"
      using v that by (simp only: uint_word_of_int_eq) (simp add: take_bit_int_eq_self)
    then show ?thesis by (metis unat_eq_nat_uint)
  qed
  have pos: "unat (word_of_int v :: u64) = nat v" if "\<not> v < 0"
    using v that by (simp add: unat_eq_nat_uint uint_word_of_int_eq take_bit_int_eq_self)
  show ?thesis using neg pos by (simp add: format_signed_def dec_int_def Let_def)
qed

text \<open>Every text that \<^verbatim>\<open>format_int\<close> prints fits the part of its buffer in front of the last byte.\<close>

lemma format_decimal_fits: "length (format_decimal v) < format_int_buffer_size - 1"
proof -
  have "unat v < 10 ^ 20" using unsigned_less [of v, where ?'a = nat] by simp
  then show ?thesis using length_dec_le [of "unat v" 20] by (simp add: format_int_buffer_size_def)
qed

lemma format_signed_fits: "length (format_signed v) \<le> format_int_buffer_size - 1"
  unfolding format_signed_def Let_def
  using format_decimal_fits [of "0 - word_of_int v"] format_decimal_fits [of "word_of_int v"]
  by (simp add: format_int_buffer_size_def)

lemma digit_char_0: "CHR ''0'' = char_of (48 :: nat)"
  by code_simp

lemma pad2_digits: "0 \<le> n \<Longrightarrow> n \<le> 99 \<Longrightarrow>
  pad2 n dest = dest @ [digit_char (nat n div 10), digit_char (nat n mod 10)]"
  by (auto simp: pad2_def digit_char_def digit_char_0 nat_add_distrib nat_div_distrib nat_mod_distrib)

definition zero_pad :: "nat \<Rightarrow> nat \<Rightarrow> string" where
  "zero_pad width n = replicate (width - length (dec n)) (CHR ''0'') @ dec n"

lemma zeroes: "''0000000000000000000'' = replicate 19 (CHR ''0'')"
  by (simp add: numeral_eq_Suc)

lemma pad_uint_64_eq: "width \<le> 19 \<Longrightarrow> pad_uint_64 n width dest = dest @ zero_pad width (unat n)"
  unfolding pad_uint_64_def zeroes count_digits_64_dec zero_pad_def Let_def by (auto simp: min_def)

lemma pad_uint_32_eq: "width \<le> 19 \<Longrightarrow> pad_uint_32 n width dest = dest @ zero_pad width (unat n)"
proof -
  have "unat n < 2 ^ 64" using unsigned_less [of n, where ?'a = nat] by simp
  then have "unat (ucast n :: u64) = unat n" by (simp add: unsigned_ucast_eq take_bit_nat_eq_self)
  then show "width \<le> 19 \<Longrightarrow> pad_uint_32 n width dest = dest @ zero_pad width (unat n)"
    unfolding pad_uint_32_def zeroes count_digits_32_dec zero_pad_def Let_def by (auto simp: min_def)
qed

text \<open>
  C40: Integers are printed in decimal notation, exactly: the digit pairs of \<^verbatim>\<open>format_int\<close> give the decimal digits of
  every 64-bit number, signed or not, within the buffer; and the three ways of counting digits, from the highest
  bit and a table of powers of ten for 64 and for 32 bits, and by division, give the number of these digits.
\<close>

theorem integers_print_decimal:
  "format_decimal n = dec (unat n) \<and> length (format_decimal n) < format_int_buffer_size - 1 \<and>
   format_signed (sint k) = dec_int (sint k) \<and> length (format_signed (sint k)) \<le> format_int_buffer_size - 1 \<and>
   count_digits_64 n = length (format_decimal n) \<and> count_digits_fallback n = count_digits_64 n \<and>
   count_digits_32 h = length (dec (unat h))"
  for n k :: u64 and h :: u32
proof -
  have "- (2 ^ 63) \<le> sint k" "sint k < 2 ^ 63" using sint_range_size [of k] by (simp_all add: word_size)
  then have "format_signed (sint k) = dec_int (sint k)" by (rule format_signed_dec_int)
  moreover have "count_digits_fallback n = count_digits_64 n"
    using count_digits_loop_dec [of "unat n" 1] by (simp add: count_digits_fallback_def count_digits_64_dec)
  ultimately show ?thesis
    using format_decimal_fits [of n] format_signed_fits [of "sint k"]
    by (simp add: count_digits_64_dec count_digits_32_dec)
qed

end
