(* ===== verification/Log_Format.thy ===== *)
theory Log_Format
  imports Log_Message Log_Digits "HOL-Library.Signed_Division"
begin

text \<open>
  The line format of the logging library (\<^verbatim>\<open>src/inc/spdlog/details/pattern_formatter.h\<close> and
  \<^verbatim>\<open>pattern_formatter-inl.h\<close>): one formatter per flag of a pattern, padding, the default line with its
  cached date, the compilation of a pattern into formatters, and the formatter of a sink, which caches the
  broken-down time of the current second.

  The destination buffer is a string. A failed assertion, an access outside a table of names and a null
  pointer taken for text are \<open>None\<close>. \<^verbatim>\<open>localtime\<close> and \<^verbatim>\<open>gmtime\<close> are arguments.
\<close>

section \<open>Broken-down time\<close>

text \<open>The fields of \<^verbatim>\<open>std::tm\<close> that the formatters read.\<close>

record std_tm =
  st_sec :: int
  st_min :: int
  st_hour :: int
  st_mday :: int
  st_mon :: int
  st_year :: int
  st_wday :: int
  st_gmtoff :: int

definition zero_tm :: std_tm where
  "zero_tm = \<lparr>st_sec = 0, st_min = 0, st_hour = 0, st_mday = 0, st_mon = 0, st_year = 0, st_wday = 0, st_gmtoff = 0\<rparr>"

text \<open>\<^verbatim>\<open>duration_cast\<close> rounds towards zero; units are given by their number of nanoseconds.\<close>

definition cast_secs :: "int \<Rightarrow> int" where
  "cast_secs t = t sdiv 1000000000"

definition time_fraction :: "int \<Rightarrow> int \<Rightarrow> int" where
  "time_fraction unit t = t sdiv unit - cast_secs t * (1000000000 div unit)"

section \<open>Padding\<close>

datatype pad_side = pad_left | pad_right | pad_center

record padding_info =
  pi_width :: nat
  pi_side :: pad_side

definition no_padding :: padding_info where
  "no_padding = \<lparr>pi_width = 0, pi_side = pad_left\<rparr>"

definition pi_enabled :: "padding_info \<Rightarrow> bool" where
  "pi_enabled p \<longleftrightarrow> pi_width p \<noteq> 0"

text \<open>There are 64 spaces to take padding from, which an assertion checks.\<close>

definition pad_it :: "nat \<Rightarrow> string \<Rightarrow> string option" where
  "pad_it count dest = (if count \<le> 64 then Some (dest @ replicate count (CHR '' '')) else None)"

text \<open>The constructor writes the padding in front; the second result is what the destructor has to add.\<close>

definition scoped_padder_begin :: "nat \<Rightarrow> padding_info \<Rightarrow> string \<Rightarrow> (string \<times> nat) option" where
  "scoped_padder_begin wrapped_size p dest =
     (if pi_width p \<le> wrapped_size then Some (dest, 0)
      else let total_pad = pi_width p - wrapped_size in
        case pi_side p of
          pad_left \<Rightarrow> do { d \<leftarrow> pad_it total_pad dest; Some (d, 0) }
        | pad_center \<Rightarrow> (let half_pad = total_pad div 2; reminder = total_pad mod 2 in
            do { d \<leftarrow> pad_it half_pad dest; Some (d, half_pad + reminder) })
        | pad_right \<Rightarrow> Some (dest, total_pad))"

definition scoped_padder_end :: "nat \<Rightarrow> string \<Rightarrow> string option" where
  "scoped_padder_end total_pad dest = (if total_pad \<noteq> 0 then pad_it total_pad dest else Some dest)"

datatype padder = scoped_padder | null_scoped_padder

text \<open>A padder around the writing of a field: the template argument \<^verbatim>\<open>ScopedPadder\<close> of the formatters.\<close>

definition with_padder :: "padder \<Rightarrow> nat \<Rightarrow> padding_info \<Rightarrow> (string \<Rightarrow> string option) \<Rightarrow> string \<Rightarrow> string option" where
  "with_padder pd wrapped_size p body dest = (case pd of
     null_scoped_padder \<Rightarrow> body dest
   | scoped_padder \<Rightarrow> do {
       (d, rest) \<leftarrow> scoped_padder_begin wrapped_size p dest;
       d' \<leftarrow> body d;
       scoped_padder_end rest d' })"

section \<open>Formatters of the fields\<close>

text \<open>An element of a table of names; a null pointer taken for text is undefined.\<close>

definition table_at :: "string list \<Rightarrow> int \<Rightarrow> string option" where
  "table_at tbl i = (if 0 \<le> i \<and> i < int (length tbl) then Some (tbl ! nat i) else None)"

definition name_formatter :: "padder \<Rightarrow> padding_info \<Rightarrow> log_msg \<Rightarrow> string \<Rightarrow> string option" where
  "name_formatter pd p msg dest =
     with_padder pd (length (lm_logger_name msg)) p (\<lambda>d. Some (d @ lm_logger_name msg)) dest"

definition level_formatter :: "padder \<Rightarrow> padding_info \<Rightarrow> log_msg \<Rightarrow> string \<Rightarrow> string option" where
  "level_formatter pd p msg dest = (let level_name = level_to_string_view (lm_level msg) in
     with_padder pd (length level_name) p (\<lambda>d. Some (d @ level_name)) dest)"

definition short_level_formatter :: "padder \<Rightarrow> padding_info \<Rightarrow> log_msg \<Rightarrow> string \<Rightarrow> string option" where
  "short_level_formatter pd p msg dest = (let level_name = level_to_short_c_str (lm_level msg) in
     with_padder pd (length level_name) p (\<lambda>d. Some (d @ level_name)) dest)"

definition ampm :: "std_tm \<Rightarrow> string" where
  "ampm t = (if st_hour t \<ge> 12 then ''PM'' else ''AM'')"

definition to12h :: "std_tm \<Rightarrow> int" where
  "to12h t = (if st_hour t > 12 then st_hour t - 12 else st_hour t)"

definition day_names :: "string list" where
  "day_names = [''Sun'', ''Mon'', ''Tue'', ''Wed'', ''Thu'', ''Fri'', ''Sat'']"

definition a_formatter :: "padder \<Rightarrow> padding_info \<Rightarrow> std_tm \<Rightarrow> string \<Rightarrow> string option" where
  "a_formatter pd p tm dest = do {
     field_value \<leftarrow> table_at day_names (st_wday tm);
     with_padder pd (length field_value) p (\<lambda>d. Some (d @ field_value)) dest }"

definition full_days :: "string list" where
  "full_days = [''Sunday'', ''Monday'', ''Tuesday'', ''Wednesday'', ''Thursday'', ''Friday'', ''Saturday'']"

definition A_formatter :: "padder \<Rightarrow> padding_info \<Rightarrow> std_tm \<Rightarrow> string \<Rightarrow> string option" where
  "A_formatter pd p tm dest = do {
     field_value \<leftarrow> table_at full_days (st_wday tm);
     with_padder pd (length field_value) p (\<lambda>d. Some (d @ field_value)) dest }"

definition month_names :: "string list" where
  "month_names = [''Jan'', ''Feb'', ''Mar'', ''Apr'', ''May'', ''Jun'', ''Jul'', ''Aug'', ''Sept'', ''Oct'', ''Nov'', ''Dec'']"

definition b_formatter :: "padder \<Rightarrow> padding_info \<Rightarrow> std_tm \<Rightarrow> string \<Rightarrow> string option" where
  "b_formatter pd p tm dest = do {
     field_value \<leftarrow> table_at month_names (st_mon tm);
     with_padder pd (length field_value) p (\<lambda>d. Some (d @ field_value)) dest }"

definition full_months :: "string list" where
  "full_months = [''January'', ''February'', ''March'', ''April'', ''May'', ''June'', ''July'', ''August'',
     ''September'', ''October'', ''November'', ''December'']"

definition B_formatter :: "padder \<Rightarrow> padding_info \<Rightarrow> std_tm \<Rightarrow> string \<Rightarrow> string option" where
  "B_formatter pd p tm dest = do {
     field_value \<leftarrow> table_at full_months (st_mon tm);
     with_padder pd (length field_value) p (\<lambda>d. Some (d @ field_value)) dest }"

definition c_formatter :: "padder \<Rightarrow> padding_info \<Rightarrow> std_tm \<Rightarrow> string \<Rightarrow> string option" where
  "c_formatter pd p tm dest = with_padder pd 24 p (\<lambda>d. do {
     day \<leftarrow> table_at day_names (st_wday tm);
     month \<leftarrow> table_at month_names (st_mon tm);
     let d = d @ day @ '' '' @ month @ '' '' @ format_signed (st_mday tm) @ '' '';
     let d = pad2 (st_hour tm) d @ '':'';
     let d = pad2 (st_min tm) d @ '':'';
     let d = pad2 (st_sec tm) d @ '' '';
     Some (d @ format_signed (st_year tm + 1900)) }) dest"

definition C_formatter :: "padder \<Rightarrow> padding_info \<Rightarrow> std_tm \<Rightarrow> string \<Rightarrow> string option" where
  "C_formatter pd p tm dest = with_padder pd 2 p (\<lambda>d. Some (pad2 (st_year tm smod 100) d)) dest"

definition D_formatter :: "padder \<Rightarrow> padding_info \<Rightarrow> std_tm \<Rightarrow> string \<Rightarrow> string option" where
  "D_formatter pd p tm dest = with_padder pd 10 p (\<lambda>d.
     let d = pad2 (st_mon tm + 1) d @ ''/'';
         d = pad2 (st_mday tm) d @ ''/''
     in Some (pad2 (st_year tm smod 100) d)) dest"

definition Y_formatter :: "padder \<Rightarrow> padding_info \<Rightarrow> std_tm \<Rightarrow> string \<Rightarrow> string option" where
  "Y_formatter pd p tm dest = with_padder pd 4 p (\<lambda>d. Some (d @ format_signed (st_year tm + 1900))) dest"

definition m_formatter :: "padder \<Rightarrow> padding_info \<Rightarrow> std_tm \<Rightarrow> string \<Rightarrow> string option" where
  "m_formatter pd p tm dest = with_padder pd 2 p (\<lambda>d. Some (pad2 (st_mon tm + 1) d)) dest"

definition d_formatter :: "padder \<Rightarrow> padding_info \<Rightarrow> std_tm \<Rightarrow> string \<Rightarrow> string option" where
  "d_formatter pd p tm dest = with_padder pd 2 p (\<lambda>d. Some (pad2 (st_mday tm) d)) dest"

definition H_formatter :: "padder \<Rightarrow> padding_info \<Rightarrow> std_tm \<Rightarrow> string \<Rightarrow> string option" where
  "H_formatter pd p tm dest = with_padder pd 2 p (\<lambda>d. Some (pad2 (st_hour tm) d)) dest"

definition I_formatter :: "padder \<Rightarrow> padding_info \<Rightarrow> std_tm \<Rightarrow> string \<Rightarrow> string option" where
  "I_formatter pd p tm dest = with_padder pd 2 p (\<lambda>d. Some (pad2 (to12h tm) d)) dest"

definition M_formatter :: "padder \<Rightarrow> padding_info \<Rightarrow> std_tm \<Rightarrow> string \<Rightarrow> string option" where
  "M_formatter pd p tm dest = with_padder pd 2 p (\<lambda>d. Some (pad2 (st_min tm) d)) dest"

definition S_formatter :: "padder \<Rightarrow> padding_info \<Rightarrow> std_tm \<Rightarrow> string \<Rightarrow> string option" where
  "S_formatter pd p tm dest = with_padder pd 2 p (\<lambda>d. Some (pad2 (st_sec tm) d)) dest"

definition e_formatter :: "padder \<Rightarrow> padding_info \<Rightarrow> log_msg \<Rightarrow> string \<Rightarrow> string option" where
  "e_formatter pd p msg dest = (let millis = time_fraction 1000000 (lm_time msg) in
     with_padder pd 3 p (\<lambda>d. Some (pad_uint_32 (word_of_int millis) 3 d)) dest)"

definition f_formatter :: "padder \<Rightarrow> padding_info \<Rightarrow> log_msg \<Rightarrow> string \<Rightarrow> string option" where
  "f_formatter pd p msg dest = (let micros = time_fraction 1000 (lm_time msg) in
     with_padder pd 6 p (\<lambda>d. Some (pad_uint_64 (word_of_int micros) 6 d)) dest)"

definition F_formatter :: "padder \<Rightarrow> padding_info \<Rightarrow> log_msg \<Rightarrow> string \<Rightarrow> string option" where
  "F_formatter pd p msg dest = (let ns = time_fraction 1 (lm_time msg) in
     with_padder pd 9 p (\<lambda>d. Some (pad_uint_64 (word_of_int ns) 9 d)) dest)"

definition E_formatter :: "padder \<Rightarrow> padding_info \<Rightarrow> log_msg \<Rightarrow> string \<Rightarrow> string option" where
  "E_formatter pd p msg dest = with_padder pd 10 p (\<lambda>d. Some (d @ format_signed (cast_secs (lm_time msg)))) dest"

definition p_formatter :: "padder \<Rightarrow> padding_info \<Rightarrow> std_tm \<Rightarrow> string \<Rightarrow> string option" where
  "p_formatter pd p tm dest = with_padder pd 2 p (\<lambda>d. Some (d @ ampm tm)) dest"

definition r_formatter :: "padder \<Rightarrow> padding_info \<Rightarrow> std_tm \<Rightarrow> string \<Rightarrow> string option" where
  "r_formatter pd p tm dest = with_padder pd 11 p (\<lambda>d.
     let d = pad2 (to12h tm) d @ '':'';
         d = pad2 (st_min tm) d @ '':'';
         d = pad2 (st_sec tm) d @ '' ''
     in Some (d @ ampm tm)) dest"

definition R_formatter :: "padder \<Rightarrow> padding_info \<Rightarrow> std_tm \<Rightarrow> string \<Rightarrow> string option" where
  "R_formatter pd p tm dest = with_padder pd 5 p (\<lambda>d.
     let d = pad2 (st_hour tm) d @ '':'' in Some (pad2 (st_min tm) d)) dest"

definition T_formatter :: "padder \<Rightarrow> padding_info \<Rightarrow> std_tm \<Rightarrow> string \<Rightarrow> string option" where
  "T_formatter pd p tm dest = with_padder pd 8 p (\<lambda>d.
     let d = pad2 (st_hour tm) d @ '':'';
         d = pad2 (st_min tm) d @ '':''
     in Some (pad2 (st_sec tm) d)) dest"

definition utc_minutes_offset :: "std_tm \<Rightarrow> int" where
  "utc_minutes_offset tm = st_gmtoff tm sdiv 60"

definition z_formatter :: "padder \<Rightarrow> padding_info \<Rightarrow> std_tm \<Rightarrow> string \<Rightarrow> string option" where
  "z_formatter pd p tm dest = with_padder pd 6 p (\<lambda>d.
     let total_minutes = utc_minutes_offset tm;
         is_negative = total_minutes < 0;
         d = (if is_negative then d @ ''-'' else d @ ''+'');
         total_minutes = (if is_negative then - total_minutes else total_minutes);
         d = pad2 (total_minutes sdiv 60) d @ '':''
     in Some (pad2 (total_minutes smod 60) d)) dest"

definition t_formatter :: "padder \<Rightarrow> padding_info \<Rightarrow> log_msg \<Rightarrow> string \<Rightarrow> string option" where
  "t_formatter pd p msg dest = (let tid = (of_nat (lm_thread_id msg) :: u64) in
     with_padder pd (count_digits_64 tid) p (\<lambda>d. Some (d @ format_decimal tid)) dest)"

definition pid_formatter :: "padder \<Rightarrow> padding_info \<Rightarrow> u32 \<Rightarrow> string \<Rightarrow> string option" where
  "pid_formatter pd p pid dest =
     with_padder pd (count_digits_32 pid) p (\<lambda>d. Some (d @ format_decimal (ucast pid))) dest"

definition v_formatter :: "padder \<Rightarrow> padding_info \<Rightarrow> log_msg \<Rightarrow> string \<Rightarrow> string option" where
  "v_formatter pd p msg dest =
     with_padder pd (length (lm_payload msg)) p (\<lambda>d. Some (d @ lm_payload msg)) dest"

text \<open>Source location: nothing is written for a message without one.\<close>

definition source_location_formatter :: "padder \<Rightarrow> padding_info \<Rightarrow> log_msg \<Rightarrow> string \<Rightarrow> string option" where
  "source_location_formatter pd p msg dest =
     (if source_loc_empty (lm_source msg) then Some dest
      else do {
        filename \<leftarrow> sl_filename (lm_source msg);
        let text_size = (if pi_enabled p
              then length filename + count_digits_32 (word_of_int (sl_line (lm_source msg))) + 1 else 0);
        with_padder pd text_size p
          (\<lambda>d. Some (d @ filename @ '':'' @ format_signed (sl_line (lm_source msg)))) dest })"

definition source_filename_formatter :: "padder \<Rightarrow> padding_info \<Rightarrow> log_msg \<Rightarrow> string \<Rightarrow> string option" where
  "source_filename_formatter pd p msg dest =
     (if source_loc_empty (lm_source msg) then Some dest
      else do {
        filename \<leftarrow> sl_filename (lm_source msg);
        let text_size = (if pi_enabled p then length filename else 0);
        with_padder pd text_size p (\<lambda>d. Some (d @ filename)) dest })"

text \<open>The part of a path behind its last separator.\<close>

definition path_basename :: "string \<Rightarrow> string" where
  "path_basename filename = rev (takeWhile (\<lambda>c. c \<noteq> CHR ''/'') (rev filename))"

definition short_filename_formatter :: "padder \<Rightarrow> padding_info \<Rightarrow> log_msg \<Rightarrow> string \<Rightarrow> string option" where
  "short_filename_formatter pd p msg dest =
     (if source_loc_empty (lm_source msg) then Some dest
      else do {
        path \<leftarrow> sl_filename (lm_source msg);
        let filename = path_basename path;
        let text_size = (if pi_enabled p then length filename else 0);
        with_padder pd text_size p (\<lambda>d. Some (d @ filename)) dest })"

definition source_linenum_formatter :: "padder \<Rightarrow> padding_info \<Rightarrow> log_msg \<Rightarrow> string \<Rightarrow> string option" where
  "source_linenum_formatter pd p msg dest =
     (if source_loc_empty (lm_source msg) then Some dest
      else let field_size = count_digits_32 (word_of_int (sl_line (lm_source msg))) in
        with_padder pd field_size p (\<lambda>d. Some (d @ format_signed (sl_line (lm_source msg)))) dest)"

definition source_funcname_formatter :: "padder \<Rightarrow> padding_info \<Rightarrow> log_msg \<Rightarrow> string \<Rightarrow> string option" where
  "source_funcname_formatter pd p msg dest =
     (if source_loc_empty (lm_source msg) then Some dest
      else do {
        funcname \<leftarrow> sl_funcname (lm_source msg);
        let text_size = (if pi_enabled p then length funcname else 0);
        with_padder pd text_size p (\<lambda>d. Some (d @ funcname)) dest })"

section \<open>The formatter objects\<close>

text \<open>
  The classes derived from \<^verbatim>\<open>flag_formatter\<close>. Those without state of their own are fields; the formatter of
  elapsed time keeps the time of the last message, and the default line keeps the date and time text of the
  second it was last used in.
\<close>

datatype field =
    Name | Level | ShortLevel | Day | FullDay | Month | FullMonth | DateTime | Year2 | ShortDate | Year4 | MonthNum
  | MonthDay | Hour24 | Hour12 | Minute | Second | Millis | Micros | Nanos | EpochSecs | AmPm | Clock12 | Clock24
  | IsoTime | Zone | ThreadId | ProcessId | Payload | SourceLocation | SourceFilename | ShortFilename | SourceLine
  | SourceFunction

datatype flag_formatter =
    field_formatter field padder padding_info
  | elapsed_formatter padder int padding_info int
  | full_formatter padding_info int string
  | ch_formatter char
  | aggregate_formatter string
  | color_start_formatter padding_info
  | color_stop_formatter padding_info

fun format_field :: "u32 \<Rightarrow> field \<Rightarrow> padder \<Rightarrow> padding_info \<Rightarrow> log_msg \<Rightarrow> std_tm \<Rightarrow> string \<Rightarrow> string option" where
  "format_field pid Name pd p msg tm dest = name_formatter pd p msg dest"
| "format_field pid Level pd p msg tm dest = level_formatter pd p msg dest"
| "format_field pid ShortLevel pd p msg tm dest = short_level_formatter pd p msg dest"
| "format_field pid Day pd p msg tm dest = a_formatter pd p tm dest"
| "format_field pid FullDay pd p msg tm dest = A_formatter pd p tm dest"
| "format_field pid Month pd p msg tm dest = b_formatter pd p tm dest"
| "format_field pid FullMonth pd p msg tm dest = B_formatter pd p tm dest"
| "format_field pid DateTime pd p msg tm dest = c_formatter pd p tm dest"
| "format_field pid Year2 pd p msg tm dest = C_formatter pd p tm dest"
| "format_field pid ShortDate pd p msg tm dest = D_formatter pd p tm dest"
| "format_field pid Year4 pd p msg tm dest = Y_formatter pd p tm dest"
| "format_field pid MonthNum pd p msg tm dest = m_formatter pd p tm dest"
| "format_field pid MonthDay pd p msg tm dest = d_formatter pd p tm dest"
| "format_field pid Hour24 pd p msg tm dest = H_formatter pd p tm dest"
| "format_field pid Hour12 pd p msg tm dest = I_formatter pd p tm dest"
| "format_field pid Minute pd p msg tm dest = M_formatter pd p tm dest"
| "format_field pid Second pd p msg tm dest = S_formatter pd p tm dest"
| "format_field pid Millis pd p msg tm dest = e_formatter pd p msg dest"
| "format_field pid Micros pd p msg tm dest = f_formatter pd p msg dest"
| "format_field pid Nanos pd p msg tm dest = F_formatter pd p msg dest"
| "format_field pid EpochSecs pd p msg tm dest = E_formatter pd p msg dest"
| "format_field pid AmPm pd p msg tm dest = p_formatter pd p tm dest"
| "format_field pid Clock12 pd p msg tm dest = r_formatter pd p tm dest"
| "format_field pid Clock24 pd p msg tm dest = R_formatter pd p tm dest"
| "format_field pid IsoTime pd p msg tm dest = T_formatter pd p tm dest"
| "format_field pid Zone pd p msg tm dest = z_formatter pd p tm dest"
| "format_field pid ThreadId pd p msg tm dest = t_formatter pd p msg dest"
| "format_field pid ProcessId pd p msg tm dest = pid_formatter pd p pid dest"
| "format_field pid Payload pd p msg tm dest = v_formatter pd p msg dest"
| "format_field pid SourceLocation pd p msg tm dest = source_location_formatter pd p msg dest"
| "format_field pid SourceFilename pd p msg tm dest = source_filename_formatter pd p msg dest"
| "format_field pid ShortFilename pd p msg tm dest = short_filename_formatter pd p msg dest"
| "format_field pid SourceLine pd p msg tm dest = source_linenum_formatter pd p msg dest"
| "format_field pid SourceFunction pd p msg tm dest = source_funcname_formatter pd p msg dest"

text \<open>The date and time text of the default line, and the line around it.\<close>

definition datetime_text :: "std_tm \<Rightarrow> string" where
  "datetime_text tm =
     (let d = ''['' @ format_signed (st_year tm + 1900) @ ''-'';
          d = pad2 (st_mon tm + 1) d @ ''-'';
          d = pad2 (st_mday tm) d @ '' '';
          d = pad2 (st_hour tm) d @ '':'';
          d = pad2 (st_min tm) d @ '':''
      in pad2 (st_sec tm) d @ ''.'')"

definition full_format :: "int \<Rightarrow> string \<Rightarrow> log_msg \<Rightarrow> std_tm \<Rightarrow> string \<Rightarrow> (int \<times> string \<times> log_msg \<times> string) option" where
  "full_format cache_timestamp cached_datetime msg tm dest =
     (let secs = cast_secs (lm_time msg);
          (ts, dt) = (if cache_timestamp \<noteq> secs \<or> length cached_datetime = 0 then (secs, datetime_text tm)
                      else (cache_timestamp, cached_datetime));
          dest = dest @ dt;
          millis = time_fraction 1000000 (lm_time msg);
          dest = pad_uint_32 (word_of_int millis) 3 dest @ '']'' @ '' '';
          dest = (if length (lm_logger_name msg) > 0 then dest @ ''['' @ lm_logger_name msg @ '']'' @ '' '' else dest);
          dest = dest @ ''['';
          msg = msg\<lparr>lm_color_range_start := length dest\<rparr>;
          dest = dest @ level_to_string_view (lm_level msg);
          msg = msg\<lparr>lm_color_range_end := length dest\<rparr>;
          dest = dest @ '']'' @ '' ''
      in do {
        dest \<leftarrow> (if source_loc_empty (lm_source msg) then Some dest
                 else do {
                   path \<leftarrow> sl_filename (lm_source msg);
                   Some (dest @ ''['' @ path_basename path @ '':'' @ format_signed (sl_line (lm_source msg)) @ '']'' @ '' '') });
        Some (ts, dt, msg, dest @ lm_payload msg) })"

definition elapsed_format :: "padder \<Rightarrow> int \<Rightarrow> padding_info \<Rightarrow> int \<Rightarrow> log_msg \<Rightarrow> string \<Rightarrow> (int \<times> string) option" where
  "elapsed_format pd unit p last_message_time msg dest =
     (let delta = max (lm_time msg - last_message_time) 0;
          delta_units = delta sdiv unit
      in do {
        dest \<leftarrow> with_padder pd 6 p (\<lambda>d. Some (pad_uint_64 (word_of_int delta_units) 6 d)) dest;
        Some (lm_time msg, dest) })"

text \<open>\<^verbatim>\<open>flag_formatter::format\<close>: the formatter after the call, the message (for its colour range) and the buffer.\<close>

fun format_flag :: "u32 \<Rightarrow> flag_formatter \<Rightarrow> log_msg \<Rightarrow> std_tm \<Rightarrow> string \<Rightarrow> (flag_formatter \<times> log_msg \<times> string) option" where
  "format_flag pid (field_formatter f pd p) msg tm dest = do {
     d \<leftarrow> format_field pid f pd p msg tm dest; Some (field_formatter f pd p, msg, d) }"
| "format_flag pid (elapsed_formatter pd unit p prev) msg tm dest = do {
     (prev', d) \<leftarrow> elapsed_format pd unit p prev msg dest; Some (elapsed_formatter pd unit p prev', msg, d) }"
| "format_flag pid (full_formatter p ts dt) msg tm dest = do {
     (ts', dt', msg', d) \<leftarrow> full_format ts dt msg tm dest; Some (full_formatter p ts' dt', msg', d) }"
| "format_flag pid (ch_formatter ch) msg tm dest = Some (ch_formatter ch, msg, dest @ [ch])"
| "format_flag pid (aggregate_formatter str) msg tm dest = Some (aggregate_formatter str, msg, dest @ str)"
| "format_flag pid (color_start_formatter p) msg tm dest =
     Some (color_start_formatter p, msg\<lparr>lm_color_range_start := length dest\<rparr>, dest)"
| "format_flag pid (color_stop_formatter p) msg tm dest =
     Some (color_stop_formatter p, msg\<lparr>lm_color_range_end := length dest\<rparr>, dest)"


section \<open>Patterns\<close>

text \<open>
  \<^verbatim>\<open>handle_flag_\<close>: the formatter of a flag. The formatters of elapsed time start at the present time, an
  argument. A flag that is not known stands for itself.
\<close>

definition handle_flag :: "int \<Rightarrow> padder \<Rightarrow> char \<Rightarrow> padding_info \<Rightarrow> flag_formatter" where
  "handle_flag now pd flag padding =
     (let fld = (\<lambda>f. field_formatter f pd padding); elapsed = (\<lambda>unit. elapsed_formatter pd unit padding now) in
      if flag = CHR ''+'' then full_formatter padding 0 []
      else if flag = CHR ''n'' then fld Name
      else if flag = CHR ''l'' then fld Level
      else if flag = CHR ''L'' then fld ShortLevel
      else if flag = CHR ''t'' then fld ThreadId
      else if flag = CHR ''v'' then fld Payload
      else if flag = CHR ''a'' then fld Day
      else if flag = CHR ''A'' then fld FullDay
      else if flag = CHR ''b'' \<or> flag = CHR ''h'' then fld Month
      else if flag = CHR ''B'' then fld FullMonth
      else if flag = CHR ''c'' then fld DateTime
      else if flag = CHR ''C'' then fld Year2
      else if flag = CHR ''Y'' then fld Year4
      else if flag = CHR ''D'' \<or> flag = CHR ''x'' then fld ShortDate
      else if flag = CHR ''m'' then fld MonthNum
      else if flag = CHR ''d'' then fld MonthDay
      else if flag = CHR ''H'' then fld Hour24
      else if flag = CHR ''I'' then fld Hour12
      else if flag = CHR ''M'' then fld Minute
      else if flag = CHR ''S'' then fld Second
      else if flag = CHR ''e'' then fld Millis
      else if flag = CHR ''f'' then fld Micros
      else if flag = CHR ''F'' then fld Nanos
      else if flag = CHR ''E'' then fld EpochSecs
      else if flag = CHR ''p'' then fld AmPm
      else if flag = CHR ''r'' then fld Clock12
      else if flag = CHR ''R'' then fld Clock24
      else if flag = CHR ''T'' \<or> flag = CHR ''X'' then fld IsoTime
      else if flag = CHR ''z'' then fld Zone
      else if flag = CHR ''P'' then fld ProcessId
      else if flag = CHR ''^'' then color_start_formatter padding
      else if flag = CHR ''$'' then color_stop_formatter padding
      else if flag = CHR ''@'' then fld SourceLocation
      else if flag = CHR ''s'' then fld ShortFilename
      else if flag = CHR ''g'' then fld SourceFilename
      else if flag = CHR ''#'' then fld SourceLine
      else if flag = CHR ''!'' then fld SourceFunction
      else if flag = CHR ''%'' then ch_formatter (CHR ''%'')
      else if flag = CHR ''u'' then elapsed 1
      else if flag = CHR ''i'' then elapsed 1000
      else if flag = CHR ''o'' then elapsed 1000000
      else if flag = CHR ''O'' then elapsed 1000000000
      else aggregate_formatter [CHR ''%'', flag])"

text \<open>
  \<^verbatim>\<open>handle_padspec_\<close>: the padding in front of a flag, and the rest of the pattern. The width is computed in
  \<^verbatim>\<open>size_t\<close>, which wraps around, and then limited to 64.
\<close>

fun padspec_width :: "nat \<Rightarrow> string \<Rightarrow> nat \<times> string" where
  "padspec_width width [] = (width, [])"
| "padspec_width width (c # it) =
     (if is_digit c then padspec_width ((width * 10 + digit_val c) mod 2 ^ 64) it else (width, c # it))"

definition handle_padspec :: "string \<Rightarrow> padding_info \<times> string" where
  "handle_padspec it = (case it of [] \<Rightarrow> (no_padding, [])
   | c # rest \<Rightarrow>
      (let (side, it) = (if c = CHR ''-'' then (pad_right, rest) else if c = CHR ''='' then (pad_center, rest)
                         else (pad_left, it)) in
       case it of
         [] \<Rightarrow> (\<lparr>pi_width = 0, pi_side = side\<rparr>, [])
       | d # it' \<Rightarrow>
          if \<not> is_digit d then (\<lparr>pi_width = 0, pi_side = side\<rparr>, it)
          else let (width, it'') = padspec_width (digit_val d) it'
               in (\<lparr>pi_width = min width 64, pi_side = side\<rparr>, it'')))"

lemma padspec_width_length: "length (snd (padspec_width w s)) \<le> length s"
  by (induction w s rule: padspec_width.induct) (auto intro: le_SucI)

lemma handle_padspec_length: "length (snd (handle_padspec s)) \<le> length s"
  using padspec_width_length
  by (auto simp: handle_padspec_def Let_def split: list.splits if_splits prod.splits) (metis le_SucI snd_conv)+

text \<open>
  \<^verbatim>\<open>compile_pattern_\<close>: the characters between flags are collected (\<open>user_chars\<close>, \<open>None\<close> when there are none)
  and become one formatter in front of the next flag or at the end.
\<close>

definition user_formatter :: "string option \<Rightarrow> flag_formatter list" where
  "user_formatter user_chars = (case user_chars of None \<Rightarrow> [] | Some s \<Rightarrow> [aggregate_formatter s])"

function (sequential) compile_loop :: "int \<Rightarrow> string option \<Rightarrow> string \<Rightarrow> flag_formatter list" where
  "compile_loop now user_chars [] = user_formatter user_chars"
| "compile_loop now user_chars (c # it) =
     (if c = CHR ''%'' then
        user_formatter user_chars @
        (let (padding, it') = handle_padspec it in
         case it' of
           [] \<Rightarrow> []
         | flag # it'' \<Rightarrow>
             handle_flag now (if pi_enabled padding then scoped_padder else null_scoped_padder) flag padding
               # compile_loop now None it'')
      else compile_loop now (Some (case user_chars of None \<Rightarrow> [c] | Some s \<Rightarrow> s @ [c])) it)"
  by pat_completeness auto
termination
proof (relation "measure (\<lambda>(now, u, s). length s)")
  fix now :: int and u :: "string option" and c :: char and it :: string and x padding it' flag it''
  assume h: "x = handle_padspec it" "(padding, it') = x" "it' = flag # it''"
  then have "length it' \<le> length it" using handle_padspec_length [of it] by (metis snd_conv)
  then show "((now, None, it''), (now, u, c # it)) \<in> measure (\<lambda>(now, u, s). length s)" using h by simp
qed auto

definition compile_pattern :: "int \<Rightarrow> string \<Rightarrow> flag_formatter list" where
  "compile_pattern now pattern = compile_loop now None pattern"

section \<open>The formatter of a sink\<close>

datatype pattern_time_type = time_local | time_utc

record pattern_formatter =
  pf_pattern :: string
  pf_eol :: string
  pf_time_type :: pattern_time_type
  pf_cached_tm :: std_tm
  pf_last_log_secs :: int
  pf_formatters :: "flag_formatter list"

definition default_eol :: string where
  "default_eol = [CHR 0x0A]"

definition make_pattern_formatter :: "int \<Rightarrow> string \<Rightarrow> pattern_time_type \<Rightarrow> string \<Rightarrow> pattern_formatter" where
  "make_pattern_formatter now pattern time_type eol =
     \<lparr>pf_pattern = pattern, pf_eol = eol, pf_time_type = time_type, pf_cached_tm = zero_tm, pf_last_log_secs = 0,
      pf_formatters = compile_pattern now pattern\<rparr>"

definition default_pattern_formatter :: "pattern_time_type \<Rightarrow> string \<Rightarrow> pattern_formatter" where
  "default_pattern_formatter time_type eol =
     \<lparr>pf_pattern = ''%+'', pf_eol = eol, pf_time_type = time_type, pf_cached_tm = zero_tm, pf_last_log_secs = 0,
      pf_formatters = [full_formatter no_padding 0 []]\<rparr>"

definition clone_pattern_formatter :: "int \<Rightarrow> pattern_formatter \<Rightarrow> pattern_formatter" where
  "clone_pattern_formatter now f = make_pattern_formatter now (pf_pattern f) (pf_time_type f) (pf_eol f)"

text \<open>The conversions of the C library from seconds since the epoch to broken-down time.\<close>

record time_lib =
  lib_localtime :: "int \<Rightarrow> std_tm"
  lib_gmtime :: "int \<Rightarrow> std_tm"

text \<open>\<^verbatim>\<open>system_clock::to_time_t\<close> rounds towards zero, like the cast to seconds.\<close>

definition get_time :: "time_lib \<Rightarrow> pattern_time_type \<Rightarrow> log_msg \<Rightarrow> std_tm" where
  "get_time lib time_type msg =
     (if time_type = time_local then lib_localtime lib (cast_secs (lm_time msg))
      else lib_gmtime lib (cast_secs (lm_time msg)))"

fun format_flags :: "u32 \<Rightarrow> flag_formatter list \<Rightarrow> log_msg \<Rightarrow> std_tm \<Rightarrow> string \<Rightarrow> (flag_formatter list \<times> log_msg \<times> string) option" where
  "format_flags pid [] msg tm dest = Some ([], msg, dest)"
| "format_flags pid (f # fs) msg tm dest = do {
     (f', msg, dest) \<leftarrow> format_flag pid f msg tm dest;
     (fs', msg, dest) \<leftarrow> format_flags pid fs msg tm dest;
     Some (f' # fs', msg, dest) }"

definition pf_format :: "time_lib \<Rightarrow> u32 \<Rightarrow> pattern_formatter \<Rightarrow> log_msg \<Rightarrow> string \<Rightarrow> (pattern_formatter \<times> log_msg \<times> string) option" where
  "pf_format lib pid pf msg dest =
     (let secs = cast_secs (lm_time msg);
          pf1 = (if secs \<noteq> pf_last_log_secs pf
                 then pf\<lparr>pf_cached_tm := get_time lib (pf_time_type pf) msg, pf_last_log_secs := secs\<rparr> else pf)
      in do {
        (fs, msg, dest) \<leftarrow> format_flags pid (pf_formatters pf1) msg (pf_cached_tm pf1) dest;
        Some (pf1\<lparr>pf_formatters := fs\<rparr>, msg, dest @ pf_eol pf1) })"

end
