(* ===== verification/Log_Lines.thy ===== *)
theory Log_Lines
  imports Log_Format
begin

text \<open>
  What the formatters of \<open>Log_Format\<close> print. Shown: padding never takes more spaces than there are, so that
  a compiled pattern formats every message; a padded field has exactly its width; the default line is the
  line of the pattern that its comment gives; and the two caches of the default formatter never show in its
  lines, except in the first second of the epoch.
\<close>

section \<open>Padding\<close>

lemma with_padder_total:
  assumes "pi_width p \<le> 64" "\<And>d. \<exists>d'. body d = Some d'"
  shows "\<exists>d'. with_padder pd n p body dest = Some d'"
proof (cases pd)
  case null_scoped_padder
  then show ?thesis using assms(2) by (simp add: with_padder_def)
next
  case scoped_padder
  have "\<exists>d1 k. scoped_padder_begin n p dest = Some (d1, k) \<and> k \<le> 64"
    using assms(1) by (cases "pi_side p") (auto simp: scoped_padder_begin_def pad_it_def Let_def)
  then obtain d1 k where b: "scoped_padder_begin n p dest = Some (d1, k)" "k \<le> 64" by blast
  obtain d2 where "body d1 = Some d2" using assms(2) by blast
  then show ?thesis using b scoped_padder
    by (auto simp: with_padder_def scoped_padder_end_def pad_it_def)
qed

text \<open>The spaces on the two sides of a text.\<close>

fun pad_text :: "padding_info \<Rightarrow> string \<Rightarrow> string" where
  "pad_text p s = (let n = pi_width p - length s in case pi_side p of
     pad_left \<Rightarrow> replicate n (CHR '' '') @ s
   | pad_right \<Rightarrow> s @ replicate n (CHR '' '')
   | pad_center \<Rightarrow> replicate (n div 2) (CHR '' '') @ s @ replicate (n - n div 2) (CHR '' ''))"

declare pad_text.simps [simp del]

lemma length_pad_text: "length (pad_text p s) = max (pi_width p) (length s)"
  by (cases "pi_side p") (auto simp: pad_text.simps Let_def)

lemma with_padder_text:
  assumes "pi_width p \<le> 64"
  shows "with_padder scoped_padder (length s) p (\<lambda>d. Some (d @ s)) dest = Some (dest @ pad_text p s)"
proof -
  define n where n: "n = pi_width p - length s"
  have half: "n div 2 + n mod 2 = n - n div 2" by (simp add: minus_div_mult_eq_mod [symmetric])
  have n64: "n \<le> 64" "n div 2 \<le> 64" "n - n div 2 \<le> 64" using assms n by auto
  have z: "n = 0 \<longleftrightarrow> pi_width p \<le> length s" using n by simp
  show ?thesis
  proof (cases "n = 0")
    case True
    then show ?thesis using z n
      by (cases "pi_side p") (simp_all add: with_padder_def scoped_padder_begin_def scoped_padder_end_def pad_text.simps Let_def)
  next
    case False
    then have w: "\<not> pi_width p \<le> length s" using z by simp
    show ?thesis using w n64 False half
      by (cases "pi_side p")
        (simp_all add: with_padder_def scoped_padder_begin_def scoped_padder_end_def pad_it_def pad_text.simps
          n [symmetric] Let_def)
  qed
qed

lemma with_padder_length:
  assumes "pi_width p \<le> 64" "n \<le> pi_width p"
  shows "\<exists>t. with_padder scoped_padder n p (\<lambda>d. Some (d @ s)) dest = Some (dest @ t) \<and>
    length t = pi_width p - n + length s"
proof -
  define k where k: "k = pi_width p - n"
  have k64: "k \<le> 64" using assms k by auto
  then have "k \<le> 64" "k div 2 \<le> 64" "k div 2 + k mod 2 \<le> 64" by linarith+
  moreover have "k div 2 + (k div 2 + k mod 2) = k" by presburger
  moreover have "pi_width p \<le> n \<longleftrightarrow> k = 0" using assms k by auto
  ultimately show ?thesis
    by (cases "pi_side p"; cases "k = 0")
      (auto simp: with_padder_def scoped_padder_begin_def scoped_padder_end_def pad_it_def k [symmetric] Let_def)
qed

lemma padspec_max: "pi_width (fst (handle_padspec s)) \<le> 64"
  by (auto simp: handle_padspec_def no_padding_def Let_def split: list.splits prod.splits)

section \<open>A compiled pattern formats every message\<close>

definition tm_ok :: "std_tm \<Rightarrow> bool" where
  "tm_ok tm \<longleftrightarrow> 0 \<le> st_wday tm \<and> st_wday tm < 7 \<and> 0 \<le> st_mon tm \<and> st_mon tm < 12"

definition msg_ok :: "log_msg \<Rightarrow> bool" where
  "msg_ok m \<longleftrightarrow> source_loc_empty (lm_source m) \<or> (sl_filename (lm_source m) \<noteq> None \<and> sl_funcname (lm_source m) \<noteq> None)"

fun ff_ok :: "flag_formatter \<Rightarrow> bool" where
  "ff_ok (field_formatter f pd p) \<longleftrightarrow> pi_width p \<le> 64"
| "ff_ok (elapsed_formatter pd unit p prev) \<longleftrightarrow> pi_width p \<le> 64"
| "ff_ok _ \<longleftrightarrow> True"

lemma table_at_ok: "0 \<le> i \<Longrightarrow> i < int (length tbl) \<Longrightarrow> \<exists>s. table_at tbl i = Some s"
  by (simp add: table_at_def)

lemmas field_defs =
  name_formatter_def level_formatter_def short_level_formatter_def a_formatter_def A_formatter_def b_formatter_def
  B_formatter_def c_formatter_def C_formatter_def D_formatter_def Y_formatter_def m_formatter_def d_formatter_def
  H_formatter_def I_formatter_def M_formatter_def S_formatter_def e_formatter_def f_formatter_def F_formatter_def
  E_formatter_def p_formatter_def r_formatter_def R_formatter_def T_formatter_def z_formatter_def t_formatter_def
  pid_formatter_def v_formatter_def source_location_formatter_def source_filename_formatter_def
  short_filename_formatter_def source_linenum_formatter_def source_funcname_formatter_def

lemma format_field_total:
  assumes p: "pi_width p \<le> 64" and tm: "tm_ok tm" and m: "msg_ok m"
  shows "\<exists>d. format_field pid f pd p m tm dest = Some d"
proof -
  note t = with_padder_total [OF p, of _ pd _ dest]
  have day: "\<exists>s. table_at day_names (st_wday tm) = Some s" "\<exists>s. table_at full_days (st_wday tm) = Some s"
    "\<exists>s. table_at month_names (st_mon tm) = Some s" "\<exists>s. table_at full_months (st_mon tm) = Some s"
    using tm by (auto intro!: table_at_ok simp: tm_ok_def day_names_def full_days_def month_names_def full_months_def)
  show ?thesis
    using day m by (cases f) (auto simp: field_defs Let_def msg_ok_def intro!: t)
qed

lemma format_flag_total:
  assumes "ff_ok f" "tm_ok tm" "msg_ok m"
  shows "\<exists>f' m' d. format_flag pid f m tm dest = Some (f', m', d) \<and> ff_ok f' \<and> msg_ok m'"
proof (cases f)
  case (field_formatter fl pd p)
  then show ?thesis using assms format_field_total [of p tm m pid fl pd dest] by auto
next
  case (elapsed_formatter pd unit p prev)
  then show ?thesis
    using assms with_padder_total [of p "\<lambda>d. Some (pad_uint_64 (word_of_int (max (lm_time m - prev) 0 sdiv unit)) 6 d)" pd 6 dest]
    by (auto simp: elapsed_format_def Let_def)
next
  case (full_formatter p ts dt)
  then show ?thesis using assms by (auto simp: full_format_def Let_def msg_ok_def)
qed (use assms in \<open>auto simp: msg_ok_def\<close>)

lemma format_flags_total:
  "list_all ff_ok fs \<Longrightarrow> tm_ok tm \<Longrightarrow> msg_ok m \<Longrightarrow>
   \<exists>fs' m' d. format_flags pid fs m tm dest = Some (fs', m', d) \<and> list_all ff_ok fs' \<and> msg_ok m'"
proof (induction fs arbitrary: m dest)
  case (Cons f fs)
  then obtain f' m1 d1 where f: "format_flag pid f m tm dest = Some (f', m1, d1)" "ff_ok f'" "msg_ok m1"
    using format_flag_total [of f tm m pid dest] by auto
  with Cons obtain fs' m2 d2 where "format_flags pid fs m1 tm d1 = Some (fs', m2, d2)" "list_all ff_ok fs'" "msg_ok m2"
    by fastforce
  with f show ?case by simp
qed simp

lemma handle_flag_ok: "pi_width p \<le> 64 \<Longrightarrow> ff_ok (handle_flag now pd c p)"
  by (simp add: handle_flag_def Let_def)

lemma compile_loop_ok: "list_all ff_ok (compile_loop now u s)"
proof (induction now u s rule: compile_loop.induct)
  case (1 now u)
  then show ?case by (simp add: user_formatter_def split: option.split)
next
  case (2 now u c it)
  have u: "list_all ff_ok (user_formatter u)" by (simp add: user_formatter_def split: option.split)
  show ?case
  proof (cases "c = CHR ''%''")
    case True
    obtain p it' where h: "handle_padspec it = (p, it')" by (cases "handle_padspec it")
    have p: "pi_width p \<le> 64" using padspec_max [of it] h by simp
    show ?thesis
    proof (cases it')
      case Nil
      then show ?thesis using True h u by simp
    next
      case (Cons flag it'')
      from "2.IH"(1) [OF True h [symmetric] refl Cons] show ?thesis
        using True h u Cons p handle_flag_ok by simp
    qed
  next
    case False
    then show ?thesis using "2.IH"(2) by simp
  qed
qed

text \<open>A sink formats its messages one after the other, each into an empty buffer.\<close>

fun format_all :: "time_lib \<Rightarrow> u32 \<Rightarrow> pattern_formatter \<Rightarrow> log_msg list \<Rightarrow> (pattern_formatter \<times> string list) option" where
  "format_all lib pid pf [] = Some (pf, [])"
| "format_all lib pid pf (m # ms) = do {
     (pf, m', line) \<leftarrow> pf_format lib pid pf m [];
     (pf, lines) \<leftarrow> format_all lib pid pf ms;
     Some (pf, line # lines) }"

definition pf_ok :: "pattern_formatter \<Rightarrow> bool" where
  "pf_ok pf \<longleftrightarrow> list_all ff_ok (pf_formatters pf) \<and> tm_ok (pf_cached_tm pf)"

definition lib_ok :: "time_lib \<Rightarrow> bool" where
  "lib_ok lib \<longleftrightarrow> (\<forall>t. tm_ok (lib_localtime lib t) \<and> tm_ok (lib_gmtime lib t))"

lemma pf_format_total:
  assumes "pf_ok pf" "lib_ok lib" "msg_ok m"
  shows "\<exists>pf' m' d. pf_format lib pid pf m dest = Some (pf', m', d) \<and> pf_ok pf' \<and> msg_ok m'"
proof -
  define pf1 where d: "pf1 = (if cast_secs (lm_time m) \<noteq> pf_last_log_secs pf
    then pf\<lparr>pf_cached_tm := get_time lib (pf_time_type pf) m, pf_last_log_secs := cast_secs (lm_time m)\<rparr> else pf)"
  have "pf_ok pf1" using assms by (auto simp: d pf_ok_def get_time_def lib_ok_def)
  then obtain fs m' dst where f: "format_flags pid (pf_formatters pf1) m (pf_cached_tm pf1) dest = Some (fs, m', dst)"
    "list_all ff_ok fs" "tm_ok (pf_cached_tm pf1)" "msg_ok m'"
    using format_flags_total [of "pf_formatters pf1" "pf_cached_tm pf1" m pid dest] assms(3) by (auto simp: pf_ok_def)
  have "pf_format lib pid pf m dest = Some (pf1\<lparr>pf_formatters := fs\<rparr>, m', dst @ pf_eol pf1)"
    unfolding pf_format_def Let_def d [symmetric] using f(1) by simp
  moreover have "pf_ok (pf1\<lparr>pf_formatters := fs\<rparr>)" using f by (simp add: pf_ok_def)
  ultimately show ?thesis using f(4) by blast
qed

lemma format_all_total:
  "pf_ok pf \<Longrightarrow> lib_ok lib \<Longrightarrow> list_all msg_ok ms \<Longrightarrow>
   \<exists>pf' lines. format_all lib pid pf ms = Some (pf', lines) \<and> length lines = length ms \<and> pf_ok pf'"
proof (induction ms arbitrary: pf)
  case (Cons m ms)
  then obtain pf1 m' d where f: "pf_format lib pid pf m [] = Some (pf1, m', d)" "pf_ok pf1"
    using pf_format_total [of pf lib m pid "[]"] by auto
  with Cons obtain pf2 lines where "format_all lib pid pf1 ms = Some (pf2, lines)" "length lines = length ms" "pf_ok pf2"
    by fastforce
  with f show ?case by simp
qed simp

text \<open>
  C30: Whatever the pattern, the formatter compiled from it formats every sequence of messages: no padding
  exceeds the 64 spaces that an assertion allows, no table of names is read outside its bounds and no null
  pointer is taken for text. Assumed is that the C library returns weekdays from 0 to 6 and months from 0 to
  11, and that a source location, where a message has one, names its file and function.
\<close>

theorem compiled_pattern_safe:
  assumes "lib_ok lib" "list_all msg_ok ms"
  shows "\<exists>pf' lines. format_all lib pid (make_pattern_formatter now pattern time_type eol) ms = Some (pf', lines) \<and>
    length lines = length ms"
proof -
  have "pf_ok (make_pattern_formatter now pattern time_type eol)"
    using compile_loop_ok by (simp add: pf_ok_def make_pattern_formatter_def compile_pattern_def tm_ok_def zero_tm_def)
  from format_all_total [OF this assms] show ?thesis by blast
qed

text \<open>
  A padded payload (flags \<^verbatim>\<open>%8v\<close>, \<^verbatim>\<open>%-8v\<close>, \<^verbatim>\<open>%=8v\<close>) is the payload between spaces: in front, behind or on both
  sides, as many as bring it to the width of the padding, and none when it is longer. Names and levels likewise.
\<close>

lemma padded_fields:
  assumes "pi_width p \<le> 64"
  shows "v_formatter scoped_padder p msg dest = Some (dest @ pad_text p (lm_payload msg)) \<and>
    name_formatter scoped_padder p msg dest = Some (dest @ pad_text p (lm_logger_name msg)) \<and>
    level_formatter scoped_padder p msg dest = Some (dest @ pad_text p (level_to_string_view (lm_level msg))) \<and>
    length (pad_text p s) = max (pi_width p) (length s)"
  using with_padder_text [OF assms]
  by (simp add: v_formatter_def name_formatter_def level_formatter_def length_pad_text)

definition sample_tm :: std_tm where
  "sample_tm = \<lparr>st_sec = 5, st_min = 4, st_hour = 13, st_mday = 7, st_mon = 1, st_year = 121, st_wday = 0, st_gmtoff = 3600\<rparr>"

definition sample_lib :: time_lib where
  "sample_lib = \<lparr>lib_localtime = (\<lambda>t. sample_tm), lib_gmtime = (\<lambda>t. sample_tm)\<rparr>"

definition sample_msg :: log_msg where
  "sample_msg = make_log_msg \<lparr>env_now = 1612703045123000000, env_thread = 9\<rparr> no_source_loc ''log'' level_info ''hi''"

theorem compiled_pattern_safe_witness:
  "\<exists>pf' lines. format_all sample_lib 1 (make_pattern_formatter 0 ''%=70D %99999999999999999999v %'' time_utc []) [sample_msg, sample_msg] =
    Some (pf', lines) \<and> length lines = length [sample_msg, sample_msg]"
  by (rule compiled_pattern_safe)
    (simp_all add: lib_ok_def tm_ok_def sample_lib_def sample_tm_def msg_ok_def sample_msg_def make_log_msg_def
      no_source_loc_def source_loc_empty_def)

section \<open>The default line\<close>

text \<open>The text of the default line, without caches.\<close>

definition line_text :: "std_tm \<Rightarrow> log_msg \<Rightarrow> string" where
  "line_text tm m = datetime_text tm @ zero_pad 3 (unat (word_of_int (time_fraction 1000000 (lm_time m)) :: u32)) @
     ''] '' @ (if lm_logger_name m = [] then [] else ''['' @ lm_logger_name m @ ''] '') @
     ''['' @ level_to_string_view (lm_level m) @ ''] '' @
     (if source_loc_empty (lm_source m) then []
      else ''['' @ path_basename (the (sl_filename (lm_source m))) @ '':'' @ format_signed (sl_line (lm_source m)) @ ''] '') @
     lm_payload m"

lemma pad2_append: "pad2 n dest = dest @ pad2 n []"
  by (simp add: pad2_def)

lemma datetime_text_nonempty [simp]: "datetime_text tm \<noteq> []"
  by (simp add: datetime_text_def Let_def)

lemma full_format_text:
  assumes "msg_ok m" "dt = [] \<or> ts \<noteq> cast_secs (lm_time m) \<or> dt = datetime_text tm"
  shows "\<exists>m'. full_format ts dt m tm dest = Some (cast_secs (lm_time m), datetime_text tm, m', dest @ line_text tm m)"
  using assms by (auto simp: full_format_def line_text_def Let_def pad_uint_32_eq msg_ok_def)

text \<open>
  The pattern that the default line has: the comment of \<^verbatim>\<open>full_formatter\<close> names the one for a message of a named logger
  without a source location.
\<close>

definition documented_pattern :: string where
  "documented_pattern = ''[%Y-%m-%d %H:%M:%S.%e] [%n] [%l] %v''"

definition full_pattern :: "log_msg \<Rightarrow> string" where
  "full_pattern m = ''[%Y-%m-%d %H:%M:%S.%e] '' @ (if lm_logger_name m = [] then [] else ''[%n] '') @ ''[%l] '' @
     (if source_loc_empty (lm_source m) then [] else ''[%s:%#] '') @ ''%v''"

lemma full_pattern_documented:
  "lm_logger_name m \<noteq> [] \<Longrightarrow> source_loc_empty (lm_source m) \<Longrightarrow> full_pattern m = documented_pattern"
  by (simp add: full_pattern_def documented_pattern_def)

lemmas compile_defs = compile_pattern_def handle_padspec_def is_digit_def handle_flag_def user_formatter_def pi_enabled_def

lemmas fields_text = field_defs with_padder_def pad_uint_32_eq datetime_text_def Let_def
  pad2_append [of _ "_ @ _"] pad2_append [of _ "_ # _"]

lemma full_pattern_text:
  assumes "msg_ok m"
  shows "\<exists>fs m1. format_flags pid (compile_pattern now (full_pattern m)) m tm dest = Some (fs, m1, dest @ line_text tm m)"
proof (cases "lm_logger_name m = []"; cases "source_loc_empty (lm_source m)")
  assume c: "lm_logger_name m = []" "source_loc_empty (lm_source m)"
  show ?thesis using c by (simp add: full_pattern_def compile_defs Let_def) (simp add: fields_text line_text_def c)
next
  assume c: "lm_logger_name m = []" "\<not> source_loc_empty (lm_source m)"
  then obtain f where "sl_filename (lm_source m) = Some f" using assms by (auto simp: msg_ok_def)
  then show ?thesis using c by (simp add: full_pattern_def compile_defs Let_def) (simp add: fields_text line_text_def c)
next
  assume c: "lm_logger_name m \<noteq> []" "source_loc_empty (lm_source m)"
  show ?thesis using c by (simp add: full_pattern_def compile_defs Let_def) (simp add: fields_text line_text_def c)
next
  assume c: "lm_logger_name m \<noteq> []" "\<not> source_loc_empty (lm_source m)"
  then obtain f where "sl_filename (lm_source m) = Some f" using assms by (auto simp: msg_ok_def)
  then show ?thesis using c by (simp add: full_pattern_def compile_defs Let_def) (simp add: fields_text line_text_def c)
qed

text \<open>The line of the documented pattern, for every message.\<close>

definition documented_text :: "std_tm \<Rightarrow> log_msg \<Rightarrow> string" where
  "documented_text tm m = datetime_text tm @ zero_pad 3 (unat (word_of_int (time_fraction 1000000 (lm_time m)) :: u32)) @
     ''] '' @ ''['' @ lm_logger_name m @ ''] '' @ ''['' @ level_to_string_view (lm_level m) @ ''] '' @ lm_payload m"

lemma documented_pattern_text:
  "\<exists>fs m1. format_flags pid (compile_pattern now documented_pattern) m tm dest = Some (fs, m1, dest @ documented_text tm m)"
  by (simp add: documented_pattern_def compile_defs Let_def) (simp add: fields_text documented_text_def)

lemma level_text: "\<exists>c cs. level_to_string_view l = c # cs \<and> c \<noteq> CHR '']''"
  by (cases l) (simp_all add: level_to_string_view_def level_string_views_def eval_nat_numeral)

lemma documented_text_eq:
  "line_text tm m = documented_text tm m \<longleftrightarrow> lm_logger_name m \<noteq> [] \<and> source_loc_empty (lm_source m)"
  using level_text [of "lm_level m"] by (auto simp: line_text_def documented_text_def)

text \<open>
  C31: The default line, which a hand-written formatter makes with a cache of the date, is for every message the line
  of the pattern \<^verbatim>\<open>[%Y-%m-%d %H:%M:%S.%e] [%n] [%l] [%s:%#] %v\<close>, without the part of the name for a logger
  that has none, and without the part of the source location for a message that has none. It is the line of
  the pattern \<^verbatim>\<open>[%Y-%m-%d %H:%M:%S.%e] [%n] [%l] %v\<close> that the comment gives exactly when the logger has a name and the
  message no source location. Assumed is that a source location names its file, and that the cache, if it is for
  this second, holds its date.
\<close>

theorem full_line_is_pattern:
  assumes "msg_ok m" "dt = [] \<or> ts \<noteq> cast_secs (lm_time m) \<or> dt = datetime_text tm"
  shows "\<exists>ts' dt' m1 d fs m2 fs' m3 d'. full_format ts dt m tm dest = Some (ts', dt', m1, d) \<and>
    format_flags pid (compile_pattern now (full_pattern m)) m tm dest = Some (fs, m2, d) \<and>
    format_flags pid (compile_pattern now documented_pattern) m tm dest = Some (fs', m3, d') \<and>
    (d = d' \<longleftrightarrow> lm_logger_name m \<noteq> [] \<and> source_loc_empty (lm_source m))"
  using full_format_text [OF assms, of dest] full_pattern_text [OF assms(1), of pid now tm dest]
    documented_pattern_text [of pid now m tm dest] documented_text_eq [of tm m]
  by (metis same_append_eq)

theorem full_line_is_pattern_witness:
  "\<exists>ts' dt' m1 d fs m2 fs' m3 d'. full_format 0 [] (sample_msg\<lparr>lm_logger_name := []\<rparr>) sample_tm [] = Some (ts', dt', m1, d) \<and>
    format_flags 1 (compile_pattern 0 ''[%Y-%m-%d %H:%M:%S.%e] [%l] %v'') (sample_msg\<lparr>lm_logger_name := []\<rparr>) sample_tm [] = Some (fs, m2, d) \<and>
    format_flags 1 (compile_pattern 0 documented_pattern) (sample_msg\<lparr>lm_logger_name := []\<rparr>) sample_tm [] = Some (fs', m3, d') \<and> d \<noteq> d'"
proof -
  let ?m = "sample_msg\<lparr>lm_logger_name := []\<rparr>"
  have m: "msg_ok ?m" "lm_logger_name ?m = []" "source_loc_empty (lm_source ?m)"
    by (simp_all add: msg_ok_def sample_msg_def make_log_msg_def no_source_loc_def source_loc_empty_def)
  then have p: "full_pattern ?m = ''[%Y-%m-%d %H:%M:%S.%e] [%l] %v''" by (simp add: full_pattern_def)
  from full_line_is_pattern [OF m(1), of "[]" 0 sample_tm "[]" 1 0, unfolded p m(2)] show ?thesis by auto
qed

text \<open>
  The caches of the default formatter: the broken-down time of the last second, and the date text of the last
  second. After the first message both belong to the second of the last message.
\<close>

definition pf_fresh :: "time_lib \<Rightarrow> pattern_formatter \<Rightarrow> bool" where
  "pf_fresh lib pf \<longleftrightarrow> (\<exists>p ts dt. pf_formatters pf = [full_formatter p ts dt] \<and>
     (pf_last_log_secs pf \<noteq> 0 \<longrightarrow> pf_cached_tm pf = (if pf_time_type pf = time_local
        then lib_localtime lib (pf_last_log_secs pf) else lib_gmtime lib (pf_last_log_secs pf))) \<and>
     (dt = [] \<or> (ts \<noteq> 0 \<and> dt = datetime_text (if pf_time_type pf = time_local then lib_localtime lib ts else lib_gmtime lib ts))))"

lemma pf_format_fresh:
  assumes "pf_fresh lib pf" "msg_ok m" "cast_secs (lm_time m) \<noteq> 0"
  shows "\<exists>pf' m'. pf_format lib pid pf m dest =
      Some (pf', m', dest @ line_text (get_time lib (pf_time_type pf) m) m @ pf_eol pf) \<and>
    pf_fresh lib pf' \<and> pf_time_type pf' = pf_time_type pf \<and> pf_eol pf' = pf_eol pf"
proof -
  obtain p ts dt where f: "pf_formatters pf = [full_formatter p ts dt]"
    and c: "pf_last_log_secs pf \<noteq> 0 \<longrightarrow> pf_cached_tm pf = (if pf_time_type pf = time_local
        then lib_localtime lib (pf_last_log_secs pf) else lib_gmtime lib (pf_last_log_secs pf))"
    and dt: "dt = [] \<or> (ts \<noteq> 0 \<and> dt = datetime_text (if pf_time_type pf = time_local then lib_localtime lib ts else lib_gmtime lib ts))"
    using assms(1) by (auto simp: pf_fresh_def)
  define secs tm where d: "secs = cast_secs (lm_time m)" "tm = get_time lib (pf_time_type pf) m"
  define pf1 where pf1: "pf1 = (if secs \<noteq> pf_last_log_secs pf
    then pf\<lparr>pf_cached_tm := tm, pf_last_log_secs := secs\<rparr> else pf)"
  have s: "pf_last_log_secs pf1 = secs" "pf_cached_tm pf1 = tm" "pf_time_type pf1 = pf_time_type pf"
    "pf_eol pf1 = pf_eol pf" "pf_formatters pf1 = [full_formatter p ts dt]"
    using c assms(3) f by (auto simp: pf1 d get_time_def)
  have "dt = [] \<or> ts \<noteq> cast_secs (lm_time m) \<or> dt = datetime_text tm"
    using dt by (auto simp: d get_time_def)
  from full_format_text [OF assms(2) this, of dest] obtain m' where
    ff: "full_format ts dt m tm dest = Some (secs, datetime_text tm, m', dest @ line_text tm m)" unfolding d by blast
  let ?pf = "pf1\<lparr>pf_formatters := [full_formatter p secs (datetime_text tm)]\<rparr>"
  have "pf_format lib pid pf m dest = Some (?pf, m', dest @ line_text tm m @ pf_eol pf)"
    unfolding pf_format_def Let_def d(1) [symmetric] d(2) [symmetric] pf1 [symmetric] s(2,4,5) using ff by simp
  moreover have "pf_fresh lib ?pf"
    using s(1-3) assms(3) by (auto simp: pf_fresh_def d get_time_def)
  ultimately show ?thesis using s unfolding d(2) by auto
qed

lemma format_all_fresh:
  "pf_fresh lib pf \<Longrightarrow> list_all (\<lambda>m. msg_ok m \<and> cast_secs (lm_time m) \<noteq> 0) ms \<Longrightarrow>
   \<exists>pf'. format_all lib pid pf ms =
     Some (pf', map (\<lambda>m. line_text (get_time lib (pf_time_type pf) m) m @ pf_eol pf) ms)"
proof (induction ms arbitrary: pf)
  case (Cons m ms)
  from pf_format_fresh [of lib pf m pid "[]"] Cons.prems obtain pf' m' where
    f: "pf_format lib pid pf m [] = Some (pf', m', line_text (get_time lib (pf_time_type pf) m) m @ pf_eol pf)"
      "pf_fresh lib pf'" "pf_time_type pf' = pf_time_type pf" "pf_eol pf' = pf_eol pf" by auto
  from Cons.IH [OF f(2)] Cons.prems f show ?case by auto
qed simp

text \<open>
  C32: The lines of the default formatter show no trace of its caches: every message that is not stamped with
  the first second of the epoch, and whose source location, if it has one, names its file, gets the line of its own
  date and time, whatever was formatted before it.
\<close>

theorem default_lines:
  assumes "list_all (\<lambda>m. msg_ok m \<and> cast_secs (lm_time m) \<noteq> 0) ms"
  shows "\<exists>pf'. format_all lib pid (default_pattern_formatter time_type eol) ms =
    Some (pf', map (\<lambda>m. line_text (get_time lib time_type m) m @ eol) ms)"
proof -
  have "pf_fresh lib (default_pattern_formatter time_type eol)"
    by (simp add: pf_fresh_def default_pattern_formatter_def)
  from format_all_fresh [OF this assms, of pid] show ?thesis by (simp add: default_pattern_formatter_def)
qed

theorem default_lines_witness:
  "\<exists>pf'. format_all sample_lib 1 (default_pattern_formatter time_local []) [sample_msg, sample_msg] =
    Some (pf', map (\<lambda>m. line_text (get_time sample_lib time_local m) m @ []) [sample_msg, sample_msg])"
  by (rule default_lines)
    (simp add: sample_msg_def make_log_msg_def no_source_loc_def source_loc_empty_def msg_ok_def cast_secs_def signed_divide_int_def)

text \<open>
  In the first second of the epoch a new formatter takes its empty cache for that of the right second:
  the line is dated with the zeroed structure, day 0 of January 1900.
\<close>

lemma epoch_line_wrong:
  assumes "cast_secs (lm_time m) = 0" "msg_ok m"
  shows "\<exists>pf' m'. pf_format lib pid (default_pattern_formatter time_type eol) m [] =
    Some (pf', m', line_text zero_tm m @ eol) \<and> take 20 (line_text zero_tm m) = ''[1900-01-00 00:00:00''"
proof -
  have "datetime_text zero_tm = ''[1900-01-00 00:00:00.''"
    by code_simp
  then have "take 20 (line_text zero_tm m) = ''[1900-01-00 00:00:00''"
    by (simp add: line_text_def)
  moreover have "\<exists>m'. full_format 0 [] m zero_tm [] = Some (0, datetime_text zero_tm, m', line_text zero_tm m)"
    using full_format_text [of m "[]" 0 zero_tm "[]"] assms by simp
  ultimately show ?thesis using assms(1) by (auto simp: pf_format_def default_pattern_formatter_def Let_def)
qed

text \<open>
  The short date (flag \<^verbatim>\<open>%D\<close>) writes eight characters but announces ten to its padder, so that a width of
  nine or ten pads nothing and every larger width comes out two characters short.
\<close>

lemma short_date_short:
  assumes "0 \<le> st_mon tm" "st_mon tm < 12" "0 \<le> st_mday tm" "st_mday tm \<le> 31" "0 \<le> st_year tm" "pi_width p \<le> 64"
    "10 \<le> pi_width p"
  shows "\<exists>t. D_formatter scoped_padder p tm dest = Some (dest @ t) \<and> length t = pi_width p - 2"
proof -
  define u where t: "u = pad2 (st_mon tm + 1) [] @ ''/'' @ pad2 (st_mday tm) [] @ ''/'' @ pad2 (st_year tm smod 100) []"
  have y: "0 \<le> st_year tm smod 100" "st_year tm smod 100 \<le> 99"
    using assms(5) by (auto simp: smod_int_alt_def sgn_if intro: zmod_le_nonneg_dividend)
  have "length u = 8" unfolding t using assms(1-4) y by (simp add: pad2_digits)
  moreover have "D_formatter scoped_padder p tm dest = with_padder scoped_padder 10 p (\<lambda>d. Some (d @ u)) dest"
    unfolding D_formatter_def t Let_def
  proof (rule arg_cong [of _ _ "\<lambda>b. with_padder scoped_padder 10 p b dest"], rule ext)
    fix d
    show "Some (pad2 (st_year tm smod 100) (pad2 (st_mday tm) (pad2 (st_mon tm + 1) d @ ''/'') @ ''/'')) =
      Some (d @ pad2 (st_mon tm + 1) [] @ ''/'' @ pad2 (st_mday tm) [] @ ''/'' @ pad2 (st_year tm smod 100) [])"
      using pad2_append [of "st_mon tm + 1" d] by (simp add: pad2_append [of _ "_ @ _"])
  qed
  ultimately show ?thesis using with_padder_length [OF assms(6,7), of u dest] assms(7) by auto
qed

end
