(* ===== verification/Log_File.thy ===== *)
theory Log_File
  imports Prelude "HOL-Library.Monad_Syntax" "HOL-Library.Sublist"
begin

text \<open>
  Log files (\<^verbatim>\<open>src/inc/spdlog/details/os-inl.h\<close>, \<^verbatim>\<open>details/file_helper.h\<close> and
  \<^verbatim>\<open>details/file_helper-inl.h\<close>): the containing directory is created, the file is opened with five
  attempts, text is written through the buffer of the C library, and file names are split at their extension.

  The file system is a record of directories and files under normalised paths (no links, no dot components).
  System calls are numbered, and the argument \<open>fault\<close> says which of them fail: \<open>None\<close> is success, \<open>Some n\<close> a
  failure after \<open>n\<close> bytes where the call transfers bytes. A call that fails for its own reasons, for instance
  \<^verbatim>\<open>mkdir\<close> below a directory that does not exist, fails in any case.
\<close>

section \<open>Paths and the file system\<close>

fun path_split :: "string \<Rightarrow> string list" where
  "path_split [] = [[]]"
| "path_split (c # s) = (if c = CHR ''/'' then [] # path_split s
     else case path_split s of [] \<Rightarrow> [[c]] | t # ts \<Rightarrow> (c # t) # ts)"

type_synonym path = "bool \<times> string list"

definition canon :: "string \<Rightarrow> path" where
  "canon p = (p \<noteq> [] \<and> hd p = CHR ''/'', filter (\<lambda>t. t \<noteq> []) (path_split p))"

record world =
  w_dirs :: "path list"
  w_files :: "path \<Rightarrow> string option"
  w_calls :: nat
  w_console :: string
  w_bufsize :: nat
  w_spill :: "nat \<Rightarrow> nat"

definition is_dir :: "world \<Rightarrow> path \<Rightarrow> bool" where
  "is_dir w c \<longleftrightarrow> snd c = [] \<or> c \<in> set (w_dirs w)"

definition parent :: "path \<Rightarrow> path" where
  "parent c = (fst c, butlast (snd c))"

definition path_exists :: "string \<Rightarrow> world \<Rightarrow> bool" where
  "path_exists p w \<longleftrightarrow> p \<noteq> [] \<and> (is_dir w (canon p) \<or> w_files w (canon p) \<noteq> None)"

definition next_call :: "world \<Rightarrow> world" where
  "next_call w = w\<lparr>w_calls := w_calls w + 1\<rparr>"

definition sys_mkdir :: "(nat \<Rightarrow> nat option) \<Rightarrow> string \<Rightarrow> world \<Rightarrow> bool \<times> world" where
  "sys_mkdir fault p w =
     (if fault (w_calls w) \<noteq> None \<or> p = [] \<or> path_exists p w \<or> \<not> is_dir w (parent (canon p)) then (False, next_call w)
      else (True, next_call (w\<lparr>w_dirs := canon p # w_dirs w\<rparr>)))"

text \<open>
  A stream of the C library: the file it writes to and what its buffer holds. The buffer takes \<open>w_bufsize\<close> bytes. Text that
  does not fit makes the library write: at least so much that the rest fits, and at most all; how much is up to the
  library, and \<open>w_spill\<close> says it for each call.
\<close>

record FILE =
  f_path :: path
  f_pending :: string

definition sys_fopen :: "(nat \<Rightarrow> nat option) \<Rightarrow> string \<Rightarrow> bool \<Rightarrow> world \<Rightarrow> FILE option \<times> world" where
  "sys_fopen fault p trunc w =
     (let c = canon p in
      if fault (w_calls w) \<noteq> None \<or> p = [] \<or> is_dir w c \<or> \<not> is_dir w (parent c) then (None, next_call w)
      else (Some \<lparr>f_path = c, f_pending = []\<rparr>,
            next_call (w\<lparr>w_files := (w_files w)(c := Some (if trunc then []
              else case w_files w c of None \<Rightarrow> [] | Some s \<Rightarrow> s))\<rparr>)))"

definition file_text :: "path \<Rightarrow> world \<Rightarrow> string" where
  "file_text p w = (case w_files w p of None \<Rightarrow> [] | Some s \<Rightarrow> s)"

definition spilled :: "nat \<Rightarrow> world \<Rightarrow> nat" where
  "spilled n w = (if n \<le> w_bufsize w then 0 else min n (max (n - w_bufsize w) (w_spill w (w_calls w))))"

definition sys_fwrite :: "(nat \<Rightarrow> nat option) \<Rightarrow> string \<Rightarrow> FILE \<Rightarrow> world \<Rightarrow> nat \<times> FILE \<times> world" where
  "sys_fwrite fault buf f w =
     (let n = (case fault (w_calls w) of None \<Rightarrow> length buf | Some n \<Rightarrow> min n (length buf));
          text = f_pending f @ take n buf;
          k = spilled (length text) w;
          w' = (if k = 0 then w else w\<lparr>w_files := (w_files w)(f_path f := Some (file_text (f_path f) w @ take k text))\<rparr>)
      in (n, f\<lparr>f_pending := drop k text\<rparr>, next_call w'))"

definition sys_fflush :: "(nat \<Rightarrow> nat option) \<Rightarrow> FILE \<Rightarrow> world \<Rightarrow> FILE \<times> world" where
  "sys_fflush fault f w =
     (let n = (case fault (w_calls w) of None \<Rightarrow> length (f_pending f) | Some n \<Rightarrow> n);
          old = (case w_files w (f_path f) of None \<Rightarrow> [] | Some s \<Rightarrow> s)
      in (f\<lparr>f_pending := drop n (f_pending f)\<rparr>,
          next_call (w\<lparr>w_files := (w_files w)(f_path f := Some (old @ take n (f_pending f)))\<rparr>)))"

definition sys_fclose :: "(nat \<Rightarrow> nat option) \<Rightarrow> FILE \<Rightarrow> world \<Rightarrow> world" where
  "sys_fclose fault f w = snd (sys_fflush fault f w)"

section \<open>Path functions of the library\<close>

text \<open>The position of the last occurrence of a character, as \<^verbatim>\<open>rfind\<close> and \<^verbatim>\<open>find_last_of\<close> give it.\<close>

definition rfind :: "char \<Rightarrow> string \<Rightarrow> nat option" where
  "rfind c s = (if c \<in> set s then Some (length s - 1 - length (takeWhile (\<lambda>x. x \<noteq> c) (rev s))) else None)"

text \<open>The first occurrence at or behind a position, as \<^verbatim>\<open>find\<close> gives it.\<close>

definition find_from :: "char \<Rightarrow> string \<Rightarrow> nat \<Rightarrow> nat option" where
  "find_from c s off = (if c \<in> set (drop off s) then Some (off + length (takeWhile (\<lambda>x. x \<noteq> c) (drop off s))) else None)"

definition dir_name :: "string \<Rightarrow> string" where
  "dir_name p = (case rfind (CHR ''/'') p of None \<Rightarrow> [] | Some pos \<Rightarrow> take pos p)"

definition token_end :: "string \<Rightarrow> nat \<Rightarrow> nat" where
  "token_end p off = (case find_from (CHR ''/'') p off of None \<Rightarrow> length p | Some pos \<Rightarrow> pos)"

lemma token_end_ge: "off \<le> length p \<Longrightarrow> off \<le> token_end p off"
  by (simp add: token_end_def find_from_def)

function create_dir_loop :: "(nat \<Rightarrow> nat option) \<Rightarrow> string \<Rightarrow> nat \<Rightarrow> world \<Rightarrow> bool \<times> world" where
  "create_dir_loop fault p search_offset w =
     (let token_pos = token_end p search_offset;
          subdir = take token_pos p;
          (ok, w') = (if subdir \<noteq> [] \<and> \<not> path_exists subdir w then sys_mkdir fault subdir w else (True, w))
      in if \<not> ok then (False, w')
         else if token_pos + 1 < length p then create_dir_loop fault p (token_pos + 1) w'
         else (True, w'))"
  by pat_completeness auto
termination
proof (relation "measure (\<lambda>(fault, p, off, w). length p - off)")
  fix fault :: "nat \<Rightarrow> nat option" and p :: string and off :: nat and w :: world and tp :: nat and subdir x ok w'
  assume h: "tp = token_end p off" "tp + 1 < length p"
  have "off \<le> tp"
  proof (cases "off \<le> length p")
    case True
    then show ?thesis using token_end_ge h by simp
  next
    case False
    then have "tp = length p" using h by (simp add: token_end_def find_from_def)
    then show ?thesis using h by simp
  qed
  then show "((fault, p, tp + 1, w'), (fault, p, off, w)) \<in> measure (\<lambda>(fault, p, off, w). length p - off)"
    using h by simp
qed auto

declare create_dir_loop.simps [simp del]

definition create_dir :: "(nat \<Rightarrow> nat option) \<Rightarrow> string \<Rightarrow> world \<Rightarrow> bool \<times> world" where
  "create_dir fault p w =
     (if path_exists p w then (True, w)
      else if p = [] then (False, w)
      else create_dir_loop fault p 0 w)"

definition split_by_extension :: "string \<Rightarrow> string \<times> string" where
  "split_by_extension fname = (case rfind (CHR ''.'') fname of
     None \<Rightarrow> (fname, [])
   | Some ext_index \<Rightarrow>
       if ext_index = 0 \<or> ext_index = length fname - 1 then (fname, [])
       else case rfind (CHR ''/'') fname of
         None \<Rightarrow> (take ext_index fname, drop ext_index fname)
       | Some folder_index \<Rightarrow>
           if folder_index \<ge> ext_index - 1 then (fname, [])
           else (take ext_index fname, drop ext_index fname))"

section \<open>The file helper\<close>

text \<open>Exceptions: a text, or a text to which the library appends the message of \<^verbatim>\<open>errno\<close>.\<close>

datatype spdlog_ex = ex_text string | ex_errno string

record file_helper =
  fh_fd :: "FILE option"
  fh_filename :: string

definition new_file_helper :: file_helper where
  "new_file_helper = \<lparr>fh_fd = None, fh_filename = []\<rparr>"

definition fh_close :: "(nat \<Rightarrow> nat option) \<Rightarrow> file_helper \<Rightarrow> world \<Rightarrow> file_helper \<times> world" where
  "fh_close fault fh w = (case fh_fd fh of None \<Rightarrow> (fh, w) | Some f \<Rightarrow> (fh\<lparr>fh_fd := None\<rparr>, sys_fclose fault f w))"

definition open_tries :: nat where
  "open_tries = 5"

fun fh_open_loop :: "(nat \<Rightarrow> nat option) \<Rightarrow> string \<Rightarrow> bool \<Rightarrow> nat \<Rightarrow> world \<Rightarrow> FILE option \<times> world" where
  "fh_open_loop fault fname trunc 0 w = (None, w)"
| "fh_open_loop fault fname trunc (Suc tries) w =
     (let (_, w1) = create_dir fault (dir_name fname) w;
          (fd, w2) = sys_fopen fault fname trunc w1
      in case fd of Some f \<Rightarrow> (Some f, w2) | None \<Rightarrow> fh_open_loop fault fname trunc tries w2)"

definition fh_open :: "(nat \<Rightarrow> nat option) \<Rightarrow> string \<Rightarrow> bool \<Rightarrow> file_helper \<Rightarrow> world \<Rightarrow> spdlog_ex option \<times> file_helper \<times> world" where
  "fh_open fault fname trunc fh w =
     (let (fh, w) = fh_close fault fh w;
          fh = fh\<lparr>fh_filename := fname\<rparr>;
          (fd, w) = fh_open_loop fault fname trunc open_tries w;
          fh = fh\<lparr>fh_fd := fd\<rparr>
      in (case fd of Some _ \<Rightarrow> None
          | None \<Rightarrow> Some (ex_errno (''Failed opening file '' @ fname @ '' for writing'')), fh, w))"

definition fh_reopen :: "(nat \<Rightarrow> nat option) \<Rightarrow> bool \<Rightarrow> file_helper \<Rightarrow> world \<Rightarrow> spdlog_ex option \<times> file_helper \<times> world" where
  "fh_reopen fault trunc fh w =
     (if fh_filename fh = [] then (Some (ex_text ''Failed re opening file - was not opened before''), fh, w)
      else fh_open fault (fh_filename fh) trunc fh w)"

text \<open>
  Flushing and writing need an open stream. Without one \<^verbatim>\<open>fwrite\<close> is handed a null pointer; \<^verbatim>\<open>fflush\<close> of a null
  pointer flushes all streams of the process, which is outside the model.
\<close>

definition fh_flush :: "(nat \<Rightarrow> nat option) \<Rightarrow> file_helper \<Rightarrow> world \<Rightarrow> (file_helper \<times> world) option" where
  "fh_flush fault fh w = do {
     f \<leftarrow> fh_fd fh;
     let (f', w') = sys_fflush fault f w;
     Some (fh\<lparr>fh_fd := Some f'\<rparr>, w') }"

definition fh_write :: "(nat \<Rightarrow> nat option) \<Rightarrow> string \<Rightarrow> file_helper \<Rightarrow> world \<Rightarrow> (spdlog_ex option \<times> file_helper \<times> world) option" where
  "fh_write fault buf fh w = do {
     f \<leftarrow> fh_fd fh;
     let (n, f', w') = sys_fwrite fault buf f w;
     Some (if n \<noteq> length buf then Some (ex_errno (''Failed writing to file '' @ fh_filename fh)) else None,
           fh\<lparr>fh_fd := Some f'\<rparr>, w') }"

text \<open>A write that does not fail: what the file and the buffer hold together grows by the text.\<close>

lemma fh_write_buffers:
  assumes nf: "\<And>k. fault k = None" and fd: "fh_fd fh = Some \<lparr>f_path = p, f_pending = pend\<rparr>"
  obtains pend' w' where "fh_write fault d fh w = Some (None, fh\<lparr>fh_fd := Some \<lparr>f_path = p, f_pending = pend'\<rparr>\<rparr>, w')"
    "file_text p w' @ pend' = file_text p w @ pend @ d" "prefix (file_text p w) (file_text p w')"
    "\<forall>q. q \<noteq> p \<longrightarrow> w_files w' q = w_files w q" "w_files w p \<noteq> None \<longrightarrow> w_files w' p \<noteq> None" "w_dirs w' = w_dirs w"
    "w_bufsize w' = w_bufsize w" "length pend' \<le> w_bufsize w"
    "length pend + length d \<le> w_bufsize w \<longrightarrow> w_files w' = w_files w"
proof -
  define k where "k = spilled (length pend + length d) w"
  define w1 where "w1 = (if k = 0 then w else w\<lparr>w_files := (w_files w)(p := Some (file_text p w @ take k (pend @ d)))\<rparr>)"
  have t: "file_text p w1 = file_text p w @ take k (pend @ d)" by (simp add: w1_def file_text_def)
  have k: "length pend + length d \<le> w_bufsize w \<longrightarrow> k = 0" "length pend + length d - k \<le> w_bufsize w"
    by (auto simp: k_def spilled_def)
  have t': "file_text p (next_call w1) = file_text p w1" by (simp add: file_text_def next_call_def)
  have e: "fh_write fault d fh w = Some (None, fh\<lparr>fh_fd := Some \<lparr>f_path = p, f_pending = drop k (pend @ d)\<rparr>\<rparr>, next_call w1)"
    using nf fd by (simp add: fh_write_def sys_fwrite_def k_def [symmetric] w1_def Let_def)
  show thesis
    by (rule that [OF e])
      (use k in \<open>simp_all only: t' t append_assoc append_take_drop_id prefixI, auto simp: w1_def next_call_def\<close>)
qed

definition fh_size :: "file_helper \<Rightarrow> world \<Rightarrow> spdlog_ex + nat" where
  "fh_size fh w = (case fh_fd fh of
     None \<Rightarrow> Inl (ex_text (''Cannot use size() on closed file '' @ fh_filename fh))
   | Some f \<Rightarrow> Inr (case w_files w (f_path f) of None \<Rightarrow> 0 | Some s \<Rightarrow> length s))"


section \<open>Creating directories\<close>

definition comps :: "string \<Rightarrow> string list" where
  "comps s = filter (\<lambda>t. t \<noteq> []) (path_split s)"

lemma path_split_nonempty [simp]: "path_split s \<noteq> []"
  by (induction s) (auto split: list.split)

lemma path_split_sep: "path_split (a @ CHR ''/'' # b) = path_split a @ path_split b"
proof (induction a)
  case (Cons c a)
  then show ?case by (cases "path_split a") auto
qed simp

lemma path_split_plain: "CHR ''/'' \<notin> set s \<Longrightarrow> path_split s = [s]"
  by (induction s) auto

lemma comps_sep: "comps (a @ CHR ''/'' # b) = comps a @ comps b"
  by (simp add: comps_def path_split_sep)

lemma comps_plain: "CHR ''/'' \<notin> set s \<Longrightarrow> comps s = (if s = [] then [] else [s])"
  by (simp add: comps_def path_split_plain)

lemma comps_Nil [simp]: "comps [] = []"
  by (simp add: comps_def)

lemma canon_comps: "canon p = (p \<noteq> [] \<and> hd p = CHR ''/'', comps p)"
  by (simp add: canon_def comps_def)

text \<open>The part of the path up to the next separator: what was treated before, and one more component.\<close>

lemma take_token_end:
  assumes "off \<le> length p"
  shows "take (token_end p off) p = take off p @ takeWhile (\<lambda>c. c \<noteq> CHR ''/'') (drop off p)"
proof -
  let ?t = "takeWhile (\<lambda>c. c \<noteq> CHR ''/'') (drop off p)"
  have tk: "take (length ?t) (drop off p) = ?t" by (rule takeWhile_eq_take [symmetric])
  show ?thesis
  proof (cases "CHR ''/'' \<in> set (drop off p)")
    case True
    then show ?thesis using tk assms by (simp add: token_end_def find_from_def take_add)
  next
    case False
    then have "?t = drop off p" unfolding takeWhile_eq_all_conv by auto
    then show ?thesis using False by (simp only: token_end_def find_from_def) simp
  qed
qed

lemma token_end_le: "off \<le> length p \<Longrightarrow> token_end p off \<le> length p"
  using length_takeWhile_le [of "\<lambda>c. c \<noteq> CHR ''/''" "drop off p"] by (auto simp: token_end_def find_from_def)

lemma token_end_sep:
  assumes "off \<le> length p" "token_end p off < length p"
  shows "p ! token_end p off = CHR ''/'' \<and>
    p = take (token_end p off) p @ CHR ''/'' # drop (token_end p off + 1) p"
proof -
  have s: "CHR ''/'' \<in> set (drop off p)" using assms(2) by (auto simp: token_end_def find_from_def split: if_splits)
  then obtain t r where t: "drop off p = t @ CHR ''/'' # r" "CHR ''/'' \<notin> set t" by (metis split_list_first)
  then have "token_end p off = off + length t"
    using s by (simp add: token_end_def find_from_def takeWhile_append_stop)
  moreover have "p ! (off + length t) = CHR ''/''" using t(1) assms(1) by (metis nth_append_length nth_drop)
  ultimately show ?thesis using assms(2) id_take_nth_drop [of "off + length t" p] by simp
qed

lemma comps_take_token:
  assumes "off \<le> length p" "off = 0 \<or> p ! (off - 1) = CHR ''/''"
  shows "comps (take (token_end p off) p) =
    comps (take off p) @ comps (takeWhile (\<lambda>c. c \<noteq> CHR ''/'') (drop off p))"
proof (cases "off = 0")
  case True
  then show ?thesis using take_token_end [of 0 p] by simp
next
  case False
  then have "take off p = take (off - 1) p @ ''/''"
    using assms take_Suc_conv_app_nth [of "off - 1" p] by simp
  then show ?thesis using take_token_end [OF assms(1)] by (simp add: comps_sep)
qed

text \<open>No file lies on the way to the directory.\<close>

definition way_free :: "string \<Rightarrow> world \<Rightarrow> bool" where
  "way_free p w \<longleftrightarrow> (\<forall>n \<le> length (comps p). w_files w (p \<noteq> [] \<and> hd p = CHR ''/'', take n (comps p)) = None)"

text \<open>
  How a world grows when directories are made: nothing is lost, no file changes, and the new directories have
  at most \<open>n\<close> components.
\<close>

definition grown :: "nat \<Rightarrow> world \<Rightarrow> world \<Rightarrow> bool" where
  "grown n w w' \<longleftrightarrow> set (w_dirs w) \<subseteq> set (w_dirs w') \<and> w_files w' = w_files w \<and> w_console w' = w_console w \<and>
     (\<forall>c \<in> set (w_dirs w'). c \<in> set (w_dirs w) \<or> length (snd c) \<le> n)"

lemma grown_refl [simp]: "grown n w w"
  by (simp add: grown_def)

lemma grown_trans: "grown n a b \<Longrightarrow> grown n b c \<Longrightarrow> grown n a c"
  unfolding grown_def by auto

lemma grown_is_dir: "grown n w w' \<Longrightarrow> is_dir w c \<Longrightarrow> is_dir w' c"
  by (auto simp: grown_def is_dir_def)

lemma grown_no_dir: "grown n w w' \<Longrightarrow> \<not> is_dir w c \<Longrightarrow> n < length (snd c) \<Longrightarrow> \<not> is_dir w' c"
  by (auto simp: grown_def is_dir_def)

lemma make_subdir:
  assumes nf: "\<And>k. fault k = None" and d: "d = canon s" and s: "s \<noteq> []"
    and par: "is_dir w (parent d)" and free: "w_files w d = None" and n: "length (snd d) \<le> n"
    and r: "(ok, w') = (if s \<noteq> [] \<and> \<not> path_exists s w then sys_mkdir fault s w else (True, w))"
  shows "ok \<and> grown n w w' \<and> is_dir w' d"
proof (cases "path_exists s w")
  case True
  then show ?thesis using r d free by (auto simp: path_exists_def)
next
  case False
  then have "sys_mkdir fault s w = (True, next_call (w\<lparr>w_dirs := d # w_dirs w\<rparr>))"
    using s nf par d by (simp add: sys_mkdir_def)
  then have "ok" "w' = next_call (w\<lparr>w_dirs := d # w_dirs w\<rparr>)" using r False s by simp_all
  moreover have "set (w_dirs w) \<subseteq> insert d (set (w_dirs w))" by blast
  ultimately show ?thesis using n by (simp add: grown_def next_call_def is_dir_def)
qed

lemma create_dir_loop_ok:
  "off \<le> length p \<Longrightarrow> off = 0 \<or> p ! (off - 1) = CHR ''/'' \<Longrightarrow> p \<noteq> [] \<Longrightarrow> way_free p w \<Longrightarrow>
    is_dir w (hd p = CHR ''/'', comps (take off p)) \<Longrightarrow> \<forall>k. fault k = None \<Longrightarrow>
    \<exists>w'. create_dir_loop fault p off w = (True, w') \<and> grown (length (comps p)) w w' \<and> is_dir w' (canon p)"
proof (induction fault p off w rule: create_dir_loop.induct)
  case (1 fault p off w)
  define tp tok where d: "tp = token_end p off" "tok = takeWhile (\<lambda>c. c \<noteq> CHR ''/'') (drop off p)"
  let ?D = "(hd p = CHR ''/'', comps (take tp p))"
  note off = "1.prems"(1) and free = "1.prems"(4)
  have c: "comps (take tp p) = comps (take off p) @ (if tok = [] then [] else [tok])"
  proof -
    have "CHR ''/'' \<notin> set tok" unfolding d by (metis set_takeWhileD)
    then show ?thesis using comps_take_token [OF "1.prems"(1,2)] comps_plain [of tok] unfolding d by simp
  qed
  have le: "tp \<le> length p" unfolding d by (rule token_end_le [OF off])
  have sep: "p ! tp = CHR ''/''" "p = take tp p @ CHR ''/'' # drop (tp + 1) p" if "tp < length p"
    using token_end_sep [OF off] that unfolding d by auto
  have pre: "take (length (comps (take tp p))) (comps p) = comps (take tp p)"
  proof (cases "tp < length p")
    case True
    show ?thesis by (subst (2) sep(2) [OF True]) (simp only: comps_sep append_eq_conv_conj [symmetric], simp)
  qed (use le in simp)
  have len: "length (snd ?D) \<le> length (comps p)"
    using arg_cong [OF pre, of length] by (simp only: length_take snd_conv)
  obtain ok w1 where r: "(ok, w1) = (if take tp p \<noteq> [] \<and> \<not> path_exists (take tp p) w
      then sys_mkdir fault (take tp p) w else (True, w))" by (metis surj_pair)
  have sub: "ok \<and> grown (length (comps p)) w w1 \<and> is_dir w1 ?D"
  proof (cases "take tp p = []")
    case True
    then have "is_dir w ?D" by (simp only: comps_Nil is_dir_def snd_conv) simp
    moreover have "ok \<and> w1 = w" using r True by simp
    ultimately show ?thesis by auto
  next
    case False
    then have can: "canon (take tp p) = ?D" by (auto simp: canon_comps)
    show ?thesis
    proof (cases "tok = []")
      case True
      then have dir: "is_dir w ?D" using c "1.prems"(5) by simp
      then have "path_exists (take tp p) w" using False can by (simp add: path_exists_def)
      then have "ok \<and> w1 = w" using r by simp
      then show ?thesis using dir by auto
    next
      case tok: False
      have par: "is_dir w (parent ?D)" using c tok "1.prems"(5) by (simp add: parent_def)
      have "w_files w (p \<noteq> [] \<and> hd p = CHR ''/'', take (length (comps (take tp p))) (comps p)) = None"
        using free len unfolding way_free_def snd_conv by blast
      then have "w_files w ?D = None" unfolding pre using "1.prems"(3) by (simp only: simp_thms)
      from make_subdir [where fault = fault, OF "1.prems"(6) [rule_format] can [symmetric] False par this len r] show ?thesis .
    qed
  qed
  have unf: "create_dir_loop fault p off w =
    (if tp + 1 < length p then create_dir_loop fault p (tp + 1) w1 else (True, w1))"
    by (subst create_dir_loop.simps, unfold Let_def, fold d(1), fold r) (use sub in simp)
  show ?case
  proof (cases "tp + 1 < length p")
    case True
    then have lt: "tp < length p" by simp
    have "comps (take (tp + 1) p) = comps (take tp p)"
      using sep(1) [OF lt] lt comps_sep [of "take tp p" "[]"] by (simp add: take_Suc_conv_app_nth)
    moreover have "way_free p w1" using free sub by (simp add: way_free_def grown_def)
    ultimately have "\<exists>w'. create_dir_loop fault p (tp + 1) w1 = (True, w') \<and> grown (length (comps p)) w1 w' \<and> is_dir w' (canon p)"
      using "1.IH" [OF d(1) refl refl r _ True _ _ "1.prems"(3) _ _ "1.prems"(6)] sub True sep(1) [OF lt] by simp
    then show ?thesis using unf True sub grown_trans by auto
  next
    case False
    have "comps p = comps (take tp p)"
    proof (cases "tp < length p")
      case True
      then have "drop (tp + 1) p = []" using False by simp
      then show ?thesis using sep(2) [OF True] comps_sep [of "take tp p" "[]"] by simp
    qed (use le in simp)
    then show ?thesis using unf False sub "1.prems"(3) by (simp add: canon_comps)
  qed
qed


lemma create_dir_ok:
  assumes "\<And>k. fault k = None" "p \<noteq> []" "way_free p w"
  shows "\<exists>w'. create_dir fault p w = (True, w') \<and> grown (length (comps p)) w w' \<and> is_dir w' (canon p)"
proof (cases "path_exists p w")
  case True
  have "w_files w (canon p) = None" using assms(3) unfolding way_free_def canon_comps by (metis order_refl take_all)
  then show ?thesis using True by (auto simp: create_dir_def path_exists_def)
next
  case False
  have "is_dir w (hd p = CHR ''/'', comps (take 0 p))" by (simp add: is_dir_def)
  from create_dir_loop_ok [OF _ _ assms(2,3) this, of fault] show ?thesis
    using False assms(1,2) by (auto simp: create_dir_def)
qed

section \<open>Opening\<close>

lemma rfind_Some:
  assumes "rfind c s = Some i"
  shows "i < length s \<and> s ! i = c \<and> c \<notin> set (drop (Suc i) s)"
proof -
  have "c \<in> set (rev s)" using assms by (auto simp: rfind_def split: if_splits)
  then obtain t r where t: "rev s = t @ c # r" "c \<notin> set t" by (metis split_list_first)
  then have s: "s = rev r @ c # rev t" by (metis rev_append rev.simps(2) rev_rev_ident append_assoc append_Cons append_Nil)
  have "i = length r" using assms t by (auto simp: rfind_def takeWhile_append_stop s split: if_splits)
  then show ?thesis using t(2) by (simp add: s nth_append)
qed

lemma rfind_None: "rfind c s = None \<longleftrightarrow> c \<notin> set s"
  by (simp add: rfind_def)

text \<open>The name of a file that does not end with a separator: its directory, and one more component.\<close>

lemma comps_file:
  assumes "fname \<noteq> []" "last fname \<noteq> CHR ''/''"
  shows "\<exists>b. b \<noteq> [] \<and> comps fname = comps (dir_name fname) @ [b]"
proof (cases "rfind (CHR ''/'') fname")
  case None
  then have "dir_name fname = []" "CHR ''/'' \<notin> set fname" by (simp_all add: dir_name_def rfind_None [symmetric])
  then show ?thesis using assms by (simp add: comps_plain)
next
  case (Some i)
  note r = rfind_Some [OF Some]
  have f: "fname = take i fname @ CHR ''/'' # drop (Suc i) fname" using r id_take_nth_drop by metis
  have ne: "drop (Suc i) fname \<noteq> []"
  proof
    assume "drop (Suc i) fname = []"
    with f have "last fname = CHR ''/''" by (metis last_snoc)
    with assms(2) show False by simp
  qed
  have "comps fname = comps (take i fname) @ [drop (Suc i) fname]"
    by (subst f) (use comps_plain [of "drop (Suc i) fname"] r ne in \<open>simp only: comps_sep if_False, simp\<close>)
  then show ?thesis using Some ne by (auto simp: dir_name_def)
qed

lemma parent_file:
  assumes "fname \<noteq> []" "last fname \<noteq> CHR ''/''"
  shows "parent (canon fname) = (hd fname = CHR ''/'', comps (dir_name fname))"
  using comps_file [OF assms] assms(1) by (auto simp: parent_def canon_comps)

lemma hd_dir_name: "dir_name fname \<noteq> [] \<Longrightarrow> hd (dir_name fname) = hd fname"
  by (auto simp: dir_name_def split: option.splits)

text \<open>
  When no system call fails and no file is in the way, opening a log file creates its directory with all
  directories leading to it and opens the file at the first attempt: what the file holds is kept, or dropped
  when it is to be truncated.
\<close>

text \<open>Opening leaves the size of the buffers alone.\<close>

lemma create_dir_loop_bufsize: "w_bufsize (snd (create_dir_loop fault p off w)) = w_bufsize w"
proof (induction fault p off w rule: create_dir_loop.induct)
  case (1 fault p off w)
  obtain ok w' where m: "(if take (token_end p off) p \<noteq> [] \<and> \<not> path_exists (take (token_end p off) p) w
      then sys_mkdir fault (take (token_end p off) p) w else (True, w)) = (ok, w')" (is "?m = _") by (cases ?m)
  then have b: "w_bufsize w' = w_bufsize w" by (auto simp: sys_mkdir_def next_call_def split: if_splits)
  show ?case
    using "1.IH" [OF refl refl m [symmetric] refl] m b
    by (subst create_dir_loop.simps) (simp add: Let_def split: prod.split)
qed

lemma fh_open_loop_bufsize: "w_bufsize (snd (fh_open_loop fault fname trunc n w)) = w_bufsize w"
proof (induction n arbitrary: w)
  case (Suc n)
  obtain ok w1 where c: "create_dir fault (dir_name fname) w = (ok, w1)" by (cases "create_dir fault (dir_name fname) w")
  then have b1: "w_bufsize w1 = w_bufsize w"
    using create_dir_loop_bufsize [of fault "dir_name fname" 0 w] by (auto simp: create_dir_def split: if_splits)
  obtain r w2 where f: "sys_fopen fault fname trunc w1 = (r, w2)" by (cases "sys_fopen fault fname trunc w1")
  then have "w_bufsize w2 = w_bufsize w1" by (auto simp: sys_fopen_def Let_def next_call_def split: if_splits)
  then show ?case using Suc.IH [of w2] b1 by (simp add: c f split: option.split)
qed simp

lemma fh_open_bufsize: "fh_open fault fname trunc fh w = (r, fh', w') \<Longrightarrow> w_bufsize w' = w_bufsize w"
  using fh_open_loop_bufsize [of fault fname trunc open_tries "snd (fh_close fault fh w)"]
  by (auto simp: fh_open_def fh_close_def sys_fclose_def sys_fflush_def next_call_def Let_def split: prod.splits option.splits)

lemma fh_open_creates:
  assumes nf: "\<And>k. fault k = None" and f: "fname \<noteq> []" "last fname \<noteq> CHR ''/''"
    and free: "way_free (dir_name fname) w" and nd: "\<not> is_dir w (canon fname)"
  shows "\<exists>w'. fh_open fault fname trunc new_file_helper w =
      (None, \<lparr>fh_fd = Some \<lparr>f_path = canon fname, f_pending = []\<rparr>, fh_filename = fname\<rparr>, w') \<and>
    (dir_name fname \<noteq> [] \<longrightarrow> is_dir w' (canon (dir_name fname))) \<and>
    w_files w' = (w_files w)(canon fname \<mapsto> if trunc then [] else case w_files w (canon fname) of None \<Rightarrow> [] | Some s \<Rightarrow> s)"
proof -
  obtain b where b: "b \<noteq> []" "comps fname = comps (dir_name fname) @ [b]" using comps_file [OF f] by blast
  have par: "parent (canon fname) = (hd fname = CHR ''/'', comps (dir_name fname))" by (rule parent_file [OF f])
  obtain ok w1 where c: "create_dir fault (dir_name fname) w = (ok, w1)" and g: "grown (length (comps (dir_name fname))) w w1"
    and d: "dir_name fname \<noteq> [] \<Longrightarrow> is_dir w1 (canon (dir_name fname))"
  proof (cases "dir_name fname = []")
    case True
    then show ?thesis using that [of False w] by (simp add: create_dir_def path_exists_def)
  next
    case False
    from create_dir_ok [where fault = fault, OF nf False free] that show ?thesis by auto
  qed
  have nd1: "\<not> is_dir w1 (canon fname)"
    using grown_no_dir [OF g nd] b by (simp add: canon_comps)
  have pd: "is_dir w1 (parent (canon fname))"
    using par d hd_dir_name [of fname] by (cases "dir_name fname = []") (auto simp: canon_comps is_dir_def)
  have files: "w_files w1 = w_files w" using g by (simp add: grown_def)
  let ?w = "next_call (w1\<lparr>w_files := (w_files w1)(canon fname := Some (if trunc then []
              else case w_files w1 (canon fname) of None \<Rightarrow> [] | Some s \<Rightarrow> s))\<rparr>)"
  have "sys_fopen fault fname trunc w1 = (Some \<lparr>f_path = canon fname, f_pending = []\<rparr>, ?w)"
    using nf f(1) nd1 pd by (simp add: sys_fopen_def Let_def)
  then have "fh_open_loop fault fname trunc (Suc 4) w = (Some \<lparr>f_path = canon fname, f_pending = []\<rparr>, ?w)"
    unfolding fh_open_loop.simps(2) c by simp
  then have "fh_open fault fname trunc new_file_helper w =
      (None, \<lparr>fh_fd = Some \<lparr>f_path = canon fname, f_pending = []\<rparr>, fh_filename = fname\<rparr>, ?w)"
    by (simp add: fh_open_def fh_close_def new_file_helper_def open_tries_def numeral_eq_Suc del: fh_open_loop.simps)
  moreover have "dir_name fname \<noteq> [] \<longrightarrow> is_dir ?w (canon (dir_name fname))"
    using d by (simp add: is_dir_def next_call_def)
  ultimately show ?thesis using files by (simp add: next_call_def)
qed

text \<open>
  When the directory of a log file exists and the file can be opened but for failing calls, opening makes at
  most five attempts: it throws exactly when all five fail, and then the stream is closed.
\<close>

lemma fh_open_loop_retries:
  assumes "path_exists (dir_name fname) w \<or> dir_name fname = []" "fname \<noteq> []" "\<not> is_dir w (canon fname)"
    "is_dir w (parent (canon fname))"
  shows "fst (fh_open_loop fault fname trunc n w) = None \<longleftrightarrow> (\<forall>i < n. fault (w_calls w + i) \<noteq> None)"
  using assms
proof (induction n arbitrary: w)
  case (Suc n)
  have c: "\<exists>ok. create_dir fault (dir_name fname) w = (ok, w)"
    using Suc.prems(1) by (auto simp: create_dir_def path_exists_def)
  then obtain ok where ok: "create_dir fault (dir_name fname) w = (ok, w)" by blast
  show ?case
  proof (cases "fault (w_calls w)")
    case None
    then have "\<exists>f w'. sys_fopen fault fname trunc w = (Some f, w')"
      using Suc.prems by (simp add: sys_fopen_def Let_def)
    then have "fst (fh_open_loop fault fname trunc (Suc n) w) \<noteq> None" using ok by auto
    then show ?thesis using None by (metis add.right_neutral zero_less_Suc)
  next
    case (Some x)
    then have f: "sys_fopen fault fname trunc w = (None, next_call w)" by (simp add: sys_fopen_def Let_def)
    have "fst (fh_open_loop fault fname trunc n (next_call w)) = None \<longleftrightarrow>
        (\<forall>i < n. fault (w_calls (next_call w) + i) \<noteq> None)"
      using Suc.prems by (intro Suc.IH) (auto simp: next_call_def path_exists_def is_dir_def)
    then show ?thesis using f ok Some by (auto simp: next_call_def less_Suc_eq_0_disj)
  qed
qed simp

lemma fh_open_retries:
  assumes "path_exists (dir_name fname) w \<or> dir_name fname = []" "fname \<noteq> []" "\<not> is_dir w (canon fname)"
    "is_dir w (parent (canon fname))" "fh_fd fh = None" "fh_open fault fname trunc fh w = (ex, fh', w')"
  shows "(ex \<noteq> None \<longleftrightarrow> (\<forall>i < 5. fault (w_calls w + i) \<noteq> None)) \<and> (ex \<noteq> None \<longleftrightarrow> fh_fd fh' = None) \<and>
    fh_filename fh' = fname"
proof -
  obtain fd w1 where o: "fh_open_loop fault fname trunc open_tries w = (fd, w1)" by (metis surj_pair)
  have "fd = None \<longleftrightarrow> (\<forall>i < 5. fault (w_calls w + i) \<noteq> None)"
    using fh_open_loop_retries [OF assms(1-4), of fault trunc open_tries] o by (simp add: open_tries_def)
  then show ?thesis using assms(5,6) o by (auto simp: fh_open_def fh_close_def Let_def split: option.splits)
qed

section \<open>File names\<close>

text \<open>
  Splitting a file name at its extension loses nothing: base and extension together are the name, and an
  extension is a dot and at least one more character, without a further dot or separator, behind a base that
  neither is empty nor ends with a separator.
\<close>

lemma split_by_extension_correct:
  assumes "split_by_extension fname = (base, ext)"
  shows "base @ ext = fname \<and>
    (ext \<noteq> [] \<longrightarrow> base \<noteq> [] \<and> last base \<noteq> CHR ''/'' \<and>
       (\<exists>e. ext = CHR ''.'' # e \<and> e \<noteq> [] \<and> CHR ''.'' \<notin> set e \<and> CHR ''/'' \<notin> set e))"
proof (cases "ext = []")
  case True
  then show ?thesis using assms by (auto simp: split_by_extension_def split: option.splits if_splits)
next
  case False
  then obtain i where i: "rfind (CHR ''.'') fname = Some i" "i \<noteq> 0" "i \<noteq> length fname - 1"
      "base = take i fname" "ext = drop i fname"
    and j: "\<And>j. rfind (CHR ''/'') fname = Some j \<Longrightarrow> j < i - 1"
    using assms by (auto simp: split_by_extension_def split: option.splits if_splits)
  note r = rfind_Some [OF i(1)]
  have e: "ext = CHR ''.'' # drop (Suc i) fname" using r i(5) by (metis Cons_nth_drop_Suc)
  have noslash: "fname ! k \<noteq> CHR ''/''" if "i - 1 \<le> k" "k < length fname" for k
  proof
    assume k: "fname ! k = CHR ''/''"
    then have "CHR ''/'' \<in> set fname" using that(2) by (metis nth_mem)
    then obtain j' where j': "rfind (CHR ''/'') fname = Some j'" by (metis rfind_None option.exhaust)
    with j have lt: "j' < i - 1" by simp
    have "fname ! k \<in> set (drop (Suc j') fname)"
      using that lt by (auto simp: in_set_conv_nth intro!: exI [of _ "k - Suc j'"])
    then show False using rfind_Some [OF j'] k by simp
  qed
  have "last base = fname ! (i - 1)" using i(2,4) r by (subst last_conv_nth) (auto simp: min_def)
  moreover have "CHR ''/'' \<notin> set (drop (Suc i) fname)"
    using noslash by (auto simp: in_set_conv_nth)
  moreover have "fname ! (i - 1) \<noteq> CHR ''/''" using r by (intro noslash) auto
  moreover have "base @ ext = fname" using i(4,5) by simp
  moreover have "base \<noteq> []" "drop (Suc i) fname \<noteq> []" using i r by auto
  ultimately show ?thesis using e r by simp
qed

text \<open>The examples of the comment.\<close>

lemma split_examples:
  "split_by_extension ''mylog.txt'' = (''mylog'', ''.txt'')"
  "split_by_extension ''mylog'' = (''mylog'', [])"
  "split_by_extension ''mylog.'' = (''mylog.'', [])"
  "split_by_extension ''/dir1/dir2/mylog.txt'' = (''/dir1/dir2/mylog'', ''.txt'')"
  "split_by_extension ''.mylog'' = (''.mylog'', [])"
  "split_by_extension ''my_folder/.mylog'' = (''my_folder/.mylog'', [])"
  "split_by_extension ''my_folder/.mylog.txt'' = (''my_folder/.mylog'', ''.txt'')"
  by (simp_all add: split_by_extension_def rfind_def)

end
