(* ===== verification/Log_Logger.thy ===== *)
theory Log_Logger
  imports Log_Lines Log_File
begin

text \<open>
  Sinks, loggers and the registry of the logging library (\<^verbatim>\<open>src/inc/spdlog/sinks/\<close>, \<^verbatim>\<open>logger.h\<close>,
  \<^verbatim>\<open>logger-inl.h\<close>, \<^verbatim>\<open>details/registry.h\<close>, \<^verbatim>\<open>details/registry-inl.h\<close>, \<^verbatim>\<open>details/synchronous_factory.h\<close>).

  Loggers and sinks are shared pointers: they live in two lists of the state and are named by their position,
  so that a change through one holder is seen by the others. A message is passed from sink to sink with the
  colour range that the formatters write into it. Exceptions are values; \<open>None\<close> is undefined behaviour.
\<close>

section \<open>Sinks\<close>

text \<open>What the library calls outside itself: time conversion, process number, failing system calls.\<close>

record log_lib =
  ll_time :: time_lib
  ll_pid :: u32
  ll_fault :: "nat \<Rightarrow> nat option"

definition esc :: "string \<Rightarrow> string" where
  "esc s = CHR 0x1B # s"

definition color_reset :: string where
  "color_reset = esc ''[m''"

text \<open>The colours that the constructor of \<^verbatim>\<open>ansicolor_sink\<close> gives to the levels.\<close>

primrec default_color :: "level_enum \<Rightarrow> string" where
  "default_color level_trace = esc ''[37m''"
| "default_color level_debug = esc ''[36m''"
| "default_color level_info = esc ''[32m''"
| "default_color level_warn = esc ''[33m'' @ esc ''[1m''"
| "default_color level_err = esc ''[31m'' @ esc ''[1m''"
| "default_color level_critical = esc ''[1m'' @ esc ''[41m''"
| "default_color level_off = color_reset"

record console =
  cs_do_colors :: bool
  cs_colors :: "level_enum \<Rightarrow> string"

datatype color_mode = color_always | color_automatic | color_never

definition set_color_mode :: "bool \<Rightarrow> bool \<Rightarrow> color_mode \<Rightarrow> console \<Rightarrow> console" where
  "set_color_mode in_terminal is_color_terminal mode c = (case mode of
     color_always \<Rightarrow> c\<lparr>cs_do_colors := True\<rparr>
   | color_automatic \<Rightarrow> c\<lparr>cs_do_colors := in_terminal \<and> is_color_terminal\<rparr>
   | color_never \<Rightarrow> c\<lparr>cs_do_colors := False\<rparr>)"

definition set_color :: "level_enum \<Rightarrow> string \<Rightarrow> console \<Rightarrow> console" where
  "set_color color_level color c = c\<lparr>cs_colors := (cs_colors c)(color_level := color)\<rparr>"

datatype sink_out = file_sink file_helper | console_sink console

record sink =
  sk_level :: level_enum
  sk_formatter :: pattern_formatter
  sk_out :: sink_out

definition make_console_sink :: "bool \<Rightarrow> bool \<Rightarrow> color_mode \<Rightarrow> sink" where
  "make_console_sink in_terminal is_color_terminal mode =
     \<lparr>sk_level = level_trace, sk_formatter = default_pattern_formatter time_local default_eol,
      sk_out = console_sink (set_color_mode in_terminal is_color_terminal mode
        \<lparr>cs_do_colors = False, cs_colors = default_color\<rparr>)\<rparr>"

definition make_file_sink :: "log_lib \<Rightarrow> string \<Rightarrow> bool \<Rightarrow> world \<Rightarrow> (spdlog_ex + sink) \<times> world" where
  "make_file_sink L filename trunc w =
     (let (ex, fh, w) = fh_open (ll_fault L) filename trunc new_file_helper w in
      case ex of
        Some e \<Rightarrow> (Inl e, w)
      | None \<Rightarrow> (Inr \<lparr>sk_level = level_trace, sk_formatter = default_pattern_formatter time_local default_eol,
                     sk_out = file_sink fh\<rparr>, w))"

definition sink_should_log :: "sink \<Rightarrow> level_enum \<Rightarrow> bool" where
  "sink_should_log s msg_level \<longleftrightarrow> msg_level \<ge> sk_level s"

definition sink_set_level :: "level_enum \<Rightarrow> sink \<Rightarrow> sink" where
  "sink_set_level log_level s = s\<lparr>sk_level := log_level\<rparr>"

definition sink_set_formatter :: "pattern_formatter \<Rightarrow> sink \<Rightarrow> sink" where
  "sink_set_formatter f s = s\<lparr>sk_formatter := f\<rparr>"

definition sink_set_pattern :: "int \<Rightarrow> string \<Rightarrow> sink \<Rightarrow> sink" where
  "sink_set_pattern now pattern s = sink_set_formatter (make_pattern_formatter now pattern time_local default_eol) s"

definition print_text :: "string \<Rightarrow> world \<Rightarrow> world" where
  "print_text s w = w\<lparr>w_console := w_console w @ s\<rparr>"

text \<open>A range of the formatted text; a range that is not inside it is read out of bounds.\<close>

definition print_range :: "string \<Rightarrow> nat \<Rightarrow> nat \<Rightarrow> world \<Rightarrow> world option" where
  "print_range formatted lo hi w =
     (if lo \<le> hi \<and> hi \<le> length formatted then Some (print_text (take (hi - lo) (drop lo formatted)) w)
      else None)"

definition console_log :: "console \<Rightarrow> log_msg \<Rightarrow> string \<Rightarrow> world \<Rightarrow> world option" where
  "console_log c msg formatted w =
     (if cs_do_colors c \<and> lm_color_range_end msg > lm_color_range_start msg
      then do {
        w \<leftarrow> print_range formatted 0 (lm_color_range_start msg) w;
        let w = print_text (cs_colors c (lm_level msg)) w;
        w \<leftarrow> print_range formatted (lm_color_range_start msg) (lm_color_range_end msg) w;
        let w = print_text color_reset w;
        print_range formatted (lm_color_range_end msg) (length formatted) w }
      else print_range formatted 0 (length formatted) w)"

definition sink_log :: "log_lib \<Rightarrow> log_msg \<Rightarrow> sink \<Rightarrow> world \<Rightarrow> (spdlog_ex option \<times> log_msg \<times> sink \<times> world) option" where
  "sink_log L msg s w = do {
     (pf, msg, formatted) \<leftarrow> pf_format (ll_time L) (ll_pid L) (sk_formatter s) msg [];
     let s = s\<lparr>sk_formatter := pf\<rparr>;
     case sk_out s of
       file_sink fh \<Rightarrow> do {
         (ex, fh, w) \<leftarrow> fh_write (ll_fault L) formatted fh w;
         Some (ex, msg, s\<lparr>sk_out := file_sink fh\<rparr>, w) }
     | console_sink c \<Rightarrow> do { w \<leftarrow> console_log c msg formatted w; Some (None, msg, s, w) } }"

definition sink_flush :: "log_lib \<Rightarrow> sink \<Rightarrow> world \<Rightarrow> (sink \<times> world) option" where
  "sink_flush L s w = (case sk_out s of
     file_sink fh \<Rightarrow> do { (fh, w) \<leftarrow> fh_flush (ll_fault L) fh w; Some (s\<lparr>sk_out := file_sink fh\<rparr>, w) }
   | console_sink c \<Rightarrow> Some (s, w))"

text \<open>The destructor of a file sink closes its file.\<close>

definition sink_destroy :: "log_lib \<Rightarrow> sink \<Rightarrow> world \<Rightarrow> world" where
  "sink_destroy L s w = (case sk_out s of
     file_sink fh \<Rightarrow> snd (fh_close (ll_fault L) fh w)
   | console_sink c \<Rightarrow> w)"

section \<open>Loggers\<close>

record logger =
  lg_name :: string
  lg_sinks :: "nat list"
  lg_level :: level_enum
  lg_flush_level :: level_enum
  lg_err_handler :: "nat option"
  lg_tracer :: backtracer

definition make_logger :: "string \<Rightarrow> nat list \<Rightarrow> logger" where
  "make_logger name sinks =
     \<lparr>lg_name = name, lg_sinks = sinks, lg_level = level_info, lg_flush_level = level_off, lg_err_handler = None,
      lg_tracer = default_backtracer\<rparr>"

text \<open>
  The state: all sinks and loggers, the file system and console, the static variables of the default error
  handler (number of errors and time of the last report), its reports, and the calls of custom handlers.
\<close>

record log_state =
  ls_sinks :: "sink list"
  ls_loggers :: "logger list"
  ls_world :: world
  ls_err_counter :: nat
  ls_last_report :: int
  ls_reports :: "(nat \<times> int \<times> string \<times> spdlog_ex) list"
  ls_handled :: "(nat \<times> spdlog_ex) list"

definition err_handler :: "log_env \<Rightarrow> logger \<Rightarrow> spdlog_ex \<Rightarrow> log_state \<Rightarrow> log_state" where
  "err_handler env lg ex st = (case lg_err_handler lg of
     Some h \<Rightarrow> st\<lparr>ls_handled := ls_handled st @ [(h, ex)]\<rparr>
   | None \<Rightarrow>
      (let st = st\<lparr>ls_err_counter := ls_err_counter st + 1\<rparr> in
       if env_now env - ls_last_report st < 1000000000 then st
       else st\<lparr>ls_last_report := env_now env,
               ls_reports := ls_reports st @ [(ls_err_counter st, env_now env, lg_name lg, ex)]\<rparr>))"

fun sink_loop :: "log_lib \<Rightarrow> log_env \<Rightarrow> logger \<Rightarrow> nat list \<Rightarrow> log_msg \<Rightarrow> log_state \<Rightarrow> (log_msg \<times> log_state) option" where
  "sink_loop L env lg [] msg st = Some (msg, st)"
| "sink_loop L env lg (a # as) msg st =
     (if \<not> a < length (ls_sinks st) then None
      else if sink_should_log (ls_sinks st ! a) (lm_level msg) then do {
        (ex, msg, s, w) \<leftarrow> sink_log L msg (ls_sinks st ! a) (ls_world st);
        let st = st\<lparr>ls_sinks := (ls_sinks st)[a := s], ls_world := w\<rparr>;
        let st = (case ex of None \<Rightarrow> st | Some e \<Rightarrow> err_handler env lg e st);
        sink_loop L env lg as msg st }
      else sink_loop L env lg as msg st)"

fun flush_loop :: "log_lib \<Rightarrow> nat list \<Rightarrow> log_state \<Rightarrow> log_state option" where
  "flush_loop L [] st = Some st"
| "flush_loop L (a # as) st =
     (if \<not> a < length (ls_sinks st) then None
      else do {
        (s, w) \<leftarrow> sink_flush L (ls_sinks st ! a) (ls_world st);
        flush_loop L as (st\<lparr>ls_sinks := (ls_sinks st)[a := s], ls_world := w\<rparr>) })"

definition should_flush :: "logger \<Rightarrow> log_msg \<Rightarrow> bool" where
  "should_flush lg msg \<longleftrightarrow> lm_level msg \<ge> lg_flush_level lg \<and> lm_level msg \<noteq> level_off"

definition logger_flush :: "log_lib \<Rightarrow> logger \<Rightarrow> log_state \<Rightarrow> log_state option" where
  "logger_flush L lg st = flush_loop L (lg_sinks lg) st"

definition logger_sink_it :: "log_lib \<Rightarrow> log_env \<Rightarrow> logger \<Rightarrow> log_msg \<Rightarrow> log_state \<Rightarrow> (log_msg \<times> log_state) option" where
  "logger_sink_it L env lg msg st = do {
     (msg, st) \<leftarrow> sink_loop L env lg (lg_sinks lg) msg st;
     st \<leftarrow> (if should_flush lg msg then logger_flush L lg st else Some st);
     Some (msg, st) }"

definition logger_should_log :: "logger \<Rightarrow> level_enum \<Rightarrow> bool" where
  "logger_should_log lg msg_level \<longleftrightarrow> msg_level \<ge> lg_level lg"

definition set_logger :: "nat \<Rightarrow> logger \<Rightarrow> log_state \<Rightarrow> log_state" where
  "set_logger l lg st = st\<lparr>ls_loggers := (ls_loggers st)[l := lg]\<rparr>"

definition logger_log_it ::
  "log_lib \<Rightarrow> log_env \<Rightarrow> nat \<Rightarrow> log_msg \<Rightarrow> bool \<Rightarrow> bool \<Rightarrow> log_state \<Rightarrow> log_state option" where
  "logger_log_it L env l msg log_enabled traceback_enabled st = (let lg = ls_loggers st ! l in do {
     (msg, st) \<leftarrow> (if log_enabled then logger_sink_it L env lg msg st else Some (msg, st));
     if traceback_enabled then do {
       tracer \<leftarrow> bt_push_back msg (lg_tracer lg);
       Some (set_logger l (lg\<lparr>lg_tracer := tracer\<rparr>) st) }
     else Some st })"

text \<open>\<^verbatim>\<open>log\<close> of a text, and \<^verbatim>\<open>log\<close> of a format with arguments: the result of the formatting is an argument.\<close>

definition logger_log ::
  "log_lib \<Rightarrow> log_env \<Rightarrow> nat \<Rightarrow> source_loc \<Rightarrow> level_enum \<Rightarrow> string \<Rightarrow> log_state \<Rightarrow> log_state option" where
  "logger_log L env l loc lvl msg st =
     (if \<not> l < length (ls_loggers st) then None
      else let lg = ls_loggers st ! l;
               log_enabled = logger_should_log lg lvl;
               traceback_enabled = bt_enabled (lg_tracer lg)
           in if \<not> log_enabled \<and> \<not> traceback_enabled then Some st
              else logger_log_it L env l (make_log_msg env loc (lg_name lg) lvl msg) log_enabled traceback_enabled st)"

definition logger_log_fmt ::
  "log_lib \<Rightarrow> log_env \<Rightarrow> nat \<Rightarrow> source_loc \<Rightarrow> level_enum \<Rightarrow> spdlog_ex + string \<Rightarrow> log_state \<Rightarrow> log_state option" where
  "logger_log_fmt L env l loc lvl formatted st =
     (if \<not> l < length (ls_loggers st) then None
      else let lg = ls_loggers st ! l;
               log_enabled = logger_should_log lg lvl;
               traceback_enabled = bt_enabled (lg_tracer lg)
           in if \<not> log_enabled \<and> \<not> traceback_enabled then Some st
              else case formatted of
                Inl ex \<Rightarrow> Some (err_handler env lg ex st)
              | Inr msg \<Rightarrow>
                  logger_log_it L env l (make_log_msg env loc (lg_name lg) lvl msg) log_enabled traceback_enabled st)"

definition logger_dump_backtrace :: "log_lib \<Rightarrow> log_env \<Rightarrow> nat \<Rightarrow> log_state \<Rightarrow> log_state option" where
  "logger_dump_backtrace L env l st =
     (if \<not> l < length (ls_loggers st) then None
      else let lg = ls_loggers st ! l in
        if bt_enabled (lg_tracer lg) then do {
          (_, st) \<leftarrow> logger_sink_it L env lg
            (make_log_msg env no_source_loc (lg_name lg) level_info ''****************** Backtrace Start ******************'') st;
          (tracer, st) \<leftarrow> bt_foreach_pop (\<lambda>m st. map_option snd (logger_sink_it L env lg m st)) (lg_tracer lg) st;
          let st = set_logger l (lg\<lparr>lg_tracer := tracer\<rparr>) st;
          (_, st) \<leftarrow> logger_sink_it L env lg
            (make_log_msg env no_source_loc (lg_name lg) level_info ''****************** Backtrace End ********************'') st;
          Some st }
        else Some st)"

text \<open>Setters, and the loop that hands every sink a formatter: all but the last get a clone.\<close>

definition upd_logger :: "nat \<Rightarrow> (logger \<Rightarrow> logger) \<Rightarrow> log_state \<Rightarrow> log_state" where
  "upd_logger l f st = set_logger l (f (ls_loggers st ! l)) st"

definition logger_set_level :: "level_enum \<Rightarrow> logger \<Rightarrow> logger" where
  "logger_set_level log_level lg = lg\<lparr>lg_level := log_level\<rparr>"

definition logger_flush_on :: "level_enum \<Rightarrow> logger \<Rightarrow> logger" where
  "logger_flush_on log_level lg = lg\<lparr>lg_flush_level := log_level\<rparr>"

definition logger_set_error_handler :: "nat option \<Rightarrow> logger \<Rightarrow> logger" where
  "logger_set_error_handler handler lg = lg\<lparr>lg_err_handler := handler\<rparr>"

definition logger_enable_backtrace :: "nat \<Rightarrow> logger \<Rightarrow> logger" where
  "logger_enable_backtrace n_messages lg = lg\<lparr>lg_tracer := bt_enable n_messages (lg_tracer lg)\<rparr>"

definition logger_disable_backtrace :: "logger \<Rightarrow> logger" where
  "logger_disable_backtrace lg = lg\<lparr>lg_tracer := bt_disable (lg_tracer lg)\<rparr>"

fun set_formatter_loop :: "int \<Rightarrow> pattern_formatter \<Rightarrow> nat list \<Rightarrow> sink list \<Rightarrow> sink list option" where
  "set_formatter_loop now f [] sinks = Some sinks"
| "set_formatter_loop now f (a # as) sinks =
     (if \<not> a < length sinks then None
      else set_formatter_loop now f as
        (sinks[a := sink_set_formatter (if as = [] then f else clone_pattern_formatter now f) (sinks ! a)]))"

definition logger_set_formatter :: "int \<Rightarrow> pattern_formatter \<Rightarrow> logger \<Rightarrow> log_state \<Rightarrow> log_state option" where
  "logger_set_formatter now f lg st = do {
     sinks \<leftarrow> set_formatter_loop now f (lg_sinks lg) (ls_sinks st);
     Some (st\<lparr>ls_sinks := sinks\<rparr>) }"

definition logger_set_pattern :: "int \<Rightarrow> string \<Rightarrow> pattern_time_type \<Rightarrow> logger \<Rightarrow> log_state \<Rightarrow> log_state option" where
  "logger_set_pattern now pattern time_type lg st =
     logger_set_formatter now (make_pattern_formatter now pattern time_type default_eol) lg st"

text \<open>Copies: a clone has the sinks of the original and a copy of everything else.\<close>

definition logger_copy :: "logger \<Rightarrow> logger" where
  "logger_copy other = other\<lparr>lg_tracer := copy_backtracer (lg_tracer other)\<rparr>"

definition logger_move :: "log_msg_buffer list \<Rightarrow> logger \<Rightarrow> logger" where
  "logger_move rest other = other\<lparr>lg_tracer := fst (move_backtracer rest (lg_tracer other))\<rparr>"

definition logger_clone :: "string \<Rightarrow> nat \<Rightarrow> log_state \<Rightarrow> (nat \<times> log_state) option" where
  "logger_clone logger_name l st =
     (if l < length (ls_loggers st)
      then let lg = ls_loggers st ! l in
        Some (length (ls_loggers st), st\<lparr>ls_loggers := ls_loggers st @ [logger_copy lg\<lparr>lg_name := logger_name\<rparr>]\<rparr>)
      else None)"

definition logger_swap :: "logger \<Rightarrow> logger \<Rightarrow> logger \<times> logger" where
  "logger_swap a b =
     (a\<lparr>lg_name := lg_name b, lg_sinks := lg_sinks b, lg_level := lg_level b, lg_flush_level := lg_flush_level b,
        lg_err_handler := lg_err_handler b, lg_tracer := lg_tracer b\<rparr>,
      b\<lparr>lg_name := lg_name a, lg_sinks := lg_sinks a, lg_level := lg_level a, lg_flush_level := lg_flush_level a,
        lg_err_handler := lg_err_handler a, lg_tracer := lg_tracer a\<rparr>)"

text \<open>The assignment swaps with the argument, which is a copy of the other logger.\<close>

definition logger_assign :: "logger \<Rightarrow> logger \<Rightarrow> logger" where
  "logger_assign this other = fst (logger_swap this (logger_copy other))"

lemma logger_assign_copies: "logger_assign this other = other"
  by (simp add: logger_assign_def logger_swap_def logger_copy_def copy_backtracer_def)

lemma logger_move_keeps: "logger_move rest other = other"
  by (cases "lg_tracer other") (simp add: logger_move_def move_backtracer_def copy_moveable_def)

end
