(* ===== verification/Log_Registry.thy ===== *)
theory Log_Registry
  imports Log_Logger
begin

text \<open>
  The registry of loggers and the factory of the service (\<^verbatim>\<open>src/inc/spdlog/details/registry.h\<close>,
  \<^verbatim>\<open>details/registry-inl.h\<close>, \<^verbatim>\<open>details/synchronous_factory.h\<close>, \<^verbatim>\<open>sinks/basic_file_sink.h\<close>): loggers by
  name, the global level, formatter, error handler and backtrace setting that a new logger gets, and the default
  logger. The mutexes make every operation atomic. The thread pool and the periodic flusher are not modelled.

  The hash table is an association list without duplicate names; its order stands for the order in which the
  table is traversed.
\<close>

section \<open>State and operations\<close>

record registry =
  rg_loggers :: "(string \<times> nat) list"
  rg_formatter :: pattern_formatter
  rg_level :: level_enum
  rg_flush_level :: level_enum
  rg_err_handler :: "nat option"
  rg_default :: "nat option"
  rg_automatic_registration :: bool
  rg_backtrace_n_messages :: nat
  rg_tp :: "nat option"
  rg_flusher :: "int option"

text \<open>\<^verbatim>\<open>loggers_[name] = l\<close> and \<^verbatim>\<open>loggers_.erase(name)\<close>.\<close>

fun table_put :: "string \<Rightarrow> nat \<Rightarrow> (string \<times> nat) list \<Rightarrow> (string \<times> nat) list" where
  "table_put name l [] = [(name, l)]"
| "table_put name l ((n, x) # t) = (if n = name then (n, l) # t else (n, x) # table_put name l t)"

definition table_erase :: "string \<Rightarrow> (string \<times> nat) list \<Rightarrow> (string \<times> nat) list" where
  "table_erase name t = filter (\<lambda>e. fst e \<noteq> name) t"

definition name_of :: "nat \<Rightarrow> log_state \<Rightarrow> string" where
  "name_of l st = lg_name (ls_loggers st ! l)"

text \<open>The constructor makes a logger without name that writes to the console, the default logger.\<close>

definition registry_init :: "bool \<Rightarrow> bool \<Rightarrow> log_state \<Rightarrow> registry \<times> log_state" where
  "registry_init in_terminal is_color_terminal st =
     (let s = length (ls_sinks st); l = length (ls_loggers st);
          st = st\<lparr>ls_sinks := ls_sinks st @ [make_console_sink in_terminal is_color_terminal color_automatic],
                  ls_loggers := ls_loggers st @ [make_logger [] [s]]\<rparr>
      in (\<lparr>rg_loggers = [([], l)], rg_formatter = default_pattern_formatter time_local default_eol,
           rg_level = level_info, rg_flush_level = level_off, rg_err_handler = None, rg_default = Some l,
           rg_automatic_registration = True, rg_backtrace_n_messages = 0,
           rg_tp = None, rg_flusher = None\<rparr>, st))"

definition throw_if_exists :: "string \<Rightarrow> registry \<Rightarrow> spdlog_ex option" where
  "throw_if_exists logger_name rg =
     (if map_of (rg_loggers rg) logger_name \<noteq> None
      then Some (ex_text (''logger with name '' @ [CHR 0x27] @ logger_name @ [CHR 0x27] @ '' already exists'')) else None)"

definition register_logger :: "nat \<Rightarrow> log_state \<Rightarrow> registry \<Rightarrow> spdlog_ex + registry" where
  "register_logger l st rg = (let logger_name = name_of l st in
     case throw_if_exists logger_name rg of
       Some e \<Rightarrow> Inl e
     | None \<Rightarrow> Inr (rg\<lparr>rg_loggers := table_put logger_name l (rg_loggers rg)\<rparr>))"

definition initialize_logger ::
  "int \<Rightarrow> nat \<Rightarrow> registry \<Rightarrow> log_state \<Rightarrow> ((spdlog_ex + registry) \<times> log_state) option" where
  "initialize_logger now l rg st = do {
     st \<leftarrow> logger_set_formatter now (clone_pattern_formatter now (rg_formatter rg)) (ls_loggers st ! l) st;
     let st = (case rg_err_handler rg of None \<Rightarrow> st | Some h \<Rightarrow> upd_logger l (logger_set_error_handler (Some h)) st);
     let st = upd_logger l (logger_set_level (rg_level rg)) st;
     let st = upd_logger l (logger_flush_on (rg_flush_level rg)) st;
     let st = (if rg_backtrace_n_messages rg > 0
               then upd_logger l (logger_enable_backtrace (rg_backtrace_n_messages rg)) st else st);
     Some (if rg_automatic_registration rg then register_logger l st rg else Inr rg, st) }"

definition registry_get :: "string \<Rightarrow> registry \<Rightarrow> nat option" where
  "registry_get logger_name rg = map_of (rg_loggers rg) logger_name"

definition set_default_logger :: "nat option \<Rightarrow> log_state \<Rightarrow> registry \<Rightarrow> registry" where
  "set_default_logger new_default st rg =
     (let t = rg_loggers rg;
          t = (case rg_default rg of None \<Rightarrow> t | Some d \<Rightarrow> table_erase (name_of d st) t);
          t = (case new_default of None \<Rightarrow> t | Some n \<Rightarrow> table_put (name_of n st) n t)
      in rg\<lparr>rg_loggers := t, rg_default := new_default\<rparr>)"

text \<open>The settings that are applied to every registered logger and kept for those to come.\<close>

definition apply_all :: "(nat \<Rightarrow> log_state \<Rightarrow> log_state) \<Rightarrow> registry \<Rightarrow> log_state \<Rightarrow> log_state" where
  "apply_all f rg st = fold (\<lambda>e. f (snd e)) (rg_loggers rg) st"

definition registry_set_level :: "level_enum \<Rightarrow> registry \<Rightarrow> log_state \<Rightarrow> registry \<times> log_state" where
  "registry_set_level log_level rg st =
     (rg\<lparr>rg_level := log_level\<rparr>, apply_all (\<lambda>l. upd_logger l (logger_set_level log_level)) rg st)"

definition registry_flush_on :: "level_enum \<Rightarrow> registry \<Rightarrow> log_state \<Rightarrow> registry \<times> log_state" where
  "registry_flush_on log_level rg st =
     (rg\<lparr>rg_flush_level := log_level\<rparr>, apply_all (\<lambda>l. upd_logger l (logger_flush_on log_level)) rg st)"

definition registry_set_error_handler :: "nat option \<Rightarrow> registry \<Rightarrow> log_state \<Rightarrow> registry \<times> log_state" where
  "registry_set_error_handler handler rg st =
     (rg\<lparr>rg_err_handler := handler\<rparr>, apply_all (\<lambda>l. upd_logger l (logger_set_error_handler handler)) rg st)"

definition registry_enable_backtrace :: "nat \<Rightarrow> registry \<Rightarrow> log_state \<Rightarrow> registry \<times> log_state" where
  "registry_enable_backtrace n_messages rg st =
     (rg\<lparr>rg_backtrace_n_messages := n_messages\<rparr>, apply_all (\<lambda>l. upd_logger l (logger_enable_backtrace n_messages)) rg st)"

definition registry_disable_backtrace :: "registry \<Rightarrow> log_state \<Rightarrow> registry \<times> log_state" where
  "registry_disable_backtrace rg st =
     (rg\<lparr>rg_backtrace_n_messages := 0\<rparr>, apply_all (\<lambda>l. upd_logger l logger_disable_backtrace) rg st)"

fun set_formatter_all :: "int \<Rightarrow> pattern_formatter \<Rightarrow> (string \<times> nat) list \<Rightarrow> log_state \<Rightarrow> log_state option" where
  "set_formatter_all now f [] st = Some st"
| "set_formatter_all now f ((n, l) # t) st = do {
     st \<leftarrow> logger_set_formatter now (clone_pattern_formatter now f) (ls_loggers st ! l) st;
     set_formatter_all now f t st }"

definition registry_set_formatter :: "int \<Rightarrow> pattern_formatter \<Rightarrow> registry \<Rightarrow> log_state \<Rightarrow> (registry \<times> log_state) option" where
  "registry_set_formatter now f rg st = do {
     st \<leftarrow> set_formatter_all now f (rg_loggers rg) st;
     Some (rg\<lparr>rg_formatter := f\<rparr>, st) }"

fun flush_all :: "log_lib \<Rightarrow> (string \<times> nat) list \<Rightarrow> log_state \<Rightarrow> log_state option" where
  "flush_all L [] st = Some st"
| "flush_all L ((n, l) # t) st = do { st \<leftarrow> logger_flush L (ls_loggers st ! l) st; flush_all L t st }"

definition registry_drop :: "string \<Rightarrow> log_state \<Rightarrow> registry \<Rightarrow> registry" where
  "registry_drop logger_name st rg =
     rg\<lparr>rg_loggers := table_erase logger_name (rg_loggers rg),
        rg_default := (case rg_default rg of
            Some d \<Rightarrow> if name_of d st = logger_name then None else Some d
          | None \<Rightarrow> None)\<rparr>"

definition registry_drop_all :: "registry \<Rightarrow> registry" where
  "registry_drop_all rg = rg\<lparr>rg_loggers := [], rg_default := None\<rparr>"

text \<open>
  The thread pool of asynchronous loggers (a reference) and the periodic flusher: a worker with its interval, which
  starts a thread only when the interval is positive and calls \<^verbatim>\<open>flush_all\<close> each time it is over.
\<close>

definition set_tp :: "nat option \<Rightarrow> registry \<Rightarrow> registry" where
  "set_tp tp rg = rg\<lparr>rg_tp := tp\<rparr>"

definition periodic_worker :: "int \<Rightarrow> int option" where
  "periodic_worker interval = (if interval > 0 then Some interval else None)"

definition flush_every :: "int \<Rightarrow> registry \<Rightarrow> registry" where
  "flush_every interval rg = rg\<lparr>rg_flusher := periodic_worker interval\<rparr>"

definition registry_shutdown :: "registry \<Rightarrow> registry" where
  "registry_shutdown rg = (registry_drop_all (rg\<lparr>rg_flusher := None\<rparr>))\<lparr>rg_tp := None\<rparr>"

definition set_automatic_registration :: "bool \<Rightarrow> registry \<Rightarrow> registry" where
  "set_automatic_registration b rg = rg\<lparr>rg_automatic_registration := b\<rparr>"

text \<open>
  \<^verbatim>\<open>basic_logger_mt\<close>: a file sink, a logger with it, and the registration. The sink or the registration may throw;
  then the sink or logger made so far stays in the state, where nothing refers to it.
\<close>

definition basic_logger_mt ::
  "log_lib \<Rightarrow> int \<Rightarrow> string \<Rightarrow> string \<Rightarrow> bool \<Rightarrow> registry \<Rightarrow> log_state \<Rightarrow> ((spdlog_ex + nat \<times> registry) \<times> log_state) option" where
  "basic_logger_mt L now logger_name filename trunc rg st =
     (let (r, w) = make_file_sink L filename trunc (ls_world st);
          st = st\<lparr>ls_world := w\<rparr>
      in case r of
        Inl e \<Rightarrow> Some (Inl e, st)
      | Inr s \<Rightarrow>
          (let l = length (ls_loggers st);
               st = st\<lparr>ls_loggers := ls_loggers st @ [make_logger logger_name [length (ls_sinks st)]],
                       ls_sinks := ls_sinks st @ [s]\<rparr>
           in do {
             (q, st) \<leftarrow> initialize_logger now l rg st;
             Some (case q of Inl e \<Rightarrow> Inl e | Inr rg \<Rightarrow> Inr (l, rg), st) }))"

section \<open>The invariant of the registry\<close>

text \<open>
  Every name is registered once and for a logger of that name, the default logger is registered, and sinks and
  loggers that are referred to exist.
\<close>

definition loggers_ok :: "log_state \<Rightarrow> bool" where
  "loggers_ok st \<longleftrightarrow> list_all (\<lambda>lg. list_all (\<lambda>a. a < length (ls_sinks st)) (lg_sinks lg)) (ls_loggers st)"

definition registry_ok :: "registry \<Rightarrow> log_state \<Rightarrow> bool" where
  "registry_ok rg st \<longleftrightarrow> distinct (map fst (rg_loggers rg)) \<and>
     list_all (\<lambda>(n, l). l < length (ls_loggers st) \<and> name_of l st = n) (rg_loggers rg) \<and>
     (case rg_default rg of None \<Rightarrow> True | Some d \<Rightarrow> map_of (rg_loggers rg) (name_of d st) = Some d) \<and>
     loggers_ok st"

lemma map_of_table_put [simp]: "map_of (table_put name l t) = (map_of t)(name \<mapsto> l)"
  by (induction name l t rule: table_put.induct) (auto simp: fun_eq_iff)

lemma keys_table_put: "fst ` set (table_put name l t) = insert name (fst ` set t)"
  by (induction name l t rule: table_put.induct) auto

lemma distinct_table_put: "distinct (map fst t) \<Longrightarrow> distinct (map fst (table_put name l t))"
  by (induction name l t rule: table_put.induct) (auto simp: keys_table_put image_iff)

lemma all_table_put: "list_all P t \<Longrightarrow> P (name, l) \<Longrightarrow> list_all P (table_put name l t)"
  by (induction name l t rule: table_put.induct) auto

lemma map_of_table_erase [simp]: "map_of (table_erase name t) = (map_of t)(name := None)"
  by (induction t) (auto simp: table_erase_def fun_eq_iff)

lemma distinct_table_erase: "distinct (map fst t) \<Longrightarrow> distinct (map fst (table_erase name t))"
  by (induction t) (auto simp: table_erase_def)

lemma all_table_erase: "list_all P t \<Longrightarrow> list_all P (table_erase name t)"
  by (auto simp: table_erase_def list_all_iff)


text \<open>The parts of a state that the invariant speaks of: how many sinks there are, and names and sinks of the loggers.\<close>

definition same_shape :: "log_state \<Rightarrow> log_state \<Rightarrow> bool" where
  "same_shape st st' \<longleftrightarrow> length (ls_sinks st') = length (ls_sinks st) \<and>
     map (\<lambda>lg. (lg_name lg, lg_sinks lg)) (ls_loggers st') = map (\<lambda>lg. (lg_name lg, lg_sinks lg)) (ls_loggers st)"

named_theorems shape_intros \<open>operations that keep the shape of the state\<close>

lemma same_shape_refl [simp, intro]: "same_shape st st"
  by (simp add: same_shape_def)

lemma same_shape_trans [trans]: "same_shape a b \<Longrightarrow> same_shape b c \<Longrightarrow> same_shape a c"
  by (simp add: same_shape_def)

lemma same_shape_length: "same_shape st st' \<Longrightarrow> length (ls_loggers st') = length (ls_loggers st)"
  unfolding same_shape_def by (metis length_map)

lemma same_shape_nth:
  "same_shape st st' \<Longrightarrow> l < length (ls_loggers st) \<Longrightarrow>
   name_of l st' = name_of l st \<and> lg_sinks (ls_loggers st' ! l) = lg_sinks (ls_loggers st ! l)"
proof -
  assume s: "same_shape st st'" "l < length (ls_loggers st)"
  have "map (\<lambda>lg. (lg_name lg, lg_sinks lg)) (ls_loggers st') ! l = map (\<lambda>lg. (lg_name lg, lg_sinks lg)) (ls_loggers st) ! l"
    using s(1) by (simp add: same_shape_def)
  then show ?thesis using s same_shape_length [OF s(1)] by (simp add: name_of_def)
qed

lemma loggers_ok_map:
  "loggers_ok st \<longleftrightarrow> list_all (\<lambda>x. list_all (\<lambda>a. a < length (ls_sinks st)) (snd x))
     (map (\<lambda>lg. (lg_name lg, lg_sinks lg)) (ls_loggers st))"
  by (simp add: loggers_ok_def list_all_iff)

lemma loggers_ok_shape: "same_shape st st' \<Longrightarrow> loggers_ok st \<Longrightarrow> loggers_ok st'"
  unfolding loggers_ok_map same_shape_def by simp

lemma registry_ok_shape:
  assumes "same_shape st st'" "registry_ok rg st"
  shows "registry_ok rg st'"
proof -
  note sh = same_shape_nth [OF assms(1)] same_shape_length [OF assms(1)]
  have all: "list_all (\<lambda>(n, l). l < length (ls_loggers st) \<and> name_of l st = n) (rg_loggers rg)"
    using assms(2) by (simp add: registry_ok_def)
  then have "list_all (\<lambda>(n, l). l < length (ls_loggers st') \<and> name_of l st' = n) (rg_loggers rg)"
    by (rule list.pred_mono_strong) (use sh in \<open>auto split: prod.splits\<close>)
  moreover have "case rg_default rg of None \<Rightarrow> True | Some d \<Rightarrow> map_of (rg_loggers rg) (name_of d st') = Some d"
  proof (cases "rg_default rg")
    case (Some d)
    then have m: "map_of (rg_loggers rg) (name_of d st) = Some d" using assms(2) by (simp add: registry_ok_def)
    then have "d < length (ls_loggers st)" using all by (auto simp: list_all_iff dest!: map_of_SomeD)
    then show ?thesis using Some m sh(1) by simp
  qed simp
  ultimately show ?thesis
    using assms(2) loggers_ok_shape [OF assms(1)] by (simp add: registry_ok_def)
qed

lemma shape_upd_logger [shape_intros]:
  assumes "\<And>lg. lg_name (f lg) = lg_name lg \<and> lg_sinks (f lg) = lg_sinks lg"
  shows "same_shape st (upd_logger l f st)"
proof (cases "l < length (ls_loggers st)")
  case True
  then show ?thesis using assms
    by (auto simp: same_shape_def upd_logger_def set_logger_def map_update list_update_same_conv)
next
  case False
  then have "length (ls_loggers st) \<le> l" by simp
  then show ?thesis by (simp add: upd_logger_def set_logger_def same_shape_def list_update_beyond)
qed

lemma shape_err_handler [shape_intros]: "same_shape st (err_handler env lg ex st)"
  by (auto simp: same_shape_def err_handler_def Let_def split: option.split)

lemma shape_set_logger:
  "lg_name lg = lg_name (ls_loggers st ! l) \<Longrightarrow> lg_sinks lg = lg_sinks (ls_loggers st ! l) \<Longrightarrow>
   same_shape st (set_logger l lg st)"
  by (cases "l < length (ls_loggers st)")
    (auto simp: same_shape_def set_logger_def map_update list_update_same_conv not_less list_update_beyond)

lemma shape_sink_loop: "sink_loop L env lg as msg st = Some (msg', st') \<Longrightarrow> same_shape st st' \<and> ls_loggers st' = ls_loggers st"
proof (induction as arbitrary: msg st)
  case (Cons a as)
  show ?case
  proof (cases "sink_should_log (ls_sinks st ! a) (lm_level msg)")
    case True
    then obtain ex m s w where l: "sink_log L msg (ls_sinks st ! a) (ls_world st) = Some (ex, m, s, w)"
      and r: "sink_loop L env lg as m (case ex of None \<Rightarrow> st\<lparr>ls_sinks := (ls_sinks st)[a := s], ls_world := w\<rparr>
          | Some e \<Rightarrow> err_handler env lg e (st\<lparr>ls_sinks := (ls_sinks st)[a := s], ls_world := w\<rparr>)) = Some (msg', st')"
      using Cons.prems by (auto simp: Let_def split: if_splits bind_splits)
    define st1 where st1: "st1 = st\<lparr>ls_sinks := (ls_sinks st)[a := s], ls_world := w\<rparr>"
    have "same_shape st st1" "ls_loggers st1 = ls_loggers st" by (simp_all add: st1 same_shape_def)
    moreover have "same_shape st1 (err_handler env lg e st1)" "ls_loggers (err_handler env lg e st1) = ls_loggers st1" for e
      by (rule shape_err_handler) (auto simp: err_handler_def Let_def split: option.split)
    moreover define st2 where st2: "st2 = (case ex of None \<Rightarrow> st1 | Some e \<Rightarrow> err_handler env lg e st1)"
    ultimately have "same_shape st st2 \<and> ls_loggers st2 = ls_loggers st"
      by (cases ex) (simp_all, metis same_shape_trans)
    then show ?thesis
      using Cons.IH [OF r] unfolding st1 [symmetric] st2 [symmetric] by (metis same_shape_trans)
  next
    case False
    then show ?thesis using Cons by (auto split: if_splits)
  qed
qed simp

lemma shape_flush_loop: "flush_loop L as st = Some st' \<Longrightarrow> same_shape st st' \<and> ls_loggers st' = ls_loggers st"
proof (induction as arbitrary: st)
  case (Cons a as)
  then obtain s w where r: "flush_loop L as (st\<lparr>ls_sinks := (ls_sinks st)[a := s], ls_world := w\<rparr>) = Some st'"
    by (auto split: if_splits bind_splits)
  have "same_shape st (st\<lparr>ls_sinks := (ls_sinks st)[a := s], ls_world := w\<rparr>)" by (simp add: same_shape_def)
  then show ?case using Cons.IH [OF r] same_shape_trans by auto
qed simp

lemma shape_sink_it:
  assumes "logger_sink_it L env lg msg st = Some (msg', st')"
  shows "same_shape st st' \<and> ls_loggers st' = ls_loggers st"
proof -
  obtain m1 st1 where l: "sink_loop L env lg (lg_sinks lg) msg st = Some (m1, st1)"
    and r: "(if should_flush lg m1 then logger_flush L lg st1 else Some st1) = Some st'"
    using assms by (auto simp: logger_sink_it_def split: bind_splits if_splits)
  show ?thesis
    using shape_sink_loop [OF l] shape_flush_loop [of L "lg_sinks lg" st1 st'] r same_shape_trans
    by (auto simp: logger_flush_def split: if_splits)
qed

lemma shape_log_it:
  assumes "logger_log_it L env l msg log_enabled traceback_enabled st = Some st'"
  shows "same_shape st st'"
proof -
  define lg where lg: "lg = ls_loggers st ! l"
  obtain m1 st1 where a: "(if log_enabled then logger_sink_it L env lg msg st else Some (msg, st)) = Some (m1, st1)"
    and r: "(if traceback_enabled then do { tracer \<leftarrow> bt_push_back m1 (lg_tracer lg);
              Some (set_logger l (lg\<lparr>lg_tracer := tracer\<rparr>) st1) } else Some st1) = Some st'"
    using assms unfolding logger_log_it_def Let_def lg [symmetric] bind_eq_Some_conv split_paired_Ex prod.case by blast
  have s: "same_shape st st1" "ls_loggers st1 = ls_loggers st" using a shape_sink_it by (auto split: if_splits)
  have "same_shape st1 (set_logger l (lg\<lparr>lg_tracer := t\<rparr>) st1)" for t
    using s(2) by (intro shape_set_logger) (simp_all add: lg)
  then have "same_shape st1 st'" using r by (auto split: if_splits bind_splits)
  with s(1) show ?thesis by (rule same_shape_trans)
qed

lemma shape_log: "logger_log L env l loc lvl msg st = Some st' \<Longrightarrow> same_shape st st'"
  by (auto simp: logger_log_def Let_def split: if_splits dest: shape_log_it)

lemma shape_log_fmt: "logger_log_fmt L env l loc lvl formatted st = Some st' \<Longrightarrow> same_shape st st'"
  by (auto simp: logger_log_fmt_def Let_def split: if_splits sum.splits dest: shape_log_it intro: shape_err_handler)

lemma shape_flush_all: "flush_all L t st = Some st' \<Longrightarrow> same_shape st st'"
  by (induction L t st rule: flush_all.induct)
    (auto simp: logger_flush_def split: bind_splits dest!: shape_flush_loop intro: same_shape_trans)

lemma shape_set_formatter_loop: "set_formatter_loop now f as sinks = Some sinks' \<Longrightarrow> length sinks' = length sinks"
  by (induction now f as sinks rule: set_formatter_loop.induct) (auto split: if_splits)

lemma shape_logger_set_formatter:
  "logger_set_formatter now f lg st = Some st' \<Longrightarrow> same_shape st st' \<and> ls_loggers st' = ls_loggers st"
  by (auto simp: logger_set_formatter_def same_shape_def shape_set_formatter_loop split: bind_splits)

lemma shape_set_formatter_all: "set_formatter_all now f t st = Some st' \<Longrightarrow> same_shape st st'"
  by (induction now f t st rule: set_formatter_all.induct)
    (auto split: bind_splits dest!: shape_logger_set_formatter intro: same_shape_trans)

lemma shape_apply_all:
  assumes "\<And>l st. same_shape st (f l st)"
  shows "same_shape st (apply_all f rg st)"
proof -
  have "same_shape st (fold (\<lambda>e. f (snd e)) t st)" for t
    by (induction t arbitrary: st) (auto intro: assms same_shape_trans)
  then show ?thesis by (simp add: apply_all_def)
qed


section \<open>Every operation keeps the invariant\<close>

lemma shape_foreach_pop:
  assumes "bt_foreach_pop (\<lambda>m st. map_option snd (logger_sink_it L env lg m st)) b st = Some (b', st')"
  shows "same_shape st st' \<and> ls_loggers st' = ls_loggers st"
proof -
  obtain q where r: "pop_loop q_empty q_front q_pop_front (\<lambda>m st. map_option snd (logger_sink_it L env lg (lb_msg m) st))
      (bt_messages b) st = Some (q, st')"
    using assms by (auto simp: bt_foreach_pop_def split: bind_splits)
  have "same_shape st (snd (q, st')) \<and> ls_loggers (snd (q, st')) = ls_loggers st"
    by (rule pop_loop_keeps [OF r]) (auto dest: shape_sink_it intro: same_shape_trans)
  then show ?thesis by simp
qed

lemma shape_dump:
  assumes "logger_dump_backtrace L env l st = Some st'"
  shows "same_shape st st'"
proof (cases "bt_enabled (lg_tracer (ls_loggers st ! l))")
  case False
  then show ?thesis using assms by (auto simp: logger_dump_backtrace_def Let_def split: if_splits)
next
  case True
  define lg where lg: "lg = ls_loggers st ! l"
  let ?emit = "\<lambda>m st. map_option snd (logger_sink_it L env lg m st)"
  have "\<exists>m0 m1 st1 b st2 m3 m2. logger_sink_it L env lg m0 st = Some (m1, st1) \<and>
      bt_foreach_pop ?emit (lg_tracer lg) st1 = Some (b, st2) \<and>
      logger_sink_it L env lg m3 (set_logger l (lg\<lparr>lg_tracer := b\<rparr>) st2) = Some (m2, st')"
  proof -
    have e: "bt_enabled (lg_tracer lg)" using True by (simp add: lg)
    have l: "l < length (ls_loggers st)" using assms by (auto simp: logger_dump_backtrace_def split: if_splits)
    from assms l e have "\<exists>m0 m3. do {
        (_, st) \<leftarrow> logger_sink_it L env lg m0 st;
        (tracer, st) \<leftarrow> bt_foreach_pop ?emit (lg_tracer lg) st;
        (_, st) \<leftarrow> logger_sink_it L env lg m3 (set_logger l (lg\<lparr>lg_tracer := tracer\<rparr>) st);
        Some st } = Some st'"
      by (simp add: logger_dump_backtrace_def lg Let_def) blast
    then show ?thesis unfolding bind_eq_Some_conv split_paired_Ex prod.case by blast
  qed
  then obtain m0 m1 st1 b st2 m3 m2 where a: "logger_sink_it L env lg m0 st = Some (m1, st1)"
    and b: "bt_foreach_pop ?emit (lg_tracer lg) st1 = Some (b, st2)"
    and c: "logger_sink_it L env lg m3 (set_logger l (lg\<lparr>lg_tracer := b\<rparr>) st2) = Some (m2, st')" by blast
  have "same_shape st2 (set_logger l (lg\<lparr>lg_tracer := b\<rparr>) st2)"
    using shape_sink_it [OF a] shape_foreach_pop [OF b] by (intro shape_set_logger) (simp_all add: lg)
  then show ?thesis
    using shape_sink_it [OF a] shape_foreach_pop [OF b] c by (metis shape_sink_it same_shape_trans)
qed

lemma registry_ok_put:
  assumes "registry_ok rg st" "l < length (ls_loggers st)" "map_of (rg_loggers rg) (name_of l st) = None"
  shows "registry_ok (rg\<lparr>rg_loggers := table_put (name_of l st) l (rg_loggers rg)\<rparr>) st"
  using assms
  by (auto simp: registry_ok_def distinct_table_put all_table_put split: option.splits)

lemma registry_ok_register:
  "registry_ok rg st \<Longrightarrow> l < length (ls_loggers st) \<Longrightarrow> register_logger l st rg = Inr rg' \<Longrightarrow> registry_ok rg' st"
  using registry_ok_put [of rg st l]
  by (auto simp: register_logger_def throw_if_exists_def Let_def split: option.splits if_splits)

lemma registry_ok_settings:
  "registry_ok (rg\<lparr>rg_level := a\<rparr>) st = registry_ok rg st" "registry_ok (rg\<lparr>rg_flush_level := a\<rparr>) st = registry_ok rg st"
  "registry_ok (rg\<lparr>rg_err_handler := h\<rparr>) st = registry_ok rg st" "registry_ok (rg\<lparr>rg_formatter := f\<rparr>) st = registry_ok rg st"
  "registry_ok (rg\<lparr>rg_backtrace_n_messages := n\<rparr>) st = registry_ok rg st"
  "registry_ok (rg\<lparr>rg_automatic_registration := b\<rparr>) st = registry_ok rg st"
  "registry_ok (rg\<lparr>rg_tp := tp\<rparr>) st = registry_ok rg st" "registry_ok (rg\<lparr>rg_flusher := fl\<rparr>) st = registry_ok rg st"
  by (simp_all add: registry_ok_def split: option.split)

lemma registry_ok_set_default:
  assumes "registry_ok rg st" "case d of None \<Rightarrow> True | Some n \<Rightarrow> n < length (ls_loggers st)"
  shows "registry_ok (set_default_logger d st rg) st"
proof -
  define t where t: "t = (case rg_default rg of None \<Rightarrow> rg_loggers rg | Some x \<Rightarrow> table_erase (name_of x st) (rg_loggers rg))"
  have "distinct (map fst t) \<and> list_all (\<lambda>(n, l). l < length (ls_loggers st) \<and> name_of l st = n) t"
    using assms(1) by (auto simp: t registry_ok_def distinct_table_erase all_table_erase split: option.splits)
  then show ?thesis
    using assms
    by (cases d) (simp_all add: registry_ok_def set_default_logger_def Let_def t [symmetric] distinct_table_put all_table_put)
qed

lemma registry_ok_drop: "registry_ok rg st \<Longrightarrow> registry_ok (registry_drop n st rg) st"
  by (auto simp: registry_ok_def registry_drop_def distinct_table_erase all_table_erase split: option.splits)

lemma initialize_logger_shape:
  assumes "initialize_logger now l rg st = Some (r, st')"
  shows "same_shape st st' \<and> (\<forall>rg'. r = Inr rg' \<longrightarrow> rg' = rg \<or> register_logger l st' rg = Inr rg')"
proof -
  obtain st1 where s1: "logger_set_formatter now (clone_pattern_formatter now (rg_formatter rg)) (ls_loggers st ! l) st = Some st1"
    using assms by (auto simp: initialize_logger_def split: bind_splits)
  define st2 where s2: "st2 = (case rg_err_handler rg of None \<Rightarrow> st1 | Some h \<Rightarrow> upd_logger l (logger_set_error_handler (Some h)) st1)"
  define st3 where s3: "st3 = upd_logger l (logger_flush_on (rg_flush_level rg)) (upd_logger l (logger_set_level (rg_level rg)) st2)"
  define st4 where s4: "st4 = (if rg_backtrace_n_messages rg > 0
      then upd_logger l (logger_enable_backtrace (rg_backtrace_n_messages rg)) st3 else st3)"
  have sh: "same_shape s (upd_logger l (logger_set_error_handler h) s)" "same_shape s (upd_logger l (logger_flush_on fl) s)"
    "same_shape s (upd_logger l (logger_set_level lv) s)" "same_shape s (upd_logger l (logger_enable_backtrace n) s)" for s h fl lv n
    by (rule shape_upd_logger, simp add: logger_set_error_handler_def logger_flush_on_def logger_set_level_def
        logger_enable_backtrace_def)+
  have "same_shape st st1" using shape_logger_set_formatter [OF s1] by simp
  also have "same_shape st1 st2" using sh(1) by (simp add: s2 split: option.split)
  also have "same_shape st2 st3" unfolding s3 using sh(2,3) same_shape_trans by blast
  also have "same_shape st3 st4" using sh(4) by (simp add: s4)
  finally have "same_shape st st4" .
  moreover have "initialize_logger now l rg st =
      Some (if rg_automatic_registration rg then register_logger l st4 rg else Inr rg, st4)"
    using s1 by (simp add: initialize_logger_def Let_def s2 s3 s4)
  ultimately show ?thesis using assms by auto
qed

lemma registry_ok_create:
  assumes ok: "registry_ok rg st" and r: "basic_logger_mt L now name filename trunc rg st = Some (r, st')"
  shows "registry_ok rg st' \<and> (\<forall>l rg'. r = Inr (l, rg') \<longrightarrow> registry_ok rg' st')"
proof -
  obtain q w where q: "make_file_sink L filename trunc (ls_world st) = (q, w)" by (metis surj_pair)
  show ?thesis
  proof (cases q)
    case (Inl e)
    have "same_shape st (st\<lparr>ls_world := w\<rparr>)" by (simp add: same_shape_def)
    from registry_ok_shape [OF this ok] show ?thesis using r Inl by (auto simp: basic_logger_mt_def q)
  next
    case (Inr s)
    define l where l: "l = length (ls_loggers st)"
    define st1 where st1: "st1 = st\<lparr>ls_world := w, ls_loggers := ls_loggers st @ [make_logger name [length (ls_sinks st)]],
        ls_sinks := ls_sinks st @ [s]\<rparr>"
    obtain q' where i: "initialize_logger now l rg st1 = Some (q', st')" "r = (case q' of Inl e \<Rightarrow> Inl e | Inr rg \<Rightarrow> Inr (l, rg))"
      using r Inr unfolding basic_logger_mt_def q Let_def prod.case bind_eq_Some_conv
      by (auto simp: bind_eq_Some_conv st1 l cong: sum.case_cong)
    have in_range: "k < length (ls_loggers st)" if "map_of (rg_loggers rg) n = Some k" for n k
      using ok that by (auto simp: registry_ok_def list_all_iff dest!: map_of_SomeD)
    have nm: "name_of k st1 = name_of k st" "k < length (ls_loggers st1)" if "k < length (ls_loggers st)" for k
      using that by (simp_all add: st1 name_of_def nth_append)
    have "list_all (\<lambda>(n, l). l < length (ls_loggers st1) \<and> name_of l st1 = n) (rg_loggers rg)"
      by (rule list.pred_mono_strong [of "\<lambda>(n, l). l < length (ls_loggers st) \<and> name_of l st = n"])
        (use ok nm in \<open>auto simp: registry_ok_def\<close>)
    moreover have "loggers_ok st1"
      using ok by (auto simp: registry_ok_def loggers_ok_def st1 make_logger_def list_all_iff intro: less_SucI)
    moreover have "case rg_default rg of None \<Rightarrow> True | Some d \<Rightarrow> map_of (rg_loggers rg) (name_of d st1) = Some d"
      using ok in_range nm(1) by (cases "rg_default rg") (auto simp: registry_ok_def)
    ultimately have "registry_ok rg st1" using ok by (simp add: registry_ok_def)
    then have "registry_ok rg st'" using initialize_logger_shape [OF i(1)] registry_ok_shape by blast
    moreover have "l < length (ls_loggers st')"
      using same_shape_length [of st1 st'] initialize_logger_shape [OF i(1)] nm(2) by (simp add: st1 l)
    ultimately show ?thesis
      using i(2) initialize_logger_shape [OF i(1)] registry_ok_register by (auto split: sum.splits)
  qed
qed

text \<open>
  What a program can do with the library: create loggers, log, dump, flush, set what the registry sets, and
  register, drop and replace loggers, in any order. Exchanging the contents of two loggers (\<^verbatim>\<open>swap\<close>) is left
  out: it would exchange the names under the registry.
\<close>

inductive reg_step :: "registry \<times> log_state \<Rightarrow> registry \<times> log_state \<Rightarrow> bool" where
  step_create: "basic_logger_mt L now name filename trunc rg st = Some (Inr (l, rg'), st') \<Longrightarrow>
     reg_step (rg, st) (rg', st')"
| step_create_throws: "basic_logger_mt L now name filename trunc rg st = Some (Inl e, st') \<Longrightarrow>
     reg_step (rg, st) (rg, st')"
| step_register: "l < length (ls_loggers st) \<Longrightarrow> register_logger l st rg = Inr rg' \<Longrightarrow> reg_step (rg, st) (rg', st)"
| step_default: "(case d of None \<Rightarrow> True | Some n \<Rightarrow> n < length (ls_loggers st)) \<Longrightarrow>
     reg_step (rg, st) (set_default_logger d st rg, st)"
| step_drop: "reg_step (rg, st) (registry_drop n st rg, st)"
| step_drop_all: "reg_step (rg, st) (registry_drop_all rg, st)"
| step_set_level: "reg_step (rg, st) (registry_set_level lv rg st)"
| step_flush_on: "reg_step (rg, st) (registry_flush_on lv rg st)"
| step_error_handler: "reg_step (rg, st) (registry_set_error_handler h rg st)"
| step_backtrace: "reg_step (rg, st) (registry_enable_backtrace n rg st)"
| step_no_backtrace: "reg_step (rg, st) (registry_disable_backtrace rg st)"
| step_formatter: "registry_set_formatter now f rg st = Some (rg', st') \<Longrightarrow> reg_step (rg, st) (rg', st')"
| step_automatic: "reg_step (rg, st) (set_automatic_registration b rg, st)"
| step_set_tp: "reg_step (rg, st) (set_tp tp rg, st)"
| step_flush_every: "reg_step (rg, st) (flush_every interval rg, st)"
| step_flusher: "rg_flusher rg \<noteq> None \<Longrightarrow> flush_all L (rg_loggers rg) st = Some st' \<Longrightarrow> reg_step (rg, st) (rg, st')"
| step_shutdown: "reg_step (rg, st) (registry_shutdown rg, st)"
| step_log: "logger_log L env l loc lvl msg st = Some st' \<Longrightarrow> reg_step (rg, st) (rg, st')"
| step_log_fmt: "logger_log_fmt L env l loc lvl formatted st = Some st' \<Longrightarrow> reg_step (rg, st) (rg, st')"
| step_dump: "logger_dump_backtrace L env l st = Some st' \<Longrightarrow> reg_step (rg, st) (rg, st')"
| step_flush: "l < length (ls_loggers st) \<Longrightarrow> logger_flush L (ls_loggers st ! l) st = Some st' \<Longrightarrow> reg_step (rg, st) (rg, st')"

definition empty_log_state :: "world \<Rightarrow> log_state" where
  "empty_log_state w = \<lparr>ls_sinks = [], ls_loggers = [], ls_world = w, ls_err_counter = 0, ls_last_report = 0,
     ls_reports = [], ls_handled = []\<rparr>"

lemma registry_ok_init: "(\<lambda>(rg, st). registry_ok rg st) (registry_init tty color (empty_log_state w))"
  by (simp add: registry_init_def empty_log_state_def registry_ok_def name_of_def make_logger_def loggers_ok_def Let_def)

lemma reg_step_ok: "(\<lambda>(rg, st). registry_ok rg st) y \<Longrightarrow> reg_step y z \<Longrightarrow> (\<lambda>(rg, st). registry_ok rg st) z"
proof -
  have set: "registry_ok rg' (apply_all (\<lambda>l. upd_logger l f) rg st)"
    if "\<And>lg. lg_name (f lg) = lg_name lg \<and> lg_sinks (f lg) = lg_sinks lg" "registry_ok rg' st" for f rg rg' st
    using that by (intro registry_ok_shape [OF shape_apply_all] shape_upd_logger) auto
  assume ok: "(\<lambda>(rg, st). registry_ok rg st) y" and "reg_step y z"
  from this(2) show ?thesis
  proof cases
    case step_drop_all
    then show ?thesis using ok by (simp add: registry_ok_def registry_drop_all_def)
  next
    case step_shutdown
    then show ?thesis using ok by (simp add: registry_ok_def registry_drop_all_def registry_shutdown_def)
  next
    case step_set_tp
    then show ?thesis using ok by (simp add: set_tp_def registry_ok_settings)
  next
    case step_flush_every
    then show ?thesis using ok by (simp add: flush_every_def registry_ok_settings)
  next
    case step_flusher
    then show ?thesis using ok by (auto dest: shape_flush_all intro: registry_ok_shape)
  next
    case step_set_level
    then show ?thesis using ok
      by (auto simp: registry_set_level_def registry_ok_settings logger_set_level_def intro!: set)
  next
    case step_flush_on
    then show ?thesis using ok
      by (auto simp: registry_flush_on_def registry_ok_settings logger_flush_on_def intro!: set)
  next
    case step_error_handler
    then show ?thesis using ok
      by (auto simp: registry_set_error_handler_def registry_ok_settings logger_set_error_handler_def intro!: set)
  next
    case step_backtrace
    then show ?thesis using ok
      by (auto simp: registry_enable_backtrace_def registry_ok_settings logger_enable_backtrace_def intro!: set)
  next
    case step_no_backtrace
    then show ?thesis using ok
      by (auto simp: registry_disable_backtrace_def registry_ok_settings logger_disable_backtrace_def intro!: set)
  next
    case (step_formatter now f rg st rg' st')
    then have "same_shape st st'" "registry_ok rg' st' = registry_ok rg st'"
      by (auto simp: registry_set_formatter_def registry_ok_settings split: bind_splits dest: shape_set_formatter_all)
    then show ?thesis using step_formatter ok registry_ok_shape by auto
  next
    case step_flush
    then show ?thesis using ok by (auto simp: logger_flush_def dest!: shape_flush_loop intro: registry_ok_shape)
  next
    case (step_create L now name filename trunc rg st l rg' st')
    then show ?thesis using ok registry_ok_create [OF _ step_create(3)] by simp
  next
    case (step_create_throws L now name filename trunc rg st e st')
    then show ?thesis using ok registry_ok_create [OF _ step_create_throws(3)] by simp
  next
    case (step_register l st rg rg')
    then show ?thesis using ok registry_ok_register [of rg st l rg'] by simp
  next
    case (step_default d st rg)
    then show ?thesis using ok registry_ok_set_default [of rg st d] by simp
  next
    case step_drop
    then show ?thesis using ok by (auto intro: registry_ok_drop)
  next
    case step_automatic
    then show ?thesis using ok by (simp add: set_automatic_registration_def registry_ok_settings)
  next
    case step_log
    then show ?thesis using ok by (auto dest!: shape_log intro: registry_ok_shape)
  next
    case step_log_fmt
    then show ?thesis using ok by (auto dest!: shape_log_fmt intro: registry_ok_shape)
  next
    case step_dump
    then show ?thesis using ok by (auto dest!: shape_dump intro: registry_ok_shape)
  qed
qed

interpretation registry: invariant_system reg_step "registry_init tty color (empty_log_state w)"
  "\<lambda>(rg, st). registry_ok rg st"
  by unfold_locales (rule registry_ok_init, rule reg_step_ok)

text \<open>
  C34: Whatever a program does with loggers and registry, every name stays registered at most once and for an
  existing logger of that name, the default logger stays registered under its name, and every logger refers to
  existing sinks only.
\<close>

theorem registry_invariant:
  assumes "reachable reg_step (registry_init tty color (empty_log_state w)) (rg, st)"
  shows "registry_ok rg st"
  using registry.reachable_inv [OF assms] by simp

theorem registry_invariant_witness:
  "registry_ok (registry_drop [] (snd (registry_init True True (empty_log_state \<lparr>w_dirs = [], w_files = Map.empty, w_calls = 0, w_console = [], w_bufsize = 4096, w_spill = (\<lambda>_. 0)\<rparr>)))
      (fst (registry_init True True (empty_log_state \<lparr>w_dirs = [], w_files = Map.empty, w_calls = 0, w_console = [], w_bufsize = 4096, w_spill = (\<lambda>_. 0)\<rparr>))))
    (snd (registry_init True True (empty_log_state \<lparr>w_dirs = [], w_files = Map.empty, w_calls = 0, w_console = [], w_bufsize = 4096, w_spill = (\<lambda>_. 0)\<rparr>)))"
proof -
  define w where w: "w = \<lparr>w_dirs = [], w_files = Map.empty, w_calls = 0, w_console = [], w_bufsize = 4096, w_spill = (\<lambda>_. 0)\<rparr>"
  obtain rg st where i: "registry_init True True (empty_log_state w) = (rg, st)" by (metis surj_pair)
  have "reachable reg_step (registry_init True True (empty_log_state w)) (registry_drop [] st rg, st)"
    by (rule reachable_step [OF reachable_init], unfold i) (rule step_drop)
  from registry_invariant [OF this] show ?thesis unfolding w [symmetric] i by simp
qed

end
