(* ===== verification/Log_Trace.thy ===== *)
theory Log_Trace
  imports Log_Registry
begin

text \<open>
  What loggers do besides writing lines: the dump of a backtrace, the reports of the default error handler, and
  colours on the console, with the range of a message that one sink leaves to the next.
\<close>

section \<open>Backtraces\<close>

text \<open>Writing to the sinks neither reads nor changes the tracer or any logger of the state.\<close>

lemma sink_loop_tracer: "sink_loop L env (lg\<lparr>lg_tracer := b\<rparr>) as m st = sink_loop L env lg as m st"
proof (induction as arbitrary: m st)
  case (Cons a as)
  have e: "err_handler env (lg\<lparr>lg_tracer := b\<rparr>) ex st = err_handler env lg ex st" for ex st
    by (simp add: err_handler_def Let_def split: option.split)
  show ?case unfolding sink_loop.simps Cons.IH e ..
qed simp

lemma sink_it_tracer [simp]: "logger_sink_it L env (lg\<lparr>lg_tracer := b\<rparr>) = logger_sink_it L env lg"
proof (intro ext)
  fix m st
  have "logger_flush L (lg\<lparr>lg_tracer := b\<rparr>) = logger_flush L lg" by (simp add: logger_flush_def [abs_def])
  then show "logger_sink_it L env (lg\<lparr>lg_tracer := b\<rparr>) m st = logger_sink_it L env lg m st"
    by (simp add: logger_sink_it_def sink_loop_tracer should_flush_def cong: if_cong)
qed

lemma err_handler_set_logger: "err_handler env lg ex (set_logger l x st) = set_logger l x (err_handler env lg ex st)"
  by (simp add: err_handler_def set_logger_def Let_def split: option.split)

lemma sink_loop_set_logger:
  "sink_loop L env lg as m (set_logger l x st) = map_option (map_prod id (set_logger l x)) (sink_loop L env lg as m st)"
proof (induction as arbitrary: m st)
  case (Cons a as)
  have sel: "ls_sinks (set_logger l x st) = ls_sinks st" "ls_world (set_logger l x st) = ls_world st"
    by (simp_all add: set_logger_def)
  have upd: "(set_logger l x st)\<lparr>ls_sinks := t, ls_world := w\<rparr> = set_logger l x (st\<lparr>ls_sinks := t, ls_world := w\<rparr>)" for t w
    by (simp add: set_logger_def)
  have step: "(case ex of None \<Rightarrow> set_logger l x s | Some e \<Rightarrow> err_handler env lg e (set_logger l x s)) =
      set_logger l x (case ex of None \<Rightarrow> s | Some e \<Rightarrow> err_handler env lg e s)" for ex s
    by (simp add: err_handler_set_logger split: option.split)
  show ?case
    by (cases "sink_log L m (ls_sinks st ! a) (ls_world st)")
      (auto simp: sel upd step Cons.IH Let_def)
qed simp

lemma flush_loop_set_logger: "flush_loop L as (set_logger l x st) = map_option (set_logger l x) (flush_loop L as st)"
proof (induction as arbitrary: st)
  case (Cons a as)
  have sel: "ls_sinks (set_logger l x st) = ls_sinks st" "ls_world (set_logger l x st) = ls_world st"
    by (simp_all add: set_logger_def)
  have upd: "(set_logger l x st)\<lparr>ls_sinks := t, ls_world := w\<rparr> = set_logger l x (st\<lparr>ls_sinks := t, ls_world := w\<rparr>)" for t w
    by (simp add: set_logger_def)
  show ?case
    by (cases "sink_flush L (ls_sinks st ! a) (ls_world st)") (auto simp: sel upd Cons.IH)
qed simp

text \<open>A message handed to the sinks of a logger.\<close>

definition emit :: "log_lib \<Rightarrow> log_env \<Rightarrow> logger \<Rightarrow> log_msg \<Rightarrow> log_state \<Rightarrow> log_state option" where
  "emit L env lg m st = map_option snd (logger_sink_it L env lg m st)"

lemma emit_set_logger: "emit L env lg m (set_logger l x st) = map_option (set_logger l x) (emit L env lg m st)"
proof (cases "sink_loop L env lg (lg_sinks lg) m st")
  case None
  then show ?thesis by (simp add: emit_def logger_sink_it_def sink_loop_set_logger)
next
  case (Some r)
  obtain m1 s1 where r: "r = (m1, s1)" by (cases r)
  show ?thesis
    by (cases "flush_loop L (lg_sinks lg) s1")
      (simp_all add: emit_def logger_sink_it_def sink_loop_set_logger Some r logger_flush_def flush_loop_set_logger)
qed

lemma emit_all_set_logger:
  "visit_all (emit L env lg) ms (set_logger l x st) = map_option (set_logger l x) (visit_all (emit L env lg) ms st)"
proof (induction ms arbitrary: st)
  case (Cons m ms)
  then show ?case by (cases "emit L env lg m st") (simp_all add: emit_set_logger)
qed simp

lemma set_logger_twice [simp]: "set_logger l x (set_logger l y st) = set_logger l x st"
  by (simp add: set_logger_def)

definition entry_msg :: "string \<Rightarrow> log_env \<times> level_enum \<times> string \<Rightarrow> log_msg" where
  "entry_msg name entry = (case entry of (env, lvl, msg) \<Rightarrow> make_log_msg env no_source_loc name lvl msg)"

definition log_quiet :: "log_lib \<Rightarrow> nat \<Rightarrow> log_env \<times> level_enum \<times> string \<Rightarrow> log_state \<Rightarrow> log_state option" where
  "log_quiet L l entry st = (case entry of (env, lvl, msg) \<Rightarrow> logger_log L env l no_source_loc lvl msg st)"

lemma log_quiet_keeps:
  assumes l: "l < length (ls_loggers st)" and lg: "ls_loggers st ! l = lg" and tr: "bt_enabled (lg_tracer lg)" "bt_invar (lg_tracer lg)"
    and q: "fst (snd entry) < lg_level lg"
  shows "\<exists>b. log_quiet L l entry st = Some (set_logger l (lg\<lparr>lg_tracer := b\<rparr>) st) \<and> bt_invar b \<and> bt_enabled b \<and>
    bt_cap b = bt_cap (lg_tracer lg) \<and>
    bt_kept b = last_n (bt_cap b) (bt_kept (lg_tracer lg) @ [entry_msg (lg_name lg) entry])"
proof -
  obtain env lvl msg where e: "entry = (env, lvl, msg)" by (cases entry)
  have "\<not> lg_level lg \<le> lvl" using q by (simp add: e not_le)
  moreover from bt_push_back_spec [OF tr(2), of "entry_msg (lg_name lg) entry"] obtain b where
    "bt_push_back (entry_msg (lg_name lg) entry) (lg_tracer lg) = Some b" "bt_invar b" "bt_cap b = bt_cap (lg_tracer lg)"
    "bt_enabled b = bt_enabled (lg_tracer lg)"
    "bt_kept b = last_n (bt_cap (lg_tracer lg)) (bt_kept (lg_tracer lg) @ [entry_msg (lg_name lg) entry])" by blast
  ultimately show ?thesis using l lg tr
    by (intro exI [of _ b]) (simp add: log_quiet_def logger_log_def logger_log_it_def logger_should_log_def Let_def e entry_msg_def)
qed

lemma log_quiet_all:
  "l < length (ls_loggers st) \<Longrightarrow> ls_loggers st ! l = lg \<Longrightarrow> bt_enabled (lg_tracer lg) \<Longrightarrow> bt_invar (lg_tracer lg) \<Longrightarrow>
   length (bt_kept (lg_tracer lg)) \<le> bt_cap (lg_tracer lg) \<Longrightarrow>
   list_all (\<lambda>e. fst (snd e) < lg_level lg) entries \<Longrightarrow>
   \<exists>b. visit_all (log_quiet L l) entries st = Some (set_logger l (lg\<lparr>lg_tracer := b\<rparr>) st) \<and> bt_invar b \<and> bt_enabled b \<and>
     bt_kept b = last_n (bt_cap (lg_tracer lg)) (bt_kept (lg_tracer lg) @ map (entry_msg (lg_name lg)) entries)"
proof (induction entries arbitrary: st lg)
  case Nil
  then have "set_logger l (lg\<lparr>lg_tracer := lg_tracer lg\<rparr>) st = st" by (auto simp: set_logger_def)
  then show ?case using Nil by (intro exI [of _ "lg_tracer lg"]) simp
next
  case (Cons e es)
  from log_quiet_keeps [OF Cons.prems(1-4), of e L] Cons.prems(6) obtain b where
    b: "log_quiet L l e st = Some (set_logger l (lg\<lparr>lg_tracer := b\<rparr>) st)" "bt_invar b" "bt_enabled b"
      "bt_cap b = bt_cap (lg_tracer lg)"
      "bt_kept b = last_n (bt_cap b) (bt_kept (lg_tracer lg) @ [entry_msg (lg_name lg) e])" by auto
  let ?lg = "lg\<lparr>lg_tracer := b\<rparr>"
  have "\<exists>c. visit_all (log_quiet L l) es (set_logger l ?lg st) = Some (set_logger l (?lg\<lparr>lg_tracer := c\<rparr>) (set_logger l ?lg st)) \<and>
      bt_invar c \<and> bt_enabled c \<and>
      bt_kept c = last_n (bt_cap (lg_tracer ?lg)) (bt_kept (lg_tracer ?lg) @ map (entry_msg (lg_name ?lg)) es)"
    using Cons.prems b by (intro Cons.IH) (simp_all add: set_logger_def)
  then show ?case
    using b last_n_append [of "bt_cap b" "bt_kept (lg_tracer lg) @ [entry_msg (lg_name lg) e]"] by auto
qed

lemma visit_all_Nil_bind [simp]: "x \<bind> visit_all f [] = x"
  by (cases x) simp_all

lemma visit_emit: "visit_all (\<lambda>m st. map_option snd (logger_sink_it L env lg m st)) ms st = visit_all (emit L env lg) ms st"
  by (simp add: emit_def [abs_def])

definition backtrace_start :: "log_env \<Rightarrow> string \<Rightarrow> log_msg" where
  "backtrace_start env name =
     make_log_msg env no_source_loc name level_info ''****************** Backtrace Start ******************''"

definition backtrace_end :: "log_env \<Rightarrow> string \<Rightarrow> log_msg" where
  "backtrace_end env name =
     make_log_msg env no_source_loc name level_info ''****************** Backtrace End ********************''"

lemma dump_spec:
  assumes l: "l < length (ls_loggers st)" and lg: "ls_loggers st ! l = lg" and tr: "bt_enabled (lg_tracer lg)" "bt_invar (lg_tracer lg)"
  shows "\<exists>b. bt_kept b = [] \<and> bt_enabled b \<and> logger_dump_backtrace L env l st =
    map_option (set_logger l (lg\<lparr>lg_tracer := b\<rparr>))
      (visit_all (emit L env lg) (backtrace_start env (lg_name lg) # bt_kept (lg_tracer lg) @ [backtrace_end env (lg_name lg)]) st)"
proof -
  let ?em = "\<lambda>m st. map_option snd (logger_sink_it L env lg m st)"
  show ?thesis
  proof (cases "emit L env lg (backtrace_start env (lg_name lg)) st")
    case None
    then show ?thesis using l lg tr bt_foreach_pop_spec [OF tr(2), of ?em undefined]
      by (auto simp: logger_dump_backtrace_def backtrace_start_def [symmetric] emit_def)
  next
    case (Some s1)
    then obtain m1 where s1: "logger_sink_it L env lg (backtrace_start env (lg_name lg)) st = Some (m1, s1)"
      by (auto simp: emit_def)
    from bt_foreach_pop_spec [OF tr(2), of ?em s1] obtain b where
      b: "bt_enabled b = bt_enabled (lg_tracer lg)" "bt_kept b = []"
        "bt_foreach_pop ?em (lg_tracer lg) s1 = map_option (Pair b) (visit_all (emit L env lg) (bt_kept (lg_tracer lg)) s1)"
      unfolding visit_emit by blast
    have e: "bt_enabled (lg_tracer (ls_loggers st ! l))" using lg tr by simp
    have fin: "do { (_, s) \<leftarrow> logger_sink_it L env lg (backtrace_end env (lg_name lg)) (set_logger l x s2); Some s } =
        map_option (set_logger l x) (emit L env lg (backtrace_end env (lg_name lg)) s2)" for x s2
      unfolding emit_set_logger [symmetric]
      by (cases "logger_sink_it L env lg (backtrace_end env (lg_name lg)) (set_logger l x s2)") (auto simp: emit_def)
    have "logger_dump_backtrace L env l st = do {
        (t, s2) \<leftarrow> bt_foreach_pop ?em (lg_tracer lg) s1;
        (_, s) \<leftarrow> logger_sink_it L env lg (backtrace_end env (lg_name lg)) (set_logger l (lg\<lparr>lg_tracer := t\<rparr>) s2);
        Some s }"
      using l lg tr s1 by (simp add: logger_dump_backtrace_def backtrace_start_def backtrace_end_def)
    also have "\<dots> = map_option (set_logger l (lg\<lparr>lg_tracer := b\<rparr>))
        (visit_all (emit L env lg) (bt_kept (lg_tracer lg) @ [backtrace_end env (lg_name lg)]) s1)"
      unfolding b(3) visit_all_append
      by (cases "visit_all (emit L env lg) (bt_kept (lg_tracer lg)) s1") (simp_all add: fin)
    finally show ?thesis using b tr(1) Some by auto
  qed
qed

text \<open>
  C33: Backtraces. After \<^verbatim>\<open>enable_backtrace(n)\<close>, messages below the level of the logger write nothing and are kept;
  \<^verbatim>\<open>dump_backtrace\<close> then hands to the sinks a start line, the last \<open>n\<close> of these messages, oldest first, and an end
  line, and leaves the tracer empty and enabled. This holds for every capacity that fits the queue, zero included.
\<close>

theorem backtrace_dump:
  assumes l: "l < length (ls_loggers st)" and n: "n < 2 ^ 64 - 1"
    and lg: "ls_loggers st ! l = logger_enable_backtrace n lg"
    and q: "list_all (\<lambda>e. fst (snd e) < lg_level lg) entries"
  shows "\<exists>st' b. visit_all (log_quiet L l) entries st = Some st' \<and> ls_world st' = ls_world st \<and> bt_kept b = [] \<and> bt_enabled b \<and>
    logger_dump_backtrace L env l st' =
      map_option (set_logger l (lg\<lparr>lg_tracer := b\<rparr>)) (visit_all (emit L env lg)
        (backtrace_start env (lg_name lg) # last_n n (map (entry_msg (lg_name lg)) entries) @ [backtrace_end env (lg_name lg)]) st)"
proof -
  let ?lg = "logger_enable_backtrace n lg"
  have tr: "bt_enabled (lg_tracer ?lg)" "bt_invar (lg_tracer ?lg)" "bt_kept (lg_tracer ?lg) = []" "bt_cap (lg_tracer ?lg) = n"
    "lg_name ?lg = lg_name lg" "lg_level ?lg = lg_level lg"
    using bt_enable_spec [OF n] by (simp_all add: logger_enable_backtrace_def)
  from log_quiet_all [OF l lg tr(1,2), of entries L] tr q obtain b where
    b: "visit_all (log_quiet L l) entries st = Some (set_logger l (?lg\<lparr>lg_tracer := b\<rparr>) st)" "bt_invar b" "bt_enabled b"
      "bt_kept b = last_n n (map (entry_msg (lg_name lg)) entries)" by auto
  let ?lg2 = "lg\<lparr>lg_tracer := b\<rparr>" 
  have lg2: "?lg\<lparr>lg_tracer := b\<rparr> = ?lg2" by (simp add: logger_enable_backtrace_def)
  let ?st = "set_logger l ?lg2 st"
  have "l < length (ls_loggers ?st)" "ls_loggers ?st ! l = ?lg2" using l by (simp_all add: set_logger_def)
  from dump_spec [OF this, of L env] b obtain c where
    c: "bt_kept c = []" "bt_enabled c" "logger_dump_backtrace L env l ?st =
      map_option (set_logger l (?lg2\<lparr>lg_tracer := c\<rparr>)) (visit_all (emit L env ?lg2)
        (backtrace_start env (lg_name lg) # bt_kept b @ [backtrace_end env (lg_name lg)]) ?st)" by auto
  have em: "emit L env ?lg2 = emit L env lg" by (simp add: emit_def [abs_def])
  have "logger_dump_backtrace L env l ?st = map_option (set_logger l (lg\<lparr>lg_tracer := c\<rparr>)) (visit_all (emit L env lg)
        (backtrace_start env (lg_name lg) # bt_kept b @ [backtrace_end env (lg_name lg)]) st)"
    unfolding c(3) em emit_all_set_logger by (simp add: option.map_comp comp_def)
  moreover have "ls_world ?st = ls_world st" by (simp add: set_logger_def)
  ultimately show ?thesis using b c lg2 by auto
qed

text \<open>A state with one logger and no sinks, whose tracer keeps two messages.\<close>

definition traced_state :: log_state where
  "traced_state = (empty_log_state \<lparr>w_dirs = [], w_files = Map.empty, w_calls = 0, w_console = [], w_bufsize = 4096, w_spill = (\<lambda>_. 0)\<rparr>)
     \<lparr>ls_loggers := [logger_enable_backtrace 2 (make_logger ''t'' [])]\<rparr>"

definition traced_lib :: log_lib where
  "traced_lib = \<lparr>ll_time = sample_lib, ll_pid = 1, ll_fault = (\<lambda>k. None)\<rparr>"

definition traced_entries :: "(log_env \<times> level_enum \<times> string) list" where
  "traced_entries = [(\<lparr>env_now = 1, env_thread = 1\<rparr>, level_debug, ''a''), (\<lparr>env_now = 2, env_thread = 1\<rparr>, level_trace, ''b''),
     (\<lparr>env_now = 3, env_thread = 1\<rparr>, level_debug, ''c'')]"

theorem backtrace_dump_witness:
  "\<exists>st' b. visit_all (log_quiet traced_lib 0) traced_entries traced_state = Some st' \<and> ls_world st' = ls_world traced_state \<and>
    bt_kept b = [] \<and> bt_enabled b \<and>
    logger_dump_backtrace traced_lib \<lparr>env_now = 4, env_thread = 1\<rparr> 0 st' =
      map_option (set_logger 0 ((make_logger ''t'' [])\<lparr>lg_tracer := b\<rparr>))
        (visit_all (emit traced_lib \<lparr>env_now = 4, env_thread = 1\<rparr> (make_logger ''t'' []))
          (backtrace_start \<lparr>env_now = 4, env_thread = 1\<rparr> (lg_name (make_logger ''t'' [])) #
             last_n 2 (map (entry_msg (lg_name (make_logger ''t'' []))) traced_entries) @
             [backtrace_end \<lparr>env_now = 4, env_thread = 1\<rparr> (lg_name (make_logger ''t'' []))]) traced_state)"
  by (rule backtrace_dump)
    (simp_all add: traced_state_def traced_entries_def make_logger_def less_level_enum_def)

section \<open>Reports of errors\<close>

text \<open>Errors of the same logger, one after the other, each with the time at which it is handled.\<close>

definition report_errors :: "logger \<Rightarrow> (log_env \<times> spdlog_ex) list \<Rightarrow> log_state \<Rightarrow> log_state" where
  "report_errors lg errs st = fold (\<lambda>(env, ex). err_handler env lg ex) errs st"

definition reports_spaced :: "log_state \<Rightarrow> bool" where
  "reports_spaced st \<longleftrightarrow>
     sorted_wrt (\<lambda>(_, t, _) (_, u, _). t + 1000000000 \<le> u) (ls_reports st) \<and>
     list_all (\<lambda>(c, t, _). t \<le> ls_last_report st \<and> c \<le> ls_err_counter st) (ls_reports st)"

lemma err_handler_spaced: "reports_spaced st \<Longrightarrow> reports_spaced (err_handler env lg ex st)"
  by (auto simp: reports_spaced_def err_handler_def Let_def sorted_wrt_append list_all_iff split: option.split prod.splits)

text \<open>
  The default error handler counts every error and reports at most one in a second: two reports are at least a
  second apart, whatever the order of the errors and their times, and a report carries the number of errors so far.
\<close>

lemma error_reports_spaced:
  assumes "lg_err_handler lg = None" "reports_spaced st"
  shows "reports_spaced (report_errors lg errs st) \<and>
    ls_err_counter (report_errors lg errs st) = ls_err_counter st + length errs"
  using assms
proof (induction errs arbitrary: st)
  case (Cons e errs)
  obtain env ex where e: "e = (env, ex)" by (cases e)
  have "ls_err_counter (err_handler env lg ex st) = Suc (ls_err_counter st)"
    using Cons.prems(1) by (simp add: err_handler_def Let_def)
  then show ?case using Cons err_handler_spaced by (simp add: e report_errors_def)
qed (simp add: report_errors_def)

section \<open>Colours\<close>

text \<open>A range inside the text: the colours are put around it, and without them the text is unchanged.\<close>

lemma console_log_colors:
  assumes "lm_color_range_start m < lm_color_range_end m" "lm_color_range_end m \<le> length formatted" "cs_do_colors c"
  shows "console_log c m formatted w = Some (print_text
    (take (lm_color_range_start m) formatted @ cs_colors c (lm_level m) @
     take (lm_color_range_end m - lm_color_range_start m) (drop (lm_color_range_start m) formatted) @ color_reset @
     drop (lm_color_range_end m) formatted) w)"
  using assms by (simp add: console_log_def print_range_def print_text_def)

lemma format_signed_length: "1 \<le> length (format_signed n)"
  by (cases "format_signed n") (auto simp: format_signed_def Let_def split: if_splits)

lemma pad2_length: "length d + 1 \<le> length (pad2 n d)"
  using format_signed_length [of n] by (cases "dec_int n") (auto simp: pad2_def dec_int_def split: if_splits)

lemma datetime_length: "13 \<le> length (datetime_text tm)"
proof -
  have "a + 1 \<le> length (pad2 n d)" if "a \<le> length d" for a n d using pad2_length [of d n] that by simp
  note p = this
  have 1: "3 \<le> length (''['' @ format_signed (st_year tm + 1900) @ ''-'')"
    using format_signed_length [of "st_year tm + 1900"] by simp
  have "5 \<le> length (pad2 n d @ [c])" if "3 \<le> length d" for n d c using p [OF that] by simp
  note 2 = this [OF 1]
  have "7 \<le> length (pad2 n d @ [c])" if "5 \<le> length d" for n d c using p [OF that] by simp
  note 3 = this [OF 2]
  have "9 \<le> length (pad2 n d @ [c])" if "7 \<le> length d" for n d c using p [OF that] by simp
  note 4 = this [OF 3]
  have "11 \<le> length (pad2 n d @ [c])" if "9 \<le> length d" for n d c using p [OF that] by simp
  note 5 = this [OF 4]
  have "13 \<le> length (pad2 n d @ [c])" if "11 \<le> length d" for n d c using p [OF that] by simp
  from this [OF 5] show ?thesis unfolding datetime_text_def Let_def by blast
qed

lemma level_name_nonempty [simp]: "level_to_string_view l \<noteq> []"
  by (cases l) (simp_all add: level_to_string_view_def level_string_views_def)

text \<open>The default line leaves the range of the level name in the message, behind at least nineteen characters.\<close>

lemma full_format_range:
  assumes "source_loc_empty (lm_source m)"
  shows "\<exists>a b ts dt. full_format 0 [] m tm [] =
      Some (ts, dt, m\<lparr>lm_color_range_start := a, lm_color_range_end := b\<rparr>, line_text tm m) \<and> 19 \<le> a \<and> a < b"
proof -
  have "3 \<le> length (zero_pad 3 n)" for n by (simp add: zero_pad_def)
  note z = this
  define a where a: "a = length (datetime_text tm @ zero_pad 3 (unat (word_of_int (time_fraction 1000000 (lm_time m)) :: u32)) @
     ''] '' @ (if lm_logger_name m = [] then [] else ''['' @ lm_logger_name m @ ''] '') @ ''['')"
  have "19 \<le> a" unfolding a using datetime_length [of tm] z [of "unat (word_of_int (time_fraction 1000000 (lm_time m)) :: u32)"] by simp
  moreover have "\<exists>ts dt. full_format 0 [] m tm [] =
      Some (ts, dt, m\<lparr>lm_color_range_start := a, lm_color_range_end := a + length (level_to_string_view (lm_level m))\<rparr>, line_text tm m)"
    using assms by (auto simp: full_format_def line_text_def Let_def pad_uint_32_eq a)
  ultimately show ?thesis by fastforce
qed

text \<open>
  C39: A console sink with colours that follows another sink of the same logger reads behind its own text when its
  pattern sets no colour range: it takes the range that the formatter of the other sink left in the message. Here
  the first sink writes the default line to a file and the second has the pattern \<^verbatim>\<open>%v\<close>; every message of at most
  seventeen characters that is logged makes it print from beyond the end of its buffer.
\<close>

theorem stale_color_range:
  assumes lg: "ls_loggers st = [make_logger name [0, 1]]"
    and sk: "ls_sinks st =
      [\<lparr>sk_level = level_trace, sk_formatter = default_pattern_formatter time_local default_eol,
        sk_out = file_sink \<lparr>fh_fd = Some f, fh_filename = fname\<rparr>\<rparr>,
       \<lparr>sk_level = level_trace, sk_formatter = make_pattern_formatter now ''%v'' time_local default_eol,
        sk_out = console_sink \<lparr>cs_do_colors = True, cs_colors = default_color\<rparr>\<rparr>]"
    and lvl: "level_info \<le> lvl" and len: "length msg \<le> 17"
  shows "logger_log L env 0 no_source_loc lvl msg st = None"
proof -
  define m where m: "m = make_log_msg env no_source_loc name lvl msg"
  have src: "source_loc_empty (lm_source m)" by (simp add: m make_log_msg_def no_source_loc_def source_loc_empty_def)
  define tm where tm: "tm = (if cast_secs (lm_time m) \<noteq> 0 then lib_localtime (ll_time L) (cast_secs (lm_time m)) else zero_tm)"
  obtain a b ts dt where ff: "full_format 0 [] m tm [] =
      Some (ts, dt, m\<lparr>lm_color_range_start := a, lm_color_range_end := b\<rparr>, line_text tm m)" "19 \<le> a" "a < b"
    using full_format_range [OF src, of tm] by blast
  let ?m = "m\<lparr>lm_color_range_start := a, lm_color_range_end := b\<rparr>"
  have "\<exists>pf. pf_format (ll_time L) (ll_pid L) (default_pattern_formatter time_local default_eol) m [] =
      Some (pf, ?m, line_text tm m @ default_eol)"
    using ff(1) by (auto simp: pf_format_def default_pattern_formatter_def Let_def tm get_time_def)
  then have "\<exists>ex s w. sink_log L m (ls_sinks st ! 0) (ls_world st) = Some (ex, ?m, s, w)"
    by (auto simp: sink_log_def sk fh_write_def Let_def split: prod.splits)
  then obtain ex s w where s0: "sink_log L m (ls_sinks st ! 0) (ls_world st) = Some (ex, ?m, s, w)" by blast
  have comp: "compile_pattern now ''%v'' = [field_formatter Payload null_scoped_padder \<lparr>pi_width = 0, pi_side = pad_left\<rparr>]"
    by (simp add: compile_pattern_def handle_padspec_def is_digit_def handle_flag_def user_formatter_def pi_enabled_def Let_def)
  have pf: "\<exists>pf. pf_format (ll_time L) (ll_pid L) (make_pattern_formatter now ''%v'' time_local default_eol) ?m [] =
      Some (pf, ?m, msg @ default_eol)"
    by (simp add: pf_format_def make_pattern_formatter_def comp Let_def v_formatter_def with_padder_def m make_log_msg_def)
  have "a > length (msg @ default_eol)" using len ff(2) by (simp add: default_eol_def)
  then have con: "console_log \<lparr>cs_do_colors = True, cs_colors = default_color\<rparr> ?m (msg @ default_eol) w' = None" for w'
    using ff(3) by (simp add: console_log_def print_range_def)
  have s1: "sink_log L ?m (ls_sinks st ! 1) w' = None" for w'
    using pf con by (auto simp: sink_log_def sk)
  have lv: "lm_level m = lvl" by (simp add: m make_log_msg_def)
  have low: "level_trace \<le> x" for x by (cases x) (simp_all add: less_eq_level_enum_def)
  define st1 where st1: "st1 = st\<lparr>ls_sinks := (ls_sinks st)[0 := s], ls_world := w\<rparr>"
  define st2 where st2: "st2 = (case ex of None \<Rightarrow> st1 | Some e \<Rightarrow> err_handler env (make_logger name [0, 1]) e st1)"
  have k: "ls_sinks st2 = (ls_sinks st)[0 := s]"
    by (simp add: st2 st1 err_handler_def make_logger_def Let_def split: option.split)
  have two: "length (ls_sinks st) = 2" by (simp add: sk)
  have tail: "sink_loop L env (make_logger name [0, 1]) [1] ?m st2 = None"
    using s1 by (simp add: k two) (simp add: sk sink_should_log_def low)
  have c: "0 < length (ls_sinks st)" "sink_should_log (ls_sinks st ! 0) (lm_level m)"
    by (simp_all add: sk sink_should_log_def low)
  have "sink_loop L env (make_logger name [0, 1]) [0, 1] m st = sink_loop L env (make_logger name [0, 1]) [1] ?m st2"
    by (subst sink_loop.simps(2))
      (simp only: c not_True_eq_False if_False if_True s0 Option.bind.simps prod.case Let_def st1 [symmetric] st2 [symmetric])
  then have "sink_loop L env (make_logger name [0, 1]) [0, 1] m st = None" using tail by simp
  then have "logger_sink_it L env (make_logger name [0, 1]) m st = None"
    by (simp add: logger_sink_it_def make_logger_def)
  then show ?thesis using lg lvl
    by (simp add: logger_log_def logger_log_it_def logger_should_log_def Let_def m) (simp add: make_logger_def)
qed

definition two_sinks :: log_state where
  "two_sinks = (empty_log_state \<lparr>w_dirs = [], w_files = Map.empty, w_calls = 0, w_console = [], w_bufsize = 4096, w_spill = (\<lambda>_. 0)\<rparr>)
     \<lparr>ls_loggers := [make_logger ''t'' [0, 1]],
      ls_sinks := [\<lparr>sk_level = level_trace, sk_formatter = default_pattern_formatter time_local default_eol,
        sk_out = file_sink \<lparr>fh_fd = Some \<lparr>f_path = (False, [''t'']), f_pending = []\<rparr>, fh_filename = ''t''\<rparr>\<rparr>,
       \<lparr>sk_level = level_trace, sk_formatter = make_pattern_formatter 0 ''%v'' time_local default_eol,
        sk_out = console_sink \<lparr>cs_do_colors = True, cs_colors = default_color\<rparr>\<rparr>]\<rparr>"

theorem stale_color_range_witness:
  "logger_log traced_lib \<lparr>env_now = 1, env_thread = 1\<rparr> 0 no_source_loc level_info ''hello'' two_sinks = None"
  by (rule stale_color_range [where name = "''t''" and now = 0]) (simp_all add: two_sinks_def)

end
