(* ===== verification/Log_Service.thy ===== *)
theory Log_Service
  imports Log_Registry
begin

text \<open>
  The log file of the service (\<^verbatim>\<open>src/src/main.cpp\<close>): what \<^verbatim>\<open>basic_logger_mt\<close> and the messages of the service leave
  in the file system.
\<close>

text \<open>A logger of the factory: one file sink with an open file, a fresh default formatter, and default settings.\<close>

definition file_logger :: "log_lib \<Rightarrow> nat \<Rightarrow> nat \<Rightarrow> string \<Rightarrow> string \<Rightarrow> path \<Rightarrow> string \<Rightarrow> log_state \<Rightarrow> bool" where
  "file_logger L l s name fname p pend st \<longleftrightarrow> l < length (ls_loggers st) \<and> s < length (ls_sinks st) \<and>
     ls_loggers st ! l = make_logger name [s] \<and>
     (\<exists>pf. pf_fresh (ll_time L) pf \<and> pf_time_type pf = time_local \<and> pf_eol pf = default_eol \<and>
       ls_sinks st ! s = \<lparr>sk_level = level_trace, sk_formatter = pf,
         sk_out = file_sink \<lparr>fh_fd = Some \<lparr>f_path = p, f_pending = pend\<rparr>, fh_filename = fname\<rparr>\<rparr>)"

text \<open>The line of an entry.\<close>

definition logged_line :: "log_lib \<Rightarrow> string \<Rightarrow> log_env \<times> level_enum \<times> string \<Rightarrow> string" where
  "logged_line L name entry = (case entry of (env, lvl, msg) \<Rightarrow>
     line_text (lib_localtime (ll_time L) (cast_secs (env_now env))) (make_log_msg env no_source_loc name lvl msg) @ default_eol)"

definition log_entry :: "log_lib \<Rightarrow> nat \<Rightarrow> log_env \<times> level_enum \<times> string \<Rightarrow> log_state \<Rightarrow> log_state option" where
  "log_entry L l entry st = (case entry of (env, lvl, msg) \<Rightarrow> logger_log L env l no_source_loc lvl msg st)"

lemma msg_ok_plain [simp]: "msg_ok (make_log_msg env no_source_loc name lvl msg)"
  by (simp add: msg_ok_def make_log_msg_def no_source_loc_def source_loc_empty_def)

lemma level_trace_least [simp]: "level_trace \<le> l"
  by (cases l) (simp_all add: less_eq_level_enum_def)

text \<open>
  What a logger of the factory has written since a state \<open>w0\<close> of the file system, in which its buffer was empty: a
  first part of its text is in the file, the rest, which the buffer has room for, waits; as long as all fits into the
  buffer, nothing is in the file.
\<close>

definition file_logged :: "log_lib \<Rightarrow> nat \<Rightarrow> nat \<Rightarrow> string \<Rightarrow> string \<Rightarrow> path \<Rightarrow> world \<Rightarrow> string \<Rightarrow> log_state \<Rightarrow> bool" where
  "file_logged L l s name fname p w0 logged st \<longleftrightarrow> (\<exists>written pend. file_logger L l s name fname p pend st \<and>
     written @ pend = logged \<and> w_files (ls_world st) p = Some (file_text p w0 @ written) \<and> length pend \<le> w_bufsize w0 \<and>
     w_bufsize (ls_world st) = w_bufsize w0 \<and> (length logged \<le> w_bufsize w0 \<longrightarrow> written = []))"

lemma log_entry_file:
  assumes f: "file_logged L l s name fname p w0 logged st" and nf: "\<And>k. ll_fault L k = None"
    and t: "cast_secs (env_now (fst entry)) \<noteq> 0"
  shows "\<exists>st'. log_entry L l entry st = Some st' \<and>
    file_logged L l s name fname p w0 (logged @ (if level_info \<le> fst (snd entry) then logged_line L name entry else [])) st'"
proof -
  obtain env lvl msg where e: "entry = (env, lvl, msg)" by (cases entry)
  obtain written pend where fl: "file_logger L l s name fname p pend st" and wr: "written @ pend = logged"
    "w_files (ls_world st) p = Some (file_text p w0 @ written)" "length pend \<le> w_bufsize w0"
    "w_bufsize (ls_world st) = w_bufsize w0" "length logged \<le> w_bufsize w0 \<longrightarrow> written = []"
    using f by (auto simp: file_logged_def)
  have lg: "ls_loggers st ! l = make_logger name [s]" "l < length (ls_loggers st)" "s < length (ls_sinks st)"
    using fl by (auto simp: file_logger_def)
  obtain pf where pf: "pf_fresh (ll_time L) pf" "pf_time_type pf = time_local" "pf_eol pf = default_eol"
    and sk: "ls_sinks st ! s = \<lparr>sk_level = level_trace, sk_formatter = pf,
         sk_out = file_sink \<lparr>fh_fd = Some \<lparr>f_path = p, f_pending = pend\<rparr>, fh_filename = fname\<rparr>\<rparr>"
    using fl by (auto simp: file_logger_def)
  have off: "\<not> bt_enabled (lg_tracer (make_logger name [s]))" by (simp add: make_logger_def default_backtracer_def)
  show ?thesis
  proof (cases "level_info \<le> lvl")
    case False
    then show ?thesis using f lg off
      by (auto simp: e log_entry_def logger_log_def logger_should_log_def make_logger_def default_backtracer_def Let_def)
  next
    case True
    define m where m: "m = make_log_msg env no_source_loc name lvl msg"
    have "cast_secs (lm_time m) \<noteq> 0" using t by (simp add: e m make_log_msg_def)
    from pf_format_fresh [OF pf(1) _ this, of "ll_pid L" "[]"] obtain pf' m' where
      ff: "pf_format (ll_time L) (ll_pid L) pf m [] = Some (pf', m', line_text (get_time (ll_time L) (pf_time_type pf) m) m @ pf_eol pf)"
        "pf_fresh (ll_time L) pf'" "pf_time_type pf' = pf_time_type pf" "pf_eol pf' = pf_eol pf"
      by (auto simp: m)
    have line: "line_text (get_time (ll_time L) (pf_time_type pf) m) m @ pf_eol pf = logged_line L name entry"
      by (simp add: logged_line_def e m pf get_time_def make_log_msg_def)
    let ?fh = "\<lambda>pend. \<lparr>fh_fd = Some \<lparr>f_path = p, f_pending = pend\<rparr>, fh_filename = fname\<rparr>"
    obtain pend' w' where w': "fh_write (ll_fault L) (logged_line L name entry) (?fh pend) (ls_world st) = Some (None, ?fh pend', w')"
      "file_text p w' @ pend' = file_text p (ls_world st) @ pend @ logged_line L name entry"
      "prefix (file_text p (ls_world st)) (file_text p w')" "w_files (ls_world st) p \<noteq> None \<longrightarrow> w_files w' p \<noteq> None"
      "w_bufsize w' = w_bufsize (ls_world st)" "length pend' \<le> w_bufsize (ls_world st)"
      "length pend + length (logged_line L name entry) \<le> w_bufsize (ls_world st) \<longrightarrow> w_files w' = w_files (ls_world st)"
      by (rule fh_write_buffers [where fault = "ll_fault L" and fh = "?fh pend" and p = p and pend = pend and w = "ls_world st"
            and d = "logged_line L name entry", OF nf]) auto
    let ?s = "\<lparr>sk_level = level_trace, sk_formatter = pf', sk_out = file_sink (?fh pend')\<rparr>"
    have sl: "sink_log L m (ls_sinks st ! s) (ls_world st) = Some (None, m', ?s, w')"
      using ff(1) w'(1) by (simp add: sink_log_def sk line)
    let ?st = "st\<lparr>ls_sinks := (ls_sinks st)[s := ?s], ls_world := w'\<rparr>"
    have "logger_sink_it L env (make_logger name [s]) m st = Some (m', ?st)"
      using sl lg by (simp add: logger_sink_it_def make_logger_def sink_should_log_def sk should_flush_def)
    then have le: "log_entry L l entry st = Some ?st"
      using lg True off
      by (simp add: e log_entry_def logger_log_def logger_log_it_def logger_should_log_def Let_def m)
        (simp add: make_logger_def default_backtracer_def m)
    have fl': "file_logger L l s name fname p pend' ?st"
      using lg ff pf by (auto simp: file_logger_def)
    have old: "file_text p (ls_world st) = file_text p w0 @ written" using wr(2) by (simp add: file_text_def)
    then obtain moretext where mt: "file_text p w' = file_text p w0 @ written @ moretext"
      using w'(3) by (auto simp: prefix_def)
    have files: "w_files w' p = Some (file_text p w0 @ written @ moretext)"
      using w'(4) wr(2) mt by (auto simp: file_text_def)
    have whole: "(written @ moretext) @ pend' = logged @ logged_line L name entry"
      using w'(2) old mt wr(1) by auto
    have "moretext = []" if "length pend + length (logged_line L name entry) \<le> w_bufsize w0"
      using w'(7) that wr(4) old mt by (simp add: file_text_def)
    then have "length (logged @ logged_line L name entry) \<le> w_bufsize w0 \<longrightarrow> written @ moretext = []"
      using wr(1,5) by auto
    then have "file_logged L l s name fname p w0 (logged @ logged_line L name entry) ?st"
      unfolding file_logged_def using fl' files whole w'(5,6) wr(4)
      by (intro exI [of _ "written @ moretext"] exI [of _ pend']) simp
    then show ?thesis using le True by (simp add: e)
  qed
qed

definition file_lines :: "log_lib \<Rightarrow> string \<Rightarrow> (log_env \<times> level_enum \<times> string) list \<Rightarrow> string" where
  "file_lines L name entries = concat (map (logged_line L name) (filter (\<lambda>e. level_info \<le> fst (snd e)) entries))"

lemma log_entries_file:
  assumes nf: "\<And>k. ll_fault L k = None"
  shows "file_logged L l s name fname p w0 logged st \<Longrightarrow> list_all (\<lambda>e. cast_secs (env_now (fst e)) \<noteq> 0) entries \<Longrightarrow>
    \<exists>st'. visit_all (log_entry L l) entries st = Some st' \<and> file_logged L l s name fname p w0 (logged @ file_lines L name entries) st'"
proof (induction entries arbitrary: st logged)
  case Nil
  then show ?case by (simp add: file_lines_def)
next
  case (Cons e es)
  from log_entry_file [OF Cons.prems(1) nf, of e] Cons.prems(2) obtain st1 where
    st1: "log_entry L l e st = Some st1"
      "file_logged L l s name fname p w0 (logged @ (if level_info \<le> fst (snd e) then logged_line L name e else [])) st1" by auto
  from Cons.IH [OF st1(2)] Cons.prems(2) st1(1) show ?case by (auto simp: file_lines_def)
qed

text \<open>A registry as the program starts with: the default formatter, no handler and no backtrace.\<close>

definition registry_plain :: "registry \<Rightarrow> bool" where
  "registry_plain rg \<longleftrightarrow> pf_pattern (rg_formatter rg) = ''%+'' \<and> pf_time_type (rg_formatter rg) = time_local \<and>
     pf_eol (rg_formatter rg) = default_eol \<and> rg_level rg = level_info \<and> rg_flush_level rg = level_off \<and>
     rg_err_handler rg = None \<and> rg_automatic_registration rg \<and> rg_backtrace_n_messages rg = 0"

lemma registry_plain_init [simp]: "registry_plain (fst (registry_init tty color st))"
  by (simp add: registry_plain_def registry_init_def default_pattern_formatter_def Let_def)

lemma compile_default: "compile_pattern now ''%+'' = [full_formatter no_padding 0 []]"
  by (simp add: compile_pattern_def handle_padspec_def is_digit_def handle_flag_def user_formatter_def pi_enabled_def
      no_padding_def Let_def)

lemma basic_logger_file:
  assumes nf: "\<And>k. ll_fault L k = None" and f: "fname \<noteq> []" "last fname \<noteq> CHR ''/''"
    and free: "way_free (dir_name fname) (ls_world st)" and nd: "\<not> is_dir (ls_world st) (canon fname)"
    and rg: "registry_plain rg" "registry_get name rg = None"
  shows "\<exists>rg' st'. basic_logger_mt L now name fname trunc rg st = Some (Inr (length (ls_loggers st), rg'), st') \<and>
    registry_get name rg' = Some (length (ls_loggers st)) \<and>
    file_logger L (length (ls_loggers st)) (length (ls_sinks st)) name fname (canon fname) [] st' \<and>
    w_files (ls_world st') = (w_files (ls_world st))(canon fname \<mapsto>
      if trunc then [] else case w_files (ls_world st) (canon fname) of None \<Rightarrow> [] | Some s \<Rightarrow> s) \<and>
    w_bufsize (ls_world st') = w_bufsize (ls_world st)"
proof -
  define l s where ls: "l = length (ls_loggers st)" "s = length (ls_sinks st)"
  obtain w where w: "fh_open (ll_fault L) fname trunc new_file_helper (ls_world st) =
      (None, \<lparr>fh_fd = Some \<lparr>f_path = canon fname, f_pending = []\<rparr>, fh_filename = fname\<rparr>, w)"
    and files: "w_files w = (w_files (ls_world st))(canon fname \<mapsto>
      if trunc then [] else case w_files (ls_world st) (canon fname) of None \<Rightarrow> [] | Some s \<Rightarrow> s)"
    using fh_open_creates [where fault = "ll_fault L", OF nf f free nd, of trunc] by blast
  have size: "w_bufsize w = w_bufsize (ls_world st)" using fh_open_bufsize [OF w] .
  define fh where fh: "fh = \<lparr>fh_fd = Some \<lparr>f_path = canon fname, f_pending = []\<rparr>, fh_filename = fname\<rparr>"
  define sk where sk: "sk = (\<lambda>pf. \<lparr>sk_level = level_trace, sk_formatter = pf, sk_out = file_sink fh\<rparr>)"
  have mk: "make_file_sink L fname trunc (ls_world st) = (Inr (sk (default_pattern_formatter time_local default_eol)), w)"
    using w by (simp add: make_file_sink_def sk fh)
  define pf where pf: "pf = clone_pattern_formatter now (rg_formatter rg)"
  have fresh: "pf_fresh (ll_time L) pf" "pf_time_type pf = time_local" "pf_eol pf = default_eol"
    using rg(1) by (simp_all add: pf clone_pattern_formatter_def make_pattern_formatter_def registry_plain_def pf_fresh_def compile_default)
  define st1 where st1: "st1 = st\<lparr>ls_world := w, ls_loggers := ls_loggers st @ [make_logger name [s]],
      ls_sinks := ls_sinks st @ [sk (default_pattern_formatter time_local default_eol)]\<rparr>"
  define st2 where st2: "st2 = st1\<lparr>ls_sinks := ls_sinks st @ [sk pf]\<rparr>"
  have lg: "ls_loggers st1 ! l = make_logger name [s]" by (simp add: st1 ls)
  have "logger_set_formatter now pf (make_logger name [s]) st1 = Some st2"
    by (simp add: logger_set_formatter_def make_logger_def st1 st2 ls sink_set_formatter_def sk)
  moreover have "upd_logger l (logger_set_level level_info) st2 = st2" "upd_logger l (logger_flush_on level_off) st2 = st2"
    by (simp_all add: upd_logger_def set_logger_def st2 st1 ls make_logger_def logger_set_level_def logger_flush_on_def)
  moreover have "register_logger l st2 rg = Inr (rg\<lparr>rg_loggers := table_put name l (rg_loggers rg)\<rparr>)"
    using rg(2) by (simp add: register_logger_def name_of_def throw_if_exists_def registry_get_def st2 st1 ls make_logger_def)
  ultimately have "initialize_logger now l rg st1 = Some (Inr (rg\<lparr>rg_loggers := table_put name l (rg_loggers rg)\<rparr>), st2)"
    using rg(1) by (simp add: initialize_logger_def registry_plain_def Let_def lg pf [symmetric])
  then have "basic_logger_mt L now name fname trunc rg st = Some (Inr (l, rg\<lparr>rg_loggers := table_put name l (rg_loggers rg)\<rparr>), st2)"
    by (simp add: basic_logger_mt_def mk Let_def ls [symmetric]) (simp add: st1 ls)
  moreover have "file_logger L l s name fname (canon fname) [] st2"
    using fresh by (auto simp: file_logger_def st2 st1 ls sk fh)
  moreover have "w_files (ls_world st2) = w_files w" "w_bufsize (ls_world st2) = w_bufsize (ls_world st)"
    using size by (simp_all add: st2 st1)
  ultimately show ?thesis using files unfolding ls by (auto simp: registry_get_def)
qed

text \<open>
  C29: The log file of the service. When no system call fails, \<^verbatim>\<open>basic_logger_mt\<close> opens the file behind what it
  holds, and whatever is logged then: the text of the messages of level \<^verbatim>\<open>info\<close> or above, one line each in the order of
  the calls, is split in two: a first part has been written to the file, behind the old contents, and the rest waits in
  the buffer of the stream and is no longer than this buffer; as long as all of it fits into the buffer, nothing is
  written, since the level from which the library flushes is \<^verbatim>\<open>off\<close>. When the sink is destroyed at the regular end of
  the program, the file holds its old contents and all lines. What ends the program without destructors loses the
  part that waits.
\<close>

theorem service_log_file:
  assumes nf: "\<And>k. ll_fault L k = None" and f: "fname \<noteq> []" "last fname \<noteq> CHR ''/''"
    and free: "way_free (dir_name fname) (ls_world st)" and nd: "\<not> is_dir (ls_world st) (canon fname)"
    and rg: "registry_plain rg" "registry_get name rg = None"
    and old: "w_files (ls_world st) (canon fname) = Some old"
    and t: "list_all (\<lambda>e. cast_secs (env_now (fst e)) \<noteq> 0) entries"
  shows "\<exists>l rg' st1 st2 written waiting. basic_logger_mt L now name fname False rg st = Some (Inr (l, rg'), st1) \<and>
    registry_get name rg' = Some l \<and> visit_all (log_entry L l) entries st1 = Some st2 \<and>
    w_files (ls_world st2) (canon fname) = Some (old @ written) \<and> written @ waiting = file_lines L name entries \<and>
    length waiting \<le> w_bufsize (ls_world st) \<and>
    (length (file_lines L name entries) \<le> w_bufsize (ls_world st) \<longrightarrow> written = []) \<and>
    w_files (sink_destroy L (ls_sinks st2 ! length (ls_sinks st)) (ls_world st2)) (canon fname) =
      Some (old @ file_lines L name entries)"
proof -
  let ?l = "length (ls_loggers st)" and ?s = "length (ls_sinks st)"
  from basic_logger_file [OF nf f free nd rg, of now False] obtain rg' st1 where
    b: "basic_logger_mt L now name fname False rg st = Some (Inr (?l, rg'), st1)" "registry_get name rg' = Some ?l"
    and fl: "file_logger L ?l ?s name fname (canon fname) [] st1"
    and files: "w_files (ls_world st1) = (w_files (ls_world st))(canon fname \<mapsto> old)" "w_bufsize (ls_world st1) = w_bufsize (ls_world st)"
    using old by auto
  have old1: "file_text (canon fname) (ls_world st1) = old" using files by (simp add: file_text_def)
  have "file_logged L ?l ?s name fname (canon fname) (ls_world st1) [] st1"
    using fl files old1 by (auto simp: file_logged_def)
  from log_entries_file [OF nf this t] obtain st2 where
    v: "visit_all (log_entry L ?l) entries st1 = Some st2"
    and "file_logged L ?l ?s name fname (canon fname) (ls_world st1) (file_lines L name entries) st2" by auto
  then obtain written pend where fl2: "file_logger L ?l ?s name fname (canon fname) pend st2"
    and wr: "written @ pend = file_lines L name entries" "w_files (ls_world st2) (canon fname) = Some (old @ written)"
      "length pend \<le> w_bufsize (ls_world st)" "length (file_lines L name entries) \<le> w_bufsize (ls_world st) \<longrightarrow> written = []"
    unfolding file_logged_def old1 files(2) by blast
  have "w_files (sink_destroy L (ls_sinks st2 ! ?s) (ls_world st2)) (canon fname) = Some (old @ written @ pend)"
    using fl2 wr(2) nf
    by (auto simp: file_logger_def sink_destroy_def fh_close_def sys_fclose_def sys_fflush_def next_call_def Let_def)
  then show ?thesis using b v wr by auto
qed

text \<open>A machine where the directory of the log file exists and the file holds an old line.\<close>

definition sample_world :: world where
  "sample_world = \<lparr>w_dirs = [(True, [''var'']), (True, [''var'', ''log'']), (True, [''var'', ''log'', ''mdalarm''])],
     w_files = Map.empty((True, [''var'', ''log'', ''mdalarm'', ''mdalarm.txt'']) \<mapsto> ''old''), w_calls = 0, w_console = [], w_bufsize = 64, w_spill = (\<lambda>_. 0)\<rparr>"

definition sample_log_lib :: log_lib where
  "sample_log_lib = \<lparr>ll_time = sample_lib, ll_pid = 1, ll_fault = (\<lambda>k. None)\<rparr>"

definition sample_env :: log_env where
  "sample_env = \<lparr>env_now = 1612703045123000000, env_thread = 9\<rparr>"

definition sample_entries :: "(log_env \<times> level_enum \<times> string) list" where
  "sample_entries = [(sample_env, level_info, ''motion detect service start''), (sample_env, level_debug, ''unseen''),
     (sample_env, level_err, ''error'')]"

definition log_file_name :: string where
  "log_file_name = ''/var/log/mdalarm/mdalarm.txt''"

lemma sample_world_path: "canon log_file_name = (True, [''var'', ''log'', ''mdalarm'', ''mdalarm.txt''])"
  by code_simp

lemma sample_world_free: "way_free (dir_name log_file_name) sample_world"
proof -
  have d: "dir_name log_file_name = ''/var/log/mdalarm''" "comps ''/var/log/mdalarm'' = [''var'', ''log'', ''mdalarm'']"
    by code_simp+
  have "take n [''var'', ''log'', ''mdalarm''] \<noteq> [''var'', ''log'', ''mdalarm'', ''mdalarm.txt'']" for n
  proof
    assume "take n [''var'', ''log'', ''mdalarm''] = [''var'', ''log'', ''mdalarm'', ''mdalarm.txt'']"
    from arg_cong [OF this, of length] show False by simp
  qed
  then show ?thesis unfolding way_free_def d sample_world_def by simp
qed

lemma sample_registry:
  "ls_world (snd (registry_init tty color (empty_log_state w))) = w"
  "registry_get name (fst (registry_init tty color st)) = None \<longleftrightarrow> name \<noteq> []"
  by (simp_all add: registry_init_def empty_log_state_def registry_get_def Let_def)

theorem service_log_file_witness:
  "\<exists>l rg' st1 st2 written waiting. basic_logger_mt sample_log_lib 0 ''HikDevLogger'' log_file_name False
      (fst (registry_init False False (empty_log_state sample_world)))
      (snd (registry_init False False (empty_log_state sample_world))) = Some (Inr (l, rg'), st1) \<and>
    registry_get ''HikDevLogger'' rg' = Some l \<and> visit_all (log_entry sample_log_lib l) sample_entries st1 = Some st2 \<and>
    w_files (ls_world st2) (canon log_file_name) = Some (''old'' @ written) \<and>
    written @ waiting = file_lines sample_log_lib ''HikDevLogger'' sample_entries \<and>
    length waiting \<le> w_bufsize (ls_world (snd (registry_init False False (empty_log_state sample_world)))) \<and>
    (length (file_lines sample_log_lib ''HikDevLogger'' sample_entries) \<le>
      w_bufsize (ls_world (snd (registry_init False False (empty_log_state sample_world)))) \<longrightarrow> written = []) \<and>
    w_files (sink_destroy sample_log_lib (ls_sinks st2 ! length (ls_sinks (snd (registry_init False False (empty_log_state sample_world)))))
        (ls_world st2)) (canon log_file_name) =
      Some (''old'' @ file_lines sample_log_lib ''HikDevLogger'' sample_entries)"
  by (rule service_log_file)
    (simp_all add: sample_registry sample_world_path sample_world_free,
     simp_all add: sample_log_lib_def log_file_name_def sample_world_def is_dir_def sample_entries_def sample_env_def
       cast_secs_def signed_divide_int_def)

end
