(* ===== verification/Log_Async.thy ===== *)
theory Log_Async
  imports Log_Registry "HOL-Library.Multiset" "HOL-Library.Sublist"
begin

text \<open>
  Asynchronous loggers (\<^verbatim>\<open>src/inc/spdlog/details/mpmc_blocking_q.h\<close>, \<^verbatim>\<open>details/thread_pool.h\<close>,
  \<^verbatim>\<open>async_logger.h\<close>): messages are posted into a bounded queue, and the threads of a pool take them out and
  hand them to the sinks. Threads interleave at the points where they take a lock: an operation of the queue is
  one step, and so is the work of one sink on one message.
\<close>

section \<open>The blocking queue\<close>

datatype async_msg_type = async_log | async_flush | async_terminate

datatype async_overflow_policy = policy_block | policy_overrun_oldest

text \<open>A message of the queue: its text, its kind, and the logger it comes from.\<close>

record async_msg =
  am_buf :: log_msg_buffer
  am_type :: async_msg_type
  am_worker :: "nat option"

definition make_async_msg :: "nat option \<Rightarrow> async_msg_type \<Rightarrow> log_msg \<Rightarrow> async_msg" where
  "make_async_msg worker the_type m = \<lparr>am_buf = make_log_msg_buffer m, am_type = the_type, am_worker = worker\<rparr>"

definition plain_async_msg :: "nat option \<Rightarrow> async_msg_type \<Rightarrow> async_msg" where
  "plain_async_msg worker the_type = \<lparr>am_buf = empty_log_msg_buffer, am_type = the_type, am_worker = worker\<rparr>"

text \<open>
  An operation that may wait on a condition variable: it waits, or it goes on with a result. \<^verbatim>\<open>enqueue\<close> waits while
  the queue is full, \<^verbatim>\<open>enqueue_nowait\<close> overruns the oldest message; \<^verbatim>\<open>dequeue_for\<close> gives up when the queue is still
  empty at the end of its waiting time.
\<close>

datatype 'a waiting = Waits | Proceeds 'a

definition enqueue :: "'a \<Rightarrow> 'a circular_q \<Rightarrow> 'a circular_q option waiting" where
  "enqueue item q = (if q_full q then Waits else Proceeds (q_push_back item q))"

definition enqueue_nowait :: "'a \<Rightarrow> 'a circular_q \<Rightarrow> 'a circular_q option" where
  "enqueue_nowait item q = q_push_back item q"

definition dequeue_for :: "'a circular_q \<Rightarrow> ('a option \<times> 'a circular_q) option" where
  "dequeue_for q =
     (if q_empty q then Some (None, q)
      else do { x \<leftarrow> q_front q; q' \<leftarrow> q_pop_front q; Some (Some x, q') })"

section \<open>Posting\<close>

definition post_async_msg :: "async_msg \<Rightarrow> async_overflow_policy \<Rightarrow> async_msg circular_q \<Rightarrow> async_msg circular_q option waiting" where
  "post_async_msg new_msg policy q =
     (if policy = policy_block then enqueue new_msg q else Proceeds (enqueue_nowait new_msg q))"

definition post_log ::
  "nat \<Rightarrow> log_msg \<Rightarrow> async_overflow_policy \<Rightarrow> async_msg circular_q \<Rightarrow> async_msg circular_q option waiting" where
  "post_log l msg policy q = post_async_msg (make_async_msg (Some l) async_log msg) policy q"

definition post_flush :: "nat \<Rightarrow> async_overflow_policy \<Rightarrow> async_msg circular_q \<Rightarrow> async_msg circular_q option waiting" where
  "post_flush l policy q = post_async_msg (plain_async_msg (Some l) async_flush) policy q"

text \<open>
  \<^verbatim>\<open>async_logger::sink_it_\<close> and \<^verbatim>\<open>flush_\<close>: the pool is held by a weak pointer; when it is gone (\<open>None\<close>), they throw.
\<close>

definition pool_gone :: "string \<Rightarrow> spdlog_ex" where
  "pool_gone s = ex_text (s @ '': thread pool doesn'' @ [CHR 0x27] @ ''t exist anymore'')"

definition async_sink_it ::
  "nat \<Rightarrow> async_overflow_policy \<Rightarrow> log_msg \<Rightarrow> async_msg circular_q option \<Rightarrow> spdlog_ex + async_msg circular_q option waiting" where
  "async_sink_it l policy msg thread_pool = (case thread_pool of
     Some q \<Rightarrow> Inr (post_log l msg policy q)
   | None \<Rightarrow> Inl (pool_gone ''async log''))"

definition async_flush_it ::
  "nat \<Rightarrow> async_overflow_policy \<Rightarrow> async_msg circular_q option \<Rightarrow> spdlog_ex + async_msg circular_q option waiting" where
  "async_flush_it l policy thread_pool = (case thread_pool of
     Some q \<Rightarrow> Inr (post_flush l policy q)
   | None \<Rightarrow> Inl (pool_gone ''async flush''))"

section \<open>Workers\<close>

text \<open>
  Where a thread of the pool is: in front of the queue, in the loop over the sinks of a logger with a message
  (\<^verbatim>\<open>backend_sink_it_\<close>), in the loop that flushes them (\<^verbatim>\<open>backend_flush_\<close>), or at its end. The time that an error
  report shows is that at which the message was taken.
\<close>

datatype worker =
    worker_idle
  | worker_sinks log_env nat log_msg "nat list"
  | worker_flush "nat list"
  | worker_stopped

text \<open>\<^verbatim>\<open>process_next_msg_\<close> after the message has been taken.\<close>

definition process_msg :: "log_env \<Rightarrow> logger list \<Rightarrow> async_msg \<Rightarrow> worker option" where
  "process_msg env lgs m = (case am_type m of
     async_log \<Rightarrow> do {
       l \<leftarrow> am_worker m;
       if l < length lgs then Some (worker_sinks env l (lb_msg (am_buf m)) (lg_sinks (lgs ! l))) else None }
   | async_flush \<Rightarrow> do {
       l \<leftarrow> am_worker m;
       if l < length lgs then Some (worker_flush (lg_sinks (lgs ! l))) else None }
   | async_terminate \<Rightarrow> Some worker_stopped)"

text \<open>One turn of the loops of \<^verbatim>\<open>backend_sink_it_\<close> and \<^verbatim>\<open>backend_flush_\<close>, with the lock of one sink.\<close>

fun worker_step :: "log_lib \<Rightarrow> worker \<Rightarrow> log_state \<Rightarrow> (worker \<times> log_state) option" where
  "worker_step L (worker_sinks env l msg (a # as)) st = do {
     (msg, st) \<leftarrow> sink_loop L env (ls_loggers st ! l) [a] msg st;
     Some (worker_sinks env l msg as, st) }"
| "worker_step L (worker_sinks env l msg []) st =
     Some (if should_flush (ls_loggers st ! l) msg then worker_flush (lg_sinks (ls_loggers st ! l)) else worker_idle, st)"
| "worker_step L (worker_flush (a # as)) st = do { st \<leftarrow> flush_loop L [a] st; Some (worker_flush as, st) }"
| "worker_step L (worker_flush []) st = Some (worker_idle, st)"
| "worker_step L worker_idle st = None"
| "worker_step L worker_stopped st = None"

section \<open>The pool\<close>

text \<open>
  The state of a pool, with what is left to do for its destructor (the number of terminate messages that it has
  still to post). The last three fields are history: what was posted, what was overrun, and what was taken.
\<close>

record pool_sys =
  ps_q :: "async_msg circular_q"
  ps_workers :: "worker list"
  ps_closing :: "nat option"
  ps_state :: log_state
  ps_posted :: "async_msg list"
  ps_lost :: "async_msg list"
  ps_taken :: "(log_env \<times> async_msg) list"

text \<open>The constructor: the number of threads must be from 1 to 1000.\<close>

definition thread_pool_threads :: "nat \<Rightarrow> spdlog_ex + worker list" where
  "thread_pool_threads threads_n =
     (if threads_n = 0 \<or> threads_n > 1000
      then Inl (ex_text ''spdlog::thread_pool(): invalid threads_n param (valid range is 1-1000)'')
      else Inr (replicate threads_n worker_idle))"

definition empty_async_msg :: async_msg where
  "empty_async_msg = plain_async_msg None async_log"

definition pool_start :: "nat \<Rightarrow> worker list \<Rightarrow> log_state \<Rightarrow> pool_sys" where
  "pool_start q_max_items threads st =
     \<lparr>ps_q = sized_q empty_async_msg q_max_items, ps_workers = threads, ps_closing = None, ps_state = st,
      ps_posted = [], ps_lost = [], ps_taken = []\<rparr>"

definition terminate_msg :: async_msg where
  "terminate_msg = plain_async_msg None async_terminate"

definition overrun :: "async_msg circular_q \<Rightarrow> async_msg \<Rightarrow> async_msg list" where
  "overrun q m = take (Suc (q_size q) - q_cap q) (q_elements q @ [m])"

definition posted :: "async_msg \<Rightarrow> async_msg circular_q \<Rightarrow> pool_sys \<Rightarrow> pool_sys" where
  "posted m q' s = s\<lparr>ps_q := q', ps_posted := ps_posted s @ [m], ps_lost := ps_lost s @ overrun (ps_q s) m\<rparr>"

text \<open>
  The steps: a program thread posts a message of a logger, or destroys the pool; the destructor posts its
  terminate messages; a worker takes a message or goes on with its work. The destructor runs when nobody holds
  the pool any more, so that from then on only it posts. A worker whose waiting time is over tries again, which
  changes nothing and is no step.
\<close>

inductive pool_step :: "log_lib \<Rightarrow> async_overflow_policy set \<Rightarrow> pool_sys \<Rightarrow> pool_sys \<Rightarrow> bool" for L pols where
  step_post_log: "ps_closing s = None \<Longrightarrow> policy \<in> pols \<Longrightarrow> l < length (ls_loggers (ps_state s)) \<Longrightarrow>
     async_sink_it l policy msg (Some (ps_q s)) = Inr (Proceeds (Some q')) \<Longrightarrow>
     pool_step L pols s (posted (make_async_msg (Some l) async_log msg) q' s)"
| step_post_flush: "ps_closing s = None \<Longrightarrow> policy \<in> pols \<Longrightarrow> l < length (ls_loggers (ps_state s)) \<Longrightarrow>
     async_flush_it l policy (Some (ps_q s)) = Inr (Proceeds (Some q')) \<Longrightarrow>
     pool_step L pols s (posted (plain_async_msg (Some l) async_flush) q' s)"
| step_destroy: "ps_closing s = None \<Longrightarrow> pool_step L pols s (s\<lparr>ps_closing := Some (length (ps_workers s))\<rparr>)"
| step_terminate: "ps_closing s = Some (Suc k) \<Longrightarrow> post_async_msg terminate_msg policy_block (ps_q s) = Proceeds (Some q') \<Longrightarrow>
     pool_step L pols s (posted terminate_msg q' (s\<lparr>ps_closing := Some k\<rparr>))"
| step_take: "i < length (ps_workers s) \<Longrightarrow> ps_workers s ! i = worker_idle \<Longrightarrow> dequeue_for (ps_q s) = Some (Some m, q') \<Longrightarrow>
     process_msg env (ls_loggers (ps_state s)) m = Some w \<Longrightarrow>
     pool_step L pols s (s\<lparr>ps_q := q', ps_workers := (ps_workers s)[i := w], ps_taken := ps_taken s @ [(env, m)]\<rparr>)"
| step_work: "i < length (ps_workers s) \<Longrightarrow> worker_step L (ps_workers s ! i) (ps_state s) = Some (w, st') \<Longrightarrow>
     pool_step L pols s (s\<lparr>ps_workers := (ps_workers s)[i := w], ps_state := st'\<rparr>)"

inductive_cases pool_stepE: "pool_step L pols s s'"

section \<open>The queue under posting and taking\<close>

lemma q_full_law: "q_invar q \<Longrightarrow> 0 < cq_max_items q \<Longrightarrow> q_full q \<longleftrightarrow> q_size q = q_cap q"
  by (auto simp: q_full_def q_invar_def q_size_def q_cap_def mod_Suc split: if_splits)

lemma length_overrun: "q_invar q \<Longrightarrow> 0 < cq_max_items q \<Longrightarrow> length (overrun q m) = (if q_full q then 1 else 0)"
  using q_size_le_cap [of q] by (auto simp: overrun_def q_full_law)

lemma push_counter:
  "q_invar q \<Longrightarrow> 0 < cq_max_items q \<Longrightarrow> q_push_back m q = Some q' \<Longrightarrow>
   cq_overrun_counter q' = (if q_full q then (cq_overrun_counter q + 1) mod 2 ^ 64 else cq_overrun_counter q) \<and>
   cq_max_items q' = cq_max_items q"
  by (auto simp: q_push_back_def q_full_def Let_def split: if_splits)

lemma push_spec:
  assumes "q_invar q" "0 < cq_max_items q" "q_push_back m q = Some q'"
  shows "q_invar q'" "cq_max_items q' = cq_max_items q" "q_cap q' = q_cap q"
    "overrun q m @ q_elements q' = q_elements q @ [m]"
    "cq_overrun_counter q' mod 2 ^ 64 = (cq_overrun_counter q + length (overrun q m)) mod 2 ^ 64"
proof -
  obtain q2 where "q_push_back m q = Some q2" "q_invar q2" "q_cap q2 = q_cap q"
    "q_elements q2 = last_n (q_cap q) (q_elements q @ [m])"
    using circ.push_law [OF assms(1), of m] by blast
  with assms(3) have q: "q_invar q'" "q_cap q' = q_cap q" "q_elements q' = last_n (q_cap q) (q_elements q @ [m])" by simp_all
  show "q_invar q'" "q_cap q' = q_cap q" by (fact q)+
  show "cq_max_items q' = cq_max_items q" using push_counter [OF assms] by simp
  have "length (q_elements q @ [m]) = Suc (q_size q)" by simp
  then show "overrun q m @ q_elements q' = q_elements q @ [m]"
    unfolding q(3) overrun_def last_n_def by (metis append_take_drop_id)
  show "cq_overrun_counter q' mod 2 ^ 64 = (cq_overrun_counter q + length (overrun q m)) mod 2 ^ 64"
    using push_counter [OF assms] by (simp add: length_overrun [OF assms(1,2)])
qed

lemma dequeue_spec:
  assumes "q_invar q" "dequeue_for q = Some (Some m, q')"
  shows "q_invar q' \<and> cq_max_items q' = cq_max_items q \<and> q_elements q = m # q_elements q' \<and>
    cq_overrun_counter q' = cq_overrun_counter q"
proof -
  have ne: "\<not> q_empty q" and f: "q_front q = Some m" and p: "q_pop_front q = Some q'"
    using assms(2) by (auto simp: dequeue_for_def split: if_splits bind_splits)
  obtain x xs where e: "q_elements q = x # xs" using ne q_empty_law [OF assms(1)] by (cases "q_elements q") auto
  then have "x = m" using q_front_law [OF assms(1)] f by simp
  moreover have "q_invar q' \<and> q_elements q' = xs" using q_pop_front_law [OF assms(1) e] p by auto
  moreover have "cq_max_items q' = cq_max_items q" "cq_overrun_counter q' = cq_overrun_counter q"
    using p by (auto simp: q_pop_front_def split: if_splits)
  ultimately show ?thesis using e by simp
qed

lemma dequeue_ready:
  assumes "q_invar q" "q_elements q = m # ms"
  shows "\<exists>q'. dequeue_for q = Some (Some m, q')"
  using q_front_law [OF assms] q_pop_front_law [OF assms] q_empty_law [OF assms(1)] assms(2)
  by (auto simp: dequeue_for_def)

lemma sized_q_spec: "n < 2 ^ 64 - 1 \<Longrightarrow>
   q_invar (sized_q d n) \<and> cq_max_items (sized_q d n) = Suc n \<and> q_elements (sized_q d n) = [] \<and> q_cap (sized_q d n) = n \<and>
   cq_overrun_counter (sized_q d n) = 0"
  by (simp add: sized_q_def q_invar_def q_elements_def q_size_def q_cap_def)

text \<open>Every way to post pushes the message, and with the blocking policy only when there is room.\<close>

lemma post_pushes:
  "post_async_msg m policy q = Proceeds (Some q') \<Longrightarrow> q_push_back m q = Some q' \<and> (policy = policy_block \<longrightarrow> \<not> q_full q)"
  by (auto simp: post_async_msg_def enqueue_def enqueue_nowait_def split: if_splits)

lemma async_sink_it_pushes:
  "async_sink_it l policy msg (Some q) = Inr (Proceeds (Some q')) \<Longrightarrow>
   q_push_back (make_async_msg (Some l) async_log msg) q = Some q' \<and> (policy = policy_block \<longrightarrow> \<not> q_full q)"
  "async_flush_it l policy (Some q) = Inr (Proceeds (Some q')) \<Longrightarrow>
   q_push_back (plain_async_msg (Some l) async_flush) q = Some q' \<and> (policy = policy_block \<longrightarrow> \<not> q_full q)"
  by (auto simp: async_sink_it_def async_flush_it_def post_log_def post_flush_def dest: post_pushes)

section \<open>Every message is accounted for\<close>

definition pool_accounts :: "async_overflow_policy set \<Rightarrow> pool_sys \<Rightarrow> bool" where
  "pool_accounts pols s \<longleftrightarrow> q_invar (ps_q s) \<and> 0 < cq_max_items (ps_q s) \<and>
     subseq (map snd (ps_taken s) @ q_elements (ps_q s)) (ps_posted s) \<and>
     mset (ps_posted s) = mset (map snd (ps_taken s)) + mset (q_elements (ps_q s)) + mset (ps_lost s) \<and>
     cq_overrun_counter (ps_q s) mod 2 ^ 64 = length (ps_lost s) mod 2 ^ 64 \<and>
     (pols \<subseteq> {policy_block} \<longrightarrow> ps_lost s = [])"

lemma pool_accounts_start: "n < 2 ^ 64 - 1 \<Longrightarrow> pool_accounts pols (pool_start n ws st)"
  using sized_q_spec [of n empty_async_msg] by (simp add: pool_accounts_def pool_start_def)

lemma pool_accounts_posted:
  assumes a: "pool_accounts pols s" and p: "q_push_back m (ps_q s) = Some q'" and r: "pols \<subseteq> {policy_block} \<Longrightarrow> \<not> q_full (ps_q s)"
  shows "pool_accounts pols (posted m q' s)"
proof -
  have q: "q_invar (ps_q s)" "0 < cq_max_items (ps_q s)" using a by (simp_all add: pool_accounts_def)
  note sp = push_spec [OF q p]
  have sub: "subseq (map snd (ps_taken s) @ q_elements (ps_q s) @ [m]) (ps_posted s @ [m])"
    using a list_emb_append_mono [of "(=)" "map snd (ps_taken s) @ q_elements (ps_q s)" "ps_posted s" "[m]" "[m]"]
    by (simp add: pool_accounts_def)
  have "subseq (map snd (ps_taken s) @ q_elements q') (map snd (ps_taken s) @ overrun (ps_q s) m @ q_elements q')"
    unfolding subseq_append' by (intro subseq_drop_many) simp
  then have "subseq (map snd (ps_taken s) @ q_elements q') (ps_posted s @ [m])"
    using sub subseq_order.trans unfolding sp(4) by blast
  moreover have "mset (ps_posted s @ [m]) =
      mset (map snd (ps_taken s)) + mset (q_elements q') + mset (ps_lost s @ overrun (ps_q s) m)"
    using a arg_cong [OF sp(4), of mset] by (simp add: pool_accounts_def ac_simps)
  moreover have "cq_overrun_counter q' mod 2 ^ 64 = length (ps_lost s @ overrun (ps_q s) m) mod 2 ^ 64"
    using a sp(5) unfolding pool_accounts_def by (metis length_append mod_add_left_eq)
  moreover have "pols \<subseteq> {policy_block} \<Longrightarrow> ps_lost s @ overrun (ps_q s) m = []"
    using a r length_overrun [OF q, of m] by (simp add: pool_accounts_def)
  ultimately show ?thesis using sp(1,2) q(2) by (simp add: pool_accounts_def posted_def)
qed

lemma pool_accounts_frame:
  "ps_q s' = ps_q s \<Longrightarrow> ps_taken s' = ps_taken s \<Longrightarrow> ps_posted s' = ps_posted s \<Longrightarrow> ps_lost s' = ps_lost s \<Longrightarrow>
   pool_accounts pols s' = pool_accounts pols s"
  by (simp add: pool_accounts_def)

lemma pool_accounts_step: "pool_accounts pols s \<Longrightarrow> pool_step L pols s s' \<Longrightarrow> pool_accounts pols s'"
proof -
  assume a: "pool_accounts pols s" and "pool_step L pols s s'"
  from this(2) show ?thesis
  proof cases
    case (step_post_log policy l msg q')
    from async_sink_it_pushes(1) [OF step_post_log(5)] step_post_log(3) show ?thesis
      unfolding step_post_log(1) by (intro pool_accounts_posted [OF a]) auto
  next
    case (step_post_flush policy l q')
    from async_sink_it_pushes(2) [OF step_post_flush(5)] step_post_flush(3) show ?thesis
      unfolding step_post_flush(1) by (intro pool_accounts_posted [OF a]) auto
  next
    case step_destroy
    then show ?thesis using a by (simp add: pool_accounts_def)
  next
    case (step_terminate k q')
    have "pool_accounts pols (s\<lparr>ps_closing := Some k\<rparr>)" using a by (simp add: pool_accounts_def)
    from pool_accounts_posted [OF this, of terminate_msg q'] post_pushes [OF step_terminate(3)] show ?thesis
      unfolding step_terminate(1) by simp
  next
    case (step_take i m q' env w)
    then show ?thesis using a dequeue_spec [of "ps_q s" m q'] by (simp add: pool_accounts_def)
  next
    case step_work
    then show ?thesis using a by (simp add: pool_accounts_def)
  qed
qed

interpretation pool: invariant_system "pool_step L pols" "pool_start n ws st" "\<lambda>s. n < 2 ^ 64 - 1 \<longrightarrow> pool_accounts pols s"
  by unfold_locales (auto intro: pool_accounts_start pool_accounts_step)

lemma block_keeps_order:
  assumes "pool_accounts pols s" "pols \<subseteq> {policy_block}"
  shows "map snd (ps_taken s) @ q_elements (ps_q s) = ps_posted s"
proof -
  have "mset (ps_posted s) = mset (map snd (ps_taken s) @ q_elements (ps_q s))"
    using assms by (simp add: pool_accounts_def)
  then have "length (map snd (ps_taken s) @ q_elements (ps_q s)) = length (ps_posted s)" by (rule mset_eq_length [symmetric])
  moreover have "subseq (map snd (ps_taken s) @ q_elements (ps_q s)) (ps_posted s)"
    using assms by (simp add: pool_accounts_def)
  ultimately show ?thesis by (intro subseq_same_length)
qed

end
