(* ===== verification/Log_Pool.thy ===== *)
theory Log_Pool
  imports Log_Async
begin

text \<open>
  What asynchronous loggers guarantee: with one thread they do to the sinks what synchronous loggers do, and the
  destructor of the pool ends, with every message handled.
\<close>

section \<open>One worker does what the caller would do\<close>

text \<open>A message handled in one go, as a synchronous logger does.\<close>

definition handle_msg :: "log_lib \<Rightarrow> log_env \<times> async_msg \<Rightarrow> log_state \<Rightarrow> log_state option" where
  "handle_msg L entry st = (case entry of (env, m) \<Rightarrow> (case am_type m of
     async_log \<Rightarrow> do {
       l \<leftarrow> am_worker m;
       if l < length (ls_loggers st)
       then map_option snd (logger_sink_it L env (ls_loggers st ! l) (lb_msg (am_buf m)) st) else None }
   | async_flush \<Rightarrow> do {
       l \<leftarrow> am_worker m;
       if l < length (ls_loggers st) then logger_flush L (ls_loggers st ! l) st else None }
   | async_terminate \<Rightarrow> Some st))"

text \<open>What a worker has still to do for the message it has taken.\<close>

definition finish :: "log_lib \<Rightarrow> worker \<Rightarrow> log_state \<Rightarrow> log_state option" where
  "finish L w st = (case w of
     worker_sinks env l msg as \<Rightarrow> do {
       (msg, st') \<leftarrow> sink_loop L env (ls_loggers st ! l) as msg st;
       if should_flush (ls_loggers st ! l) msg then flush_loop L (lg_sinks (ls_loggers st ! l)) st' else Some st' }
   | worker_flush as \<Rightarrow> flush_loop L as st
   | worker_idle \<Rightarrow> Some st
   | worker_stopped \<Rightarrow> Some st)"

lemma sink_loop_Cons:
  "sink_loop L env lg (a # as) msg st =
     do { (msg, st) \<leftarrow> sink_loop L env lg [a] msg st; sink_loop L env lg as msg st }"
  by (cases "sink_log L msg (ls_sinks st ! a) (ls_world st)") (auto simp: Let_def)

lemma flush_loop_Cons: "flush_loop L (a # as) st = do { st \<leftarrow> flush_loop L [a] st; flush_loop L as st }"
  by (cases "sink_flush L (ls_sinks st ! a) (ls_world st)") auto

lemma sink_it_world:
  "map_option snd (logger_sink_it L env lg msg st) = do {
     (msg, st') \<leftarrow> sink_loop L env lg (lg_sinks lg) msg st;
     if should_flush lg msg then flush_loop L (lg_sinks lg) st' else Some st' }"
proof (cases "sink_loop L env lg (lg_sinks lg) msg st")
  case (Some r)
  obtain m1 st1 where "r = (m1, st1)" by (cases r)
  then show ?thesis using Some
    by (cases "flush_loop L (lg_sinks lg) st1") (auto simp: logger_sink_it_def logger_flush_def)
qed (simp add: logger_sink_it_def)

lemma process_finish:
  assumes "process_msg env (ls_loggers st) m = Some w"
  shows "finish L w st = handle_msg L (env, m) st"
proof (cases "am_type m")
  case async_log
  then obtain l where l: "am_worker m = Some l" "l < length (ls_loggers st)"
    "w = worker_sinks env l (lb_msg (am_buf m)) (lg_sinks (ls_loggers st ! l))"
    using assms by (auto simp: process_msg_def split: if_splits bind_splits)
  then show ?thesis by (simp add: finish_def handle_msg_def async_log sink_it_world)
next
  case async_flush
  then show ?thesis using assms
    by (auto simp: process_msg_def finish_def handle_msg_def logger_flush_def split: if_splits bind_splits)
next
  case async_terminate
  then show ?thesis using assms by (auto simp: process_msg_def finish_def handle_msg_def)
qed

lemma worker_step_loggers: "worker_step L w st = Some (w', st') \<Longrightarrow> same_shape st st' \<and> ls_loggers st' = ls_loggers st"
  by (induction L w st rule: worker_step.induct)
    (auto split: bind_splits dest!: shape_sink_loop shape_flush_loop simp del: sink_loop.simps flush_loop.simps)

lemma worker_step_finish: "worker_step L w st = Some (w', st') \<Longrightarrow> finish L w' st' = finish L w st"
proof (induction L w st rule: worker_step.induct)
  case (1 L env l msg a as st)
  then obtain m1 where s: "sink_loop L env (ls_loggers st ! l) [a] msg st = Some (m1, st')" "w' = worker_sinks env l m1 as"
    by (auto split: bind_splits simp del: sink_loop.simps)
  then have "ls_loggers st' = ls_loggers st" using shape_sink_loop by blast
  then show ?case unfolding finish_def s(2) worker.case sink_loop_Cons [of L env _ a as] s(1) by (simp cong: if_cong)
next
  case (3 L a as st)
  then have "flush_loop L [a] st = Some st'" "w' = worker_flush as"
    by (auto split: bind_splits simp del: flush_loop.simps)
  then show ?case using flush_loop_Cons [of L a as st] by (simp add: finish_def del: flush_loop.simps)
qed (auto simp: finish_def)

definition one_worker :: "log_lib \<Rightarrow> log_state \<Rightarrow> pool_sys \<Rightarrow> bool" where
  "one_worker L st0 s \<longleftrightarrow> (\<exists>w. ps_workers s = [w] \<and> visit_all (handle_msg L) (ps_taken s) st0 = finish L w (ps_state s))"

lemma visit_all_snoc: "visit_all f (xs @ [x]) s = do { s' \<leftarrow> visit_all f xs s; f x s' }"
  unfolding visit_all_append by (cases "visit_all f xs s") (auto split: bind_splits)

lemma one_worker_step: "one_worker L st0 s \<Longrightarrow> pool_step L pols s s' \<Longrightarrow> one_worker L st0 s'"
proof -
  assume a: "one_worker L st0 s" and "pool_step L pols s s'"
  from a obtain w where w: "ps_workers s = [w]" "visit_all (handle_msg L) (ps_taken s) st0 = finish L w (ps_state s)"
    by (auto simp: one_worker_def)
  from \<open>pool_step L pols s s'\<close> show ?thesis
  proof cases
    case (step_take i m q' env w')
    then have i: "i = 0" "w = worker_idle" using w(1) by auto
    then show ?thesis
      using w step_take process_finish [OF step_take(5), of L] by (simp add: one_worker_def visit_all_snoc) (simp add: finish_def)
  next
    case (step_work i w' st')
    then have "i = 0" "worker_step L w (ps_state s) = Some (w', st')" using w(1) by auto
    then show ?thesis using w step_work worker_step_finish by (simp add: one_worker_def)
  qed (use a in \<open>simp_all add: one_worker_def posted_def\<close>)
qed

lemma one_worker_reachable: "reachable (pool_step L pols) (pool_start n [worker_idle] st0) s \<Longrightarrow> one_worker L st0 s"
  by (induction rule: reachable.induct)
    (auto simp: one_worker_step, simp add: one_worker_def pool_start_def finish_def)


section \<open>Sinks that always write\<close>

text \<open>A sink with a compiled pattern, whose file is open or whose console prints no colours.\<close>

definition sink_ok :: "sink \<Rightarrow> bool" where
  "sink_ok s \<longleftrightarrow> pf_ok (sk_formatter s) \<and>
     (case sk_out s of file_sink fh \<Rightarrow> fh_fd fh \<noteq> None | console_sink c \<Rightarrow> \<not> cs_do_colors c)"

definition sinks_ok :: "log_state \<Rightarrow> bool" where
  "sinks_ok st \<longleftrightarrow> list_all sink_ok (ls_sinks st) \<and> loggers_ok st"

lemma sink_log_total:
  assumes "sink_ok s" "lib_ok (ll_time L)" "msg_ok m"
  shows "\<exists>ex m' s' w'. sink_log L m s w = Some (ex, m', s', w') \<and> sink_ok s' \<and> msg_ok m'"
proof -
  obtain pf' m' d where f: "pf_format (ll_time L) (ll_pid L) (sk_formatter s) m [] = Some (pf', m', d)" "pf_ok pf'" "msg_ok m'"
    using pf_format_total [of "sk_formatter s" "ll_time L" m "ll_pid L" "[]"] assms unfolding sink_ok_def by blast
  show ?thesis
  proof (cases "sk_out s")
    case (file_sink fh)
    then obtain fl where "fh_fd fh = Some fl" using assms(1) by (auto simp: sink_ok_def)
    then show ?thesis using f file_sink by (auto simp: sink_log_def fh_write_def sink_ok_def split: prod.split)
  next
    case (console_sink c)
    then show ?thesis using f assms(1) by (auto simp: sink_log_def console_log_def print_range_def sink_ok_def)
  qed
qed

lemma sink_flush_total:
  assumes "sink_ok s"
  shows "\<exists>s' w'. sink_flush L s w = Some (s', w') \<and> sink_ok s'"
  using assms by (cases "sk_out s") (auto simp: sink_flush_def fh_flush_def sink_ok_def split: prod.split)

lemma sinks_ok_update: "sinks_ok st \<Longrightarrow> sink_ok s \<Longrightarrow> sinks_ok (st\<lparr>ls_sinks := (ls_sinks st)[a := s], ls_world := w\<rparr>)"
  using set_update_subset_insert [of "ls_sinks st" a s] by (auto simp: sinks_ok_def loggers_ok_def list_all_iff)

lemma sinks_ok_err_handler: "sinks_ok (err_handler env lg ex st) = sinks_ok st"
  by (auto simp: err_handler_def sinks_ok_def loggers_ok_def Let_def split: option.split)

lemma sink_turn_total:
  assumes "sinks_ok st" "lib_ok (ll_time L)" "msg_ok m" "a < length (ls_sinks st)"
  shows "\<exists>m' st'. sink_loop L env lg [a] m st = Some (m', st') \<and> sinks_ok st' \<and> msg_ok m'"
proof (cases "sink_should_log (ls_sinks st ! a) (lm_level m)")
  case True
  have "sink_ok (ls_sinks st ! a)" using assms(1,4) by (simp add: sinks_ok_def list_all_length)
  from sink_log_total [OF this assms(2,3)] obtain ex m' s' w' where
    l: "sink_log L m (ls_sinks st ! a) (ls_world st) = Some (ex, m', s', w')" "sink_ok s'" "msg_ok m'" by blast
  then show ?thesis using True assms(4) sinks_ok_update [OF assms(1) l(2)]
    by (auto simp: Let_def sinks_ok_err_handler split: option.split)
qed (use assms in simp)

lemma flush_turn_total:
  assumes "sinks_ok st" "a < length (ls_sinks st)"
  shows "\<exists>st'. flush_loop L [a] st = Some st' \<and> sinks_ok st'"
proof -
  have "sink_ok (ls_sinks st ! a)" using assms by (simp add: sinks_ok_def list_all_length)
  from sink_flush_total [OF this] obtain s' w' where
    "sink_flush L (ls_sinks st ! a) (ls_world st) = Some (s', w')" "sink_ok s'" by blast
  then show ?thesis using assms sinks_ok_update [OF assms(1)] by auto
qed

section \<open>The end of a pool\<close>

text \<open>What keeps a worker going: the sinks it has still to visit exist.\<close>

definition async_worker_ok :: "log_state \<Rightarrow> worker \<Rightarrow> bool" where
  "async_worker_ok st w \<longleftrightarrow> (case w of
     worker_sinks env l msg as \<Rightarrow> l < length (ls_loggers st) \<and> msg_ok msg \<and> list_all (\<lambda>a. a < length (ls_sinks st)) as
   | worker_flush as \<Rightarrow> list_all (\<lambda>a. a < length (ls_sinks st)) as
   | _ \<Rightarrow> True)"

definition async_msg_ok :: "log_state \<Rightarrow> async_msg \<Rightarrow> bool" where
  "async_msg_ok st m \<longleftrightarrow> (if am_type m = async_terminate then m = terminate_msg
     else \<exists>l. am_worker m = Some l \<and> l < length (ls_loggers st)) \<and> msg_ok (lb_msg (am_buf m))"

definition stopped_count :: "worker list \<Rightarrow> nat" where
  "stopped_count ws = length (filter (\<lambda>w. w = worker_stopped) ws)"

text \<open>
  Where the terminate messages are: none before the destructor, and then behind all others, one for every worker
  that has not stopped; and none of the others is left when a worker has stopped.
\<close>

definition closing_ok :: "pool_sys \<Rightarrow> bool" where
  "closing_ok s \<longleftrightarrow> (case ps_closing s of
     None \<Rightarrow> stopped_count (ps_workers s) = 0 \<and> list_all (\<lambda>m. am_type m \<noteq> async_terminate) (q_elements (ps_q s))
   | Some k \<Rightarrow> (\<exists>A j. q_elements (ps_q s) = A @ replicate j terminate_msg \<and> list_all (\<lambda>m. am_type m \<noteq> async_terminate) A \<and>
       stopped_count (ps_workers s) + j + k = length (ps_workers s) \<and> (stopped_count (ps_workers s) > 0 \<longrightarrow> A = [])))"

definition pool_live :: "nat \<Rightarrow> pool_sys \<Rightarrow> bool" where
  "pool_live n s \<longleftrightarrow> q_invar (ps_q s) \<and> cq_max_items (ps_q s) = Suc n \<and> ps_workers s \<noteq> [] \<and> sinks_ok (ps_state s) \<and> list_all (async_worker_ok (ps_state s)) (ps_workers s) \<and>
     list_all (async_msg_ok (ps_state s)) (q_elements (ps_q s)) \<and> closing_ok s"

lemma stopped_count_update:
  "i < length ws \<Longrightarrow> ws ! i \<noteq> worker_stopped \<Longrightarrow>
   stopped_count (ws[i := w]) = stopped_count ws + (if w = worker_stopped then 1 else 0)"
proof (induction ws arbitrary: i)
  case (Cons v ws)
  then show ?case by (cases i) (auto simp: stopped_count_def)
qed simp

lemma async_worker_ok_shape: "same_shape st st' \<Longrightarrow> async_worker_ok st' w = async_worker_ok st w"
  using same_shape_length [of st st'] by (simp add: async_worker_ok_def same_shape_def split: worker.split)

lemma async_msg_ok_shape: "same_shape st st' \<Longrightarrow> async_msg_ok st' m = async_msg_ok st m"
  using same_shape_length [of st st'] by (simp add: async_msg_ok_def)

lemma worker_step_total:
  assumes "sinks_ok st" "lib_ok (ll_time L)" "async_worker_ok st w" "w \<noteq> worker_idle" "w \<noteq> worker_stopped"
  shows "\<exists>w' st'. worker_step L w st = Some (w', st') \<and> sinks_ok st' \<and> async_worker_ok st' w' \<and> w' \<noteq> worker_stopped"
proof (cases w)
  case (worker_sinks env l msg as)
  show ?thesis
  proof (cases as)
    case Nil
    have "l < length (ls_loggers st)" using assms(3) worker_sinks by (simp add: async_worker_ok_def)
    then have "list_all (\<lambda>a. a < length (ls_sinks st)) (lg_sinks (ls_loggers st ! l))"
      using assms(1) by (simp add: sinks_ok_def loggers_ok_def list_all_length)
    then show ?thesis using worker_sinks Nil assms(1) by (simp add: async_worker_ok_def)
  next
    case (Cons a as')
    with assms(3) worker_sinks have o: "a < length (ls_sinks st)" "msg_ok msg" by (simp_all add: async_worker_ok_def)
    from sink_turn_total [OF assms(1,2) o(2,1), of env "ls_loggers st ! l"] obtain m' st' where
      t: "sink_loop L env (ls_loggers st ! l) [a] msg st = Some (m', st')" "sinks_ok st'" "msg_ok m'" by blast
    have "async_worker_ok st (worker_sinks env l m' as')" using assms(3) worker_sinks Cons t(3) by (simp add: async_worker_ok_def)
    then show ?thesis
      using worker_sinks Cons t async_worker_ok_shape [OF shape_sink_loop [OF t(1), THEN conjunct1]] by (simp del: sink_loop.simps)
  qed
next
  case (worker_flush as)
  show ?thesis
  proof (cases as)
    case (Cons a as')
    with assms(3) worker_flush have "a < length (ls_sinks st)" by (simp add: async_worker_ok_def)
    from flush_turn_total [OF assms(1) this, of L] obtain st' where t: "flush_loop L [a] st = Some st'" "sinks_ok st'" by blast
    have "async_worker_ok st (worker_flush as')" using assms(3) worker_flush Cons by (simp add: async_worker_ok_def)
    then show ?thesis
      using worker_flush Cons t async_worker_ok_shape [OF shape_flush_loop [OF t(1), THEN conjunct1]] by (simp del: flush_loop.simps)
  qed (use assms worker_flush in \<open>simp add: async_worker_ok_def\<close>)
qed (use assms in simp_all)

lemma process_msg_total:
  assumes "sinks_ok st" "async_msg_ok st m"
  shows "\<exists>w. process_msg env (ls_loggers st) m = Some w \<and> async_worker_ok st w \<and> (w = worker_stopped \<longleftrightarrow> am_type m = async_terminate)"
proof -
  have "list_all (\<lambda>a. a < length (ls_sinks st)) (lg_sinks (ls_loggers st ! l))" if "l < length (ls_loggers st)" for l
    using assms(1) that by (simp add: sinks_ok_def loggers_ok_def list_all_length)
  then show ?thesis using assms(2)
    by (cases "am_type m") (auto simp: process_msg_def async_msg_ok_def async_worker_ok_def)
qed

lemma pushed_all:
  fixes q :: "async_msg circular_q"
  assumes "q_invar q" "0 < cq_max_items q" "q_push_back m q = Some q'" "list_all P (q_elements q)" "P m"
  shows "list_all P (q_elements q')"
proof -
  have "list_all P (overrun q m @ q_elements q')" unfolding push_spec(4) [OF assms(1-3)] using assms(4,5) by simp
  then show ?thesis by simp
qed

lemma msg_ok_empty [simp]: "msg_ok empty_log_msg"
  by (simp add: msg_ok_def empty_log_msg_def no_source_loc_def source_loc_empty_def)

lemma terminate_msg_ok [simp]: "async_msg_ok st terminate_msg" "am_type terminate_msg = async_terminate"
  by (simp_all add: async_msg_ok_def terminate_msg_def plain_async_msg_def empty_log_msg_buffer_def)

lemma pool_live_program:
  assumes "pool_live n s" "ps_closing s = None" "q_push_back m (ps_q s) = Some q'" "async_msg_ok (ps_state s) m"
    "am_type m \<noteq> async_terminate"
  shows "pool_live n (posted m q' s)"
proof -
  have q: "q_invar (ps_q s)" "0 < cq_max_items (ps_q s)" using assms(1) by (simp_all add: pool_live_def)
  note p = push_spec(1,2) [OF q assms(3)] pushed_all [OF q assms(3)]
  show ?thesis using assms p by (simp add: pool_live_def posted_def closing_ok_def)
qed

lemma pool_live_terminate:
  assumes "pool_live n s" "ps_closing s = Some (Suc k)" "q_push_back terminate_msg (ps_q s) = Some q'" "\<not> q_full (ps_q s)"
  shows "pool_live n (posted terminate_msg q' (s\<lparr>ps_closing := Some k\<rparr>))"
proof -
  have q: "q_invar (ps_q s)" "0 < cq_max_items (ps_q s)" using assms(1) by (simp_all add: pool_live_def)
  note p = push_spec [OF q assms(3)]
  have e: "q_elements q' = q_elements (ps_q s) @ [terminate_msg]"
    using p(4) length_overrun [OF q, of terminate_msg] assms(4) by simp
  from assms(1,2) obtain A j where A: "q_elements (ps_q s) = A @ replicate j terminate_msg"
    "list_all (\<lambda>m. am_type m \<noteq> async_terminate) A" "stopped_count (ps_workers s) + j + Suc k = length (ps_workers s)"
    "stopped_count (ps_workers s) > 0 \<longrightarrow> A = []"
    by (auto simp: pool_live_def closing_ok_def)
  have "q_elements q' = A @ replicate (Suc j) terminate_msg" by (simp add: e A(1) replicate_append_same)
  then have "closing_ok (posted terminate_msg q' (s\<lparr>ps_closing := Some k\<rparr>))"
    using A by (auto simp: closing_ok_def posted_def intro!: exI [of _ A] exI [of _ "Suc j"])
  then show ?thesis using assms(1) p(1,2) by (simp add: pool_live_def posted_def e)
qed

lemma pool_live_take:
  assumes live: "pool_live n s" and i: "i < length (ps_workers s)" "ps_workers s ! i = worker_idle"
    and d: "dequeue_for (ps_q s) = Some (Some m, q')" and w: "process_msg env (ls_loggers (ps_state s)) m = Some w"
  shows "pool_live n (s\<lparr>ps_q := q', ps_workers := (ps_workers s)[i := w], ps_taken := T\<rparr>)"
proof -
  have q: "q_invar (ps_q s)" and so: "sinks_ok (ps_state s)" using live by (simp_all add: pool_live_def)
  note dq = dequeue_spec [OF q d]
  have m: "async_msg_ok (ps_state s) m" using live dq by (simp add: pool_live_def)
  have wo: "async_worker_ok (ps_state s) w" "w = worker_stopped \<longleftrightarrow> am_type m = async_terminate"
    using process_msg_total [OF so m, of env] w by auto
  note cnt = stopped_count_update [OF i(1), of w, unfolded i(2), simplified]
  have "closing_ok (s\<lparr>ps_q := q', ps_workers := (ps_workers s)[i := w], ps_taken := T\<rparr>)"
  proof (cases "ps_closing s")
    case None
    then show ?thesis using live dq wo(2) cnt by (auto simp: pool_live_def closing_ok_def)
  next
    case (Some k)
    with live obtain A j where A: "q_elements (ps_q s) = A @ replicate j terminate_msg"
      "list_all (\<lambda>m. am_type m \<noteq> async_terminate) A" "stopped_count (ps_workers s) + j + k = length (ps_workers s)"
      "stopped_count (ps_workers s) > 0 \<longrightarrow> A = []"
      by (auto simp: pool_live_def closing_ok_def)
    show ?thesis
    proof (cases A)
      case Nil
      then obtain j' where "j = Suc j'" "m = terminate_msg" "q_elements q' = replicate j' terminate_msg"
        using A(1) dq by (cases j) auto
      then show ?thesis using A Nil Some wo(2) cnt
        by (auto simp: closing_ok_def intro!: exI [of _ "[]"] exI [of _ j'])
    next
      case (Cons a A')
      then have "a = m" "q_elements q' = A' @ replicate j terminate_msg" using A(1) dq by auto
      then show ?thesis using A Cons Some wo(2) cnt
        by (auto simp: closing_ok_def intro!: exI [of _ A'] exI [of _ j])
    qed
  qed
  moreover have "list_all (async_worker_ok (ps_state s)) ((ps_workers s)[i := w])"
    using live wo(1) set_update_subset_insert [of "ps_workers s" i w] by (auto simp: pool_live_def list_all_iff)
  ultimately show ?thesis using live dq by (simp add: pool_live_def)
qed

lemma worker_step_active: "worker_step L w st = Some r \<Longrightarrow> w \<noteq> worker_idle \<and> w \<noteq> worker_stopped"
  by (cases w) auto

lemma pool_live_work:
  assumes live: "pool_live n s" and lib: "lib_ok (ll_time L)" and i: "i < length (ps_workers s)"
    and w: "worker_step L (ps_workers s ! i) (ps_state s) = Some (w, st')"
  shows "pool_live n (s\<lparr>ps_workers := (ps_workers s)[i := w], ps_state := st'\<rparr>)"
proof -
  have act: "ps_workers s ! i \<noteq> worker_idle" "ps_workers s ! i \<noteq> worker_stopped" using worker_step_active [OF w] by simp_all
  have "sinks_ok (ps_state s)" "async_worker_ok (ps_state s) (ps_workers s ! i)"
    using live i by (simp_all add: pool_live_def list_all_length)
  from worker_step_total [OF this(1) lib this(2) act] w have t: "sinks_ok st'" "async_worker_ok st' w" "w \<noteq> worker_stopped"
    by auto
  have sh: "same_shape (ps_state s) st'" using worker_step_loggers [OF w] by simp
  have "closing_ok (s\<lparr>ps_workers := (ps_workers s)[i := w], ps_state := st'\<rparr>) = closing_ok s"
    using stopped_count_update [OF i act(2), of w] t(3) by (simp add: closing_ok_def split: option.split)
  moreover have "list_all (async_worker_ok st') ((ps_workers s)[i := w])"
    using live t(2) set_update_subset_insert [of "ps_workers s" i w] async_worker_ok_shape [OF sh]
    by (auto simp: pool_live_def list_all_iff)
  ultimately show ?thesis
    using live t(1) async_msg_ok_shape [OF sh] by (simp add: pool_live_def list_all_iff)
qed

definition posted_ok :: "pool_sys \<Rightarrow> bool" where
  "posted_ok s \<longleftrightarrow> list_all (\<lambda>m. msg_ok (lb_msg (am_buf m))) (ps_posted s)"

lemma pool_live_step:
  assumes "posted_ok s \<longrightarrow> pool_live n s" "pool_step L pols s s'" "lib_ok (ll_time L)"
  shows "posted_ok s' \<longrightarrow> pool_live n s'"
  using assms(2)
proof cases
  case (step_post_log policy l msg q')
  then show ?thesis using assms(1) async_sink_it_pushes(1) [OF step_post_log(5)]
    by (auto simp: posted_ok_def posted_def [of _ _ s] intro!: pool_live_program [unfolded posted_def] simp: async_msg_ok_def make_async_msg_def)
next
  case (step_post_flush policy l q')
  then show ?thesis using assms(1) async_sink_it_pushes(2) [OF step_post_flush(5)]
    by (auto simp: posted_ok_def posted_def [of _ _ s] intro!: pool_live_program [unfolded posted_def]
        simp: async_msg_ok_def plain_async_msg_def empty_log_msg_buffer_def)
next
  case step_destroy
  show ?thesis
  proof
    assume "posted_ok s'"
    then have "pool_live n s" using assms(1) step_destroy by (simp add: posted_ok_def)
    then show "pool_live n s'" using step_destroy
      by (auto simp: pool_live_def closing_ok_def intro!: exI [of _ "q_elements (ps_q s)"] exI [of _ 0])
  qed
next
  case (step_terminate k q')
  then show ?thesis using assms(1) post_pushes [OF step_terminate(3)]
    by (auto simp: posted_ok_def posted_def intro!: pool_live_terminate [unfolded posted_def, simplified])
next
  case (step_take i m q' env w)
  then show ?thesis using assms(1) pool_live_take [OF _ step_take(2-5)] by (auto simp: posted_ok_def)
next
  case (step_work i w st')
  then show ?thesis using assms(1,3) pool_live_work [OF _ _ step_work(2,3)] by (auto simp: posted_ok_def)
qed

lemma pool_live_start:
  assumes "n < 2 ^ 64 - 1" "thread_pool_threads t = Inr ws" "sinks_ok st"
  shows "pool_live n (pool_start n ws st)"
proof -
  have ws: "ws = replicate t worker_idle" "0 < t" using assms(2) by (auto simp: thread_pool_threads_def split: if_splits)
  then have "stopped_count ws = 0" by (simp add: stopped_count_def)
  then show ?thesis using sized_q_spec [OF assms(1), of empty_async_msg] assms(3) ws
    by (auto simp: pool_live_def pool_start_def closing_ok_def async_worker_ok_def list_all_iff)
qed

text \<open>While a worker has not stopped, something can happen: its work, its next message, or the next terminate message.\<close>

lemma pool_progress:
  assumes live: "pool_live n s" and n: "0 < n" and lib: "lib_ok (ll_time L)" and c: "ps_closing s = Some k"
    and i: "i < length (ps_workers s)" "ps_workers s ! i \<noteq> worker_stopped"
  shows "\<exists>s'. pool_step L pols s s'"
proof (cases "ps_workers s ! i = worker_idle")
  case False
  have "sinks_ok (ps_state s)" "async_worker_ok (ps_state s) (ps_workers s ! i)"
    using live i by (simp_all add: pool_live_def list_all_length)
  from worker_step_total [OF this(1) lib this(2) False i(2)] show ?thesis using i(1) pool_step.step_work by blast
next
  case idle: True
  have q: "q_invar (ps_q s)" and so: "sinks_ok (ps_state s)" using live by (simp_all add: pool_live_def)
  show ?thesis
  proof (cases "q_elements (ps_q s)")
    case (Cons m ms)
    then have "async_msg_ok (ps_state s) m" using live by (simp add: pool_live_def)
    from process_msg_total [OF so this, of "\<lparr>env_now = 0, env_thread = 0\<rparr>"] obtain w where
      "process_msg \<lparr>env_now = 0, env_thread = 0\<rparr> (ls_loggers (ps_state s)) m = Some w" by blast
    then show ?thesis using dequeue_ready [OF q Cons] pool_step.step_take [OF i(1) idle] by blast
  next
    case Nil
    then have "stopped_count (ps_workers s) + k = length (ps_workers s)"
      using live c by (auto simp: pool_live_def closing_ok_def)
    moreover have "stopped_count (ps_workers s) < length (ps_workers s)"
      unfolding stopped_count_def using i by (intro length_filter_less [of "ps_workers s ! i"]) auto
    ultimately obtain k' where k: "k = Suc k'" by (cases k) auto
    have "q_size (ps_q s) = 0" using Nil length_q_elements [of "ps_q s"] by simp
    moreover have "q_cap (ps_q s) = n" using live by (simp add: pool_live_def q_cap_def)
    ultimately have "\<not> q_full (ps_q s)" using q_full_law [OF q] live n by (simp add: pool_live_def)
    moreover obtain q' where "q_push_back terminate_msg (ps_q s) = Some q'" using circ.push_law [OF q] by blast
    ultimately have "post_async_msg terminate_msg policy_block (ps_q s) = Proceeds (Some q')"
      by (simp add: post_async_msg_def enqueue_def)
    then show ?thesis using pool_step.step_terminate c k by blast
  qed
qed

text \<open>The work that is left, which every step of a closing pool reduces.\<close>

definition msg_cost :: "log_state \<Rightarrow> async_msg \<Rightarrow> nat" where
  "msg_cost st m = (let n = length (lg_sinks (ls_loggers st ! the (am_worker m))) in
     case am_type m of async_log \<Rightarrow> 2 * n + 3 | async_flush \<Rightarrow> n + 2 | async_terminate \<Rightarrow> 1)"

definition worker_cost :: "log_state \<Rightarrow> worker \<Rightarrow> nat" where
  "worker_cost st w = (case w of
     worker_sinks env l msg as \<Rightarrow> length as + length (lg_sinks (ls_loggers st ! l)) + 2
   | worker_flush as \<Rightarrow> length as + 1
   | _ \<Rightarrow> 0)"

definition work_left :: "pool_sys \<Rightarrow> nat" where
  "work_left s = (case ps_closing s of None \<Rightarrow> 0 | Some k \<Rightarrow> 2 * k) + sum_list (map (msg_cost (ps_state s)) (q_elements (ps_q s))) +
     sum_list (map (worker_cost (ps_state s)) (ps_workers s))"

lemma cost_loggers: "ls_loggers st' = ls_loggers st \<Longrightarrow> msg_cost st' = msg_cost st \<and> worker_cost st' = worker_cost st"
  by (simp add: msg_cost_def [abs_def] worker_cost_def [abs_def])

lemma sum_list_map_update:
  fixes f :: "'a \<Rightarrow> nat"
  shows "i < length xs \<Longrightarrow> sum_list (map f (xs[i := x])) + f (xs ! i) = sum_list (map f xs) + f x"
proof (induction xs arbitrary: i)
  case (Cons y ys)
  then show ?case by (cases i) auto
qed simp

lemma process_msg_cost:
  "process_msg env (ls_loggers st) m = Some w \<Longrightarrow> worker_cost st w < msg_cost st m"
  by (auto simp: process_msg_def msg_cost_def worker_cost_def split: async_msg_type.splits bind_splits if_splits)

lemma worker_step_cost:
  "worker_step L w st = Some (w', st') \<Longrightarrow> worker_cost st w' < worker_cost st w"
  by (induction L w st rule: worker_step.induct)
    (auto simp: worker_cost_def split: bind_splits simp del: sink_loop.simps flush_loop.simps)

lemma closing_step:
  assumes a: "pool_accounts pols s" and c: "ps_closing s = Some k" and st: "pool_step L pols s s'"
  shows "work_left s' < work_left s \<and> (\<exists>k'. ps_closing s' = Some k')"
proof -
  have q: "q_invar (ps_q s)" "0 < cq_max_items (ps_q s)" using a by (simp_all add: pool_accounts_def)
  from st show ?thesis
  proof cases
    case (step_terminate k' q')
    have "q_elements q' = q_elements (ps_q s) @ [terminate_msg]"
      using post_pushes [OF step_terminate(3)] push_spec(4) [OF q, of terminate_msg q'] length_overrun [OF q, of terminate_msg]
      by simp
    then show ?thesis using step_terminate by (simp add: work_left_def posted_def msg_cost_def)
  next
    case (step_take i m q' env w)
    note d = dequeue_spec [OF q(1) step_take(4)]
    have "worker_cost (ps_state s) (ps_workers s ! i) = 0" using step_take(3) by (simp add: worker_cost_def)
    then show ?thesis
      using step_take c d process_msg_cost [OF step_take(5)] sum_list_map_update [OF step_take(2), of "worker_cost (ps_state s)" w]
      by (simp add: work_left_def)
  next
    case (step_work i w st')
    have "ls_loggers st' = ls_loggers (ps_state s)" using worker_step_loggers [OF step_work(3)] by simp
    from cost_loggers [OF this] show ?thesis
      using step_work c worker_step_cost [OF step_work(3)] sum_list_map_update [OF step_work(2), of "worker_cost (ps_state s)" w]
      by (simp add: work_left_def)
  qed (use c in simp_all)
qed

lemma closing_ends:
  assumes "pool_accounts pols s" "ps_closing s = Some k"
  shows "\<not> (\<exists>f. f 0 = s \<and> (\<forall>i. pool_step L pols (f i) (f (Suc i))))"
proof
  assume "\<exists>f. f 0 = s \<and> (\<forall>i. pool_step L pols (f i) (f (Suc i)))"
  then obtain f where f: "f 0 = s" "\<And>i. pool_step L pols (f i) (f (Suc i))" by blast
  have "pool_accounts pols (f i) \<and> (\<exists>k. ps_closing (f i) = Some k) \<and> work_left (f i) + i \<le> work_left s" for i
  proof (induction i)
    case (Suc i)
    then show ?case using pool_accounts_step [OF _ f(2) [of i]] closing_step [OF _ _ f(2) [of i]] by fastforce
  qed (use assms f(1) in simp)
  from this [of "Suc (work_left s)"] show False by simp
qed

section \<open>Properties\<close>

text \<open>A run: a logger without sinks posts a message, the only thread handles it, and the pool is destroyed.\<close>

definition demo_state :: log_state where
  "demo_state = (empty_log_state \<lparr>w_dirs = [], w_files = Map.empty, w_calls = 0, w_console = [], w_bufsize = 4096, w_spill = (\<lambda>_. 0)\<rparr>)
     \<lparr>ls_loggers := [make_logger ''t'' []]\<rparr>"

definition demo_log_lib :: log_lib where
  "demo_log_lib = \<lparr>ll_time = \<lparr>lib_localtime = (\<lambda>_. zero_tm), lib_gmtime = (\<lambda>_. zero_tm)\<rparr>, ll_pid = 1, ll_fault = (\<lambda>_. None)\<rparr>"

definition demo_env_log :: log_env where
  "demo_env_log = \<lparr>env_now = 1, env_thread = 1\<rparr>"

definition demo_async :: async_msg where
  "demo_async = make_async_msg (Some 0) async_log (make_log_msg demo_env_log no_source_loc ''t'' level_info ''hello'')"

lemma demo_posted:
  "\<exists>s. reachable (pool_step L {policy_block}) (pool_start 4 [worker_idle] demo_state) s \<and> ps_posted s = [demo_async] \<and>
     ps_workers s = [worker_idle] \<and> ps_closing s = None \<and> ps_state s = demo_state \<and> q_invar (ps_q s) \<and> q_elements (ps_q s) = [demo_async]"
proof -
  let ?s = "pool_start 4 [worker_idle] demo_state"
  have q: "q_invar (ps_q ?s)" "cq_max_items (ps_q ?s) = 5" "q_elements (ps_q ?s) = []" "q_cap (ps_q ?s) = 4"
    using sized_q_spec [of 4 empty_async_msg] by (simp_all add: pool_start_def)
  then have "\<not> q_full (ps_q ?s)" using q_full_law [of "ps_q ?s"] length_q_elements [of "ps_q ?s"] by simp
  moreover obtain q' where q': "q_push_back demo_async (ps_q ?s) = Some q'" "q_invar q'" "q_elements q' = [demo_async]"
    using circ.push_law [OF q(1), of demo_async] q by auto
  ultimately have "async_sink_it 0 policy_block (make_log_msg demo_env_log no_source_loc ''t'' level_info ''hello'') (Some (ps_q ?s)) =
      Inr (Proceeds (Some q'))"
    by (simp add: async_sink_it_def post_log_def post_async_msg_def enqueue_def demo_async_def)
  then have "pool_step L {policy_block} ?s (posted demo_async q' ?s)"
    unfolding demo_async_def by (intro pool_step.step_post_log) (simp_all add: pool_start_def demo_state_def)
  then have "reachable (pool_step L {policy_block}) ?s (posted demo_async q' ?s)"
    by (rule reachable_step [OF reachable_init])
  then show ?thesis using q'
    by (intro exI [of _ "posted demo_async q' ?s"]) (simp add: posted_def pool_start_def)
qed

lemma demo_handled:
  "\<exists>s. reachable (pool_step L {policy_block}) (pool_start 4 [worker_idle] demo_state) s \<and> ps_posted s = [demo_async] \<and>
     ps_workers s = [worker_idle] \<and> q_elements (ps_q s) = []"
proof -
  obtain s where s: "reachable (pool_step L {policy_block}) (pool_start 4 [worker_idle] demo_state) s" "ps_posted s = [demo_async]"
    "ps_workers s = [worker_idle]" "ps_state s = demo_state" "q_invar (ps_q s)" "q_elements (ps_q s) = [demo_async]"
    using demo_posted by blast
  obtain q' where d: "dequeue_for (ps_q s) = Some (Some demo_async, q')" using dequeue_ready [OF s(5,6)] by blast
  have e: "q_elements q' = []" using dequeue_spec [OF s(5) d] s(6) by simp
  let ?m = "make_log_msg demo_env_log no_source_loc ''t'' level_info ''hello''"
  let ?s1 = "s\<lparr>ps_q := q', ps_workers := (ps_workers s)[0 := worker_sinks demo_env_log 0 ?m []],
    ps_taken := ps_taken s @ [(demo_env_log, demo_async)]\<rparr>"
  let ?s2 = "?s1\<lparr>ps_workers := (ps_workers ?s1)[0 := worker_idle], ps_state := ps_state ?s1\<rparr>"
  have "pool_step L {policy_block} s ?s1"
    by (rule pool_step.step_take [OF _ _ d])
      (simp_all add: s process_msg_def demo_async_def make_async_msg_def demo_state_def make_logger_def)
  moreover have "pool_step L {policy_block} ?s1 ?s2"
    by (rule pool_step.step_work)
      (simp_all add: s demo_state_def make_logger_def should_flush_def make_log_msg_def less_eq_level_enum_def)
  ultimately have "reachable (pool_step L {policy_block}) (pool_start 4 [worker_idle] demo_state) ?s2"
    by (intro reachable_step [OF reachable_step [OF s(1)]])
  then show ?thesis by (intro exI [of _ ?s2]) (simp add: s e)
qed

text \<open>
  C35: Asynchronous messages are neither duplicated nor reordered, and the lost ones are counted: in every
  interleaving of posting threads and workers, the messages taken so far followed by those in the queue are a
  subsequence of those posted; every message posted was taken, waits, or was overrun; the counter of the queue
  is the number of overrun messages (modulo \<open>2 ^ 64\<close>); and when every logger blocks on overflow, nothing is
  lost at all.
\<close>

theorem async_messages_accounted:
  assumes "n < 2 ^ 64 - 1" "reachable (pool_step L pols) (pool_start n ws st) s"
  shows "subseq (map snd (ps_taken s) @ q_elements (ps_q s)) (ps_posted s) \<and>
    mset (ps_posted s) = mset (map snd (ps_taken s)) + mset (q_elements (ps_q s)) + mset (ps_lost s) \<and>
    cq_overrun_counter (ps_q s) mod 2 ^ 64 = length (ps_lost s) mod 2 ^ 64 \<and>
    (pols \<subseteq> {policy_block} \<longrightarrow> map snd (ps_taken s) @ q_elements (ps_q s) = ps_posted s \<and> ps_lost s = [])"
proof -
  have a: "pool_accounts pols s" using pool.reachable_inv [OF assms(2)] assms(1) by simp
  then show ?thesis using block_keeps_order [OF a] by (simp add: pool_accounts_def)
qed

theorem async_messages_accounted_witness:
  "\<exists>s :: pool_sys. ps_posted s = [demo_async] \<and> map snd (ps_taken s) = [demo_async] \<and> ps_lost s = []"
proof -
  obtain s where s: "reachable (pool_step demo_log_lib {policy_block}) (pool_start 4 [worker_idle] demo_state) s"
    "ps_posted s = [demo_async]" "q_elements (ps_q s) = []" using demo_handled [of demo_log_lib] by blast
  from async_messages_accounted [OF _ s(1)] s(2,3) show ?thesis by (intro exI [of _ s]) auto
qed

text \<open>
  C36: A pool with one thread does to the sinks exactly what synchronous loggers do: whenever its thread is in
  front of the queue or has ended, sinks, files and console are in the state that results from handling the
  messages taken so far one after the other, in the order of posting, as the calling threads would have done
  themselves; with loggers that block on overflow these are all messages but those still in the queue.
\<close>

theorem async_equals_sync:
  assumes "n < 2 ^ 64 - 1" "reachable (pool_step L pols) (pool_start n [worker_idle] st0) s"
    and "ps_workers s = [w]" "w \<in> {worker_idle, worker_stopped}"
  shows "\<exists>log. visit_all (handle_msg L) log st0 = Some (ps_state s) \<and> subseq (map snd log) (ps_posted s) \<and>
    (pols \<subseteq> {policy_block} \<longrightarrow> map snd log @ q_elements (ps_q s) = ps_posted s)"
proof -
  have a: "pool_accounts pols s" using pool.reachable_inv [OF assms(2)] assms(1) by simp
  have "visit_all (handle_msg L) (ps_taken s) st0 = Some (ps_state s)"
    using one_worker_reachable [OF assms(2)] assms(3,4) by (auto simp: one_worker_def finish_def)
  moreover have "subseq (map snd (ps_taken s)) (map snd (ps_taken s) @ q_elements (ps_q s))"
    by (intro list_emb_prefix) simp
  then have "subseq (map snd (ps_taken s)) (ps_posted s)"
    using a subseq_order.trans unfolding pool_accounts_def by blast
  ultimately show ?thesis using block_keeps_order [OF a] by blast
qed

theorem async_equals_sync_witness:
  "\<exists>(s :: pool_sys) log. ps_posted s = [demo_async] \<and> map snd log = [demo_async] \<and>
     visit_all (handle_msg demo_log_lib)
       log demo_state = Some (ps_state s)"
proof -
  obtain s where s: "reachable (pool_step demo_log_lib {policy_block}) (pool_start 4 [worker_idle] demo_state) s" "ps_posted s = [demo_async]"
    "ps_workers s = [worker_idle]" "q_elements (ps_q s) = []" using demo_handled by blast
  from async_equals_sync [OF _ s(1,3)] s(4) have "\<exists>log. visit_all (handle_msg demo_log_lib) log demo_state = Some (ps_state s) \<and>
      map snd log = ps_posted s" by simp blast
  then obtain log where "visit_all (handle_msg demo_log_lib) log demo_state = Some (ps_state s)" "map snd log = ps_posted s"
    by blast
  then show ?thesis using s(2) by (intro exI [of _ s] exI [of _ log]) simp
qed

text \<open>
  C37: The destructor of a pool whose queue has room for at least one message (with capacity 0 it hangs), and whose
  messages go to sinks that read nothing outside their text (no coloured console sink), returns under every
  schedule: once it runs, something can happen as long as a thread has not stopped; there is no endless run; and
  when all threads have stopped, all terminate messages are posted and the queue is empty. If all loggers block when
  the queue is full, every posted message was then taken, in order; loggers that overrun may have lost some.
\<close>

theorem pool_shutdown:
  assumes n: "0 < n" "n < 2 ^ 64 - 1" and t: "thread_pool_threads t = Inr ws" and env: "sinks_ok st" "lib_ok (ll_time L)"
    and r: "reachable (pool_step L pols) (pool_start n ws st) s" and c: "ps_closing s = Some k" and p: "posted_ok s"
  shows "(list_all (\<lambda>w. w = worker_stopped) (ps_workers s) \<or> (\<exists>s'. pool_step L pols s s')) \<and>
    \<not> (\<exists>f. f 0 = s \<and> (\<forall>i. pool_step L pols (f i) (f (Suc i)))) \<and>
    (list_all (\<lambda>w. w = worker_stopped) (ps_workers s) \<longrightarrow> k = 0 \<and> q_elements (ps_q s) = [] \<and>
       (pols \<subseteq> {policy_block} \<longrightarrow> map snd (ps_taken s) = ps_posted s))"
proof -
  have a: "pool_accounts pols s" using pool.reachable_inv [OF r] n(2) by simp
  from r have "posted_ok s \<longrightarrow> pool_live n s"
    by (induction rule: reachable.induct)
      (use pool_live_start [OF n(2) t env(1)] pool_live_step [OF _ _ env(2)] in blast)+
  then have live: "pool_live n s" using p by simp
  have "list_all (\<lambda>w. w = worker_stopped) (ps_workers s) \<or> (\<exists>s'. pool_step L pols s s')"
    using pool_progress [OF live n(1) env(2) c] by (auto simp: list_all_length)
  moreover have "k = 0 \<and> q_elements (ps_q s) = []" if "list_all (\<lambda>w. w = worker_stopped) (ps_workers s)"
  proof -
    have "stopped_count (ps_workers s) = length (ps_workers s)" "ps_workers s \<noteq> []"
      using that live by (simp_all add: stopped_count_def list_all_iff pool_live_def)
    then show ?thesis using live c by (auto simp: pool_live_def closing_ok_def)
  qed
  ultimately show ?thesis using closing_ends [OF a c] block_keeps_order [OF a] by auto
qed

theorem pool_shutdown_witness:
  "\<exists>s s'. ps_posted s = [demo_async] \<and> ps_workers s = [worker_idle] \<and>
     pool_step demo_log_lib {policy_block} s s'"
proof -
  obtain s where s: "reachable (pool_step demo_log_lib {policy_block}) (pool_start 4 [worker_idle] demo_state) s" "ps_posted s = [demo_async]"
    "ps_workers s = [worker_idle]" "ps_closing s = None" using demo_posted by blast
  let ?s = "s\<lparr>ps_closing := Some (length (ps_workers s))\<rparr>"
  have r: "reachable (pool_step demo_log_lib {policy_block}) (pool_start 4 [worker_idle] demo_state) ?s"
    by (rule reachable_step [OF s(1)]) (rule step_destroy [OF s(4)])
  have "thread_pool_threads 1 = Inr [worker_idle]" by (simp add: thread_pool_threads_def)
  moreover have "sinks_ok demo_state"
    by (simp add: sinks_ok_def loggers_ok_def demo_state_def empty_log_state_def make_logger_def)
  moreover have "lib_ok (ll_time demo_log_lib)" by (simp add: demo_log_lib_def lib_ok_def tm_ok_def zero_tm_def)
  moreover have "posted_ok ?s"
    by (simp add: posted_ok_def s demo_async_def make_async_msg_def make_log_msg_def msg_ok_def no_source_loc_def source_loc_empty_def)
  ultimately have "list_all (\<lambda>w. w = worker_stopped) (ps_workers ?s) \<or> (\<exists>s'. pool_step demo_log_lib {policy_block} ?s s')"
    using pool_shutdown [OF _ _ _ _ _ r] by simp
  then obtain s' where "pool_step demo_log_lib {policy_block} ?s s'" using s(3) by auto
  then show ?thesis using s(2,3) by (intro exI [of _ ?s] exI [of _ s']) simp
qed

text \<open>
  A pool whose queue has capacity zero passes on nothing, and its destructor never returns: the queue is full and
  empty at the same time, so that the first terminate message waits for ever.
\<close>

lemma zero_capacity_hangs:
  assumes t: "thread_pool_threads t = Inr ws" and r: "reachable (pool_step L pols) (pool_start 0 ws st) s"
  shows "ps_taken s = [] \<and> (ps_closing s \<noteq> None \<longrightarrow> \<not> (\<exists>s'. pool_step L pols s s') \<and> list_all (\<lambda>w. w = worker_idle) (ps_workers s))"
proof -
  define stuck where "stuck s \<longleftrightarrow> cq_max_items (ps_q s) = 1 \<and> cq_head (ps_q s) = 0 \<and> cq_tail (ps_q s) = 0 \<and> ps_taken s = [] \<and>
    list_all (\<lambda>w. w = worker_idle) (ps_workers s)" for s :: pool_sys
  have full: "q_full q" "q_empty q" if "cq_max_items q = 1" "cq_head q = 0" "cq_tail q = 0" for q :: "async_msg circular_q"
    using that by (simp_all add: q_full_def q_empty_def)
  have push: "cq_max_items q' = 1 \<and> cq_head q' = 0 \<and> cq_tail q' = 0"
    if "cq_max_items q = 1" "cq_head q = 0" "cq_tail q = 0" "q_push_back m q = Some q'" for q q' :: "async_msg circular_q" and m
    using that by (auto simp: q_push_back_def Let_def split: if_splits)
  have take: "dequeue_for q \<noteq> Some (Some m, q')" if "q_empty q" for q q' :: "async_msg circular_q" and m
    using that by (simp add: dequeue_for_def)
  have none: "worker_step L (ps_workers s ! i) st' = None" if "stuck s" "i < length (ps_workers s)" for s i st'
    using that by (simp add: stuck_def list_all_length)
  have "stuck s" using r
  proof (induction rule: reachable.induct)
    case reachable_init
    then show ?case using t by (auto simp: stuck_def pool_start_def sized_q_def thread_pool_threads_def list_all_iff split: if_splits)
  next
    case (reachable_step y z)
    note y = reachable_step.IH [unfolded stuck_def]
    have post: "stuck (posted m q' y)" if "q_push_back m (ps_q y) = Some q'" for m q'
      using push [OF _ _ _ that] y by (simp add: stuck_def posted_def)
    from reachable_step.hyps(2) show ?case
    proof cases
      case (step_post_log policy l msg q')
      then show ?thesis using post async_sink_it_pushes(1) [OF step_post_log(5)] by simp
    next
      case (step_post_flush policy l q')
      then show ?thesis using post async_sink_it_pushes(2) [OF step_post_flush(5)] by simp
    next
      case (step_terminate k q')
      then show ?thesis using y full(1) [of "ps_q y"] by (simp add: post_async_msg_def enqueue_def)
    next
      case (step_take i m q' env w)
      then show ?thesis using y take full(2) by blast
    next
      case (step_work i w st')
      then show ?thesis using none [OF reachable_step.IH] by simp
    qed (use reachable_step.IH in \<open>simp_all add: stuck_def\<close>)
  qed
  moreover have "\<not> pool_step L pols s s'" if "ps_closing s \<noteq> None" "stuck s" for s'
  proof
    assume "pool_step L pols s s'"
    then show False
    proof cases
      case (step_terminate k q')
      then show ?thesis using that full(1) [of "ps_q s"] by (simp add: stuck_def post_async_msg_def enqueue_def)
    next
      case (step_take i m q' env w)
      then show ?thesis using that take full(2) unfolding stuck_def by blast
    next
      case (step_work i w st')
      then show ?thesis using none [OF that(2)] by simp
    qed (use that in simp_all)
  qed
  ultimately show ?thesis by (auto simp: stuck_def)
qed

end
