(* ===== verification/Log_Rotate.thy ===== *)
theory Log_Rotate
  imports Log_Logger "HOL-Library.Sublist"
begin

text \<open>
  The rotating file sink (\<^verbatim>\<open>src/inc/spdlog/sinks/rotating_file_sink.h\<close> and \<^verbatim>\<open>rotating_file_sink-inl.h\<close>): when the
  next line would make the file exceed its limit, the files are renamed, each to the next number, and a new
  file is begun. The world is that of \<open>Log_File\<close>.
\<close>

section \<open>Removing and renaming\<close>

text \<open>
  The library removes and renames plain files. A directory that has the name of one of the files is outside the model:
  the two calls fail on it.
\<close>

definition sys_remove :: "(nat \<Rightarrow> nat option) \<Rightarrow> string \<Rightarrow> world \<Rightarrow> bool \<times> world" where
  "sys_remove fault p w =
     (if fault (w_calls w) \<noteq> None \<or> p = [] \<or> w_files w (canon p) = None then (False, next_call w)
      else (True, next_call (w\<lparr>w_files := (w_files w)(canon p := None)\<rparr>)))"

definition sys_rename :: "(nat \<Rightarrow> nat option) \<Rightarrow> string \<Rightarrow> string \<Rightarrow> world \<Rightarrow> bool \<times> world" where
  "sys_rename fault src target w =
     (if fault (w_calls w) \<noteq> None \<or> src = [] \<or> target = [] \<or> w_files w (canon src) = None \<or> is_dir w (canon target) \<or>
         \<not> is_dir w (parent (canon target))
      then (False, next_call w)
      else if canon src = canon target then (True, next_call w)
      else (True, next_call (w\<lparr>w_files := (w_files w)(canon target := w_files w (canon src), canon src := None)\<rparr>)))"

section \<open>The sink\<close>

record rotating_sink =
  rs_formatter :: pattern_formatter
  rs_base :: string
  rs_max_size :: nat
  rs_max_files :: nat
  rs_current_size :: nat
  rs_file :: file_helper

text \<open>The name of the file with a number: the number stands in front of the extension.\<close>

definition calc_filename :: "string \<Rightarrow> nat \<Rightarrow> string" where
  "calc_filename filename index =
     (if index = 0 then filename
      else case split_by_extension filename of (base, ext) \<Rightarrow> base @ ''.'' @ dec index @ ext)"

definition rename_file :: "(nat \<Rightarrow> nat option) \<Rightarrow> string \<Rightarrow> string \<Rightarrow> world \<Rightarrow> bool \<times> world" where
  "rename_file fault src target w = (let (_, w) = sys_remove fault target w in sys_rename fault src target w)"

text \<open>
  The loop of \<^verbatim>\<open>rotate_\<close> from the highest number down. A rename that fails twice truncates the file and throws; the
  opening of the file may throw before.
\<close>

fun rotate_loop :: "(nat \<Rightarrow> nat option) \<Rightarrow> nat \<Rightarrow> rotating_sink \<Rightarrow> world \<Rightarrow> spdlog_ex option \<times> rotating_sink \<times> world" where
  "rotate_loop fault 0 s w = (None, s, w)"
| "rotate_loop fault (Suc i) s w =
     (let src = calc_filename (rs_base s) i; target = calc_filename (rs_base s) (Suc i) in
      if \<not> path_exists src w then rotate_loop fault i s w
      else let (ok, w) = rename_file fault src target w in
        if ok then rotate_loop fault i s w
        else let (ok, w) = rename_file fault src target w in
          if ok then rotate_loop fault i s w
          else let (ex, fh, w) = fh_reopen fault True (rs_file s) w; s = s\<lparr>rs_file := fh\<rparr> in
            case ex of
              Some e \<Rightarrow> (Some e, s, w)
            | None \<Rightarrow> (Some (ex_errno (''rotating_file_sink: failed renaming '' @ src @ '' to '' @ target)),
                       s\<lparr>rs_current_size := 0\<rparr>, w))"

definition rotate_files :: "(nat \<Rightarrow> nat option) \<Rightarrow> rotating_sink \<Rightarrow> world \<Rightarrow> spdlog_ex option \<times> rotating_sink \<times> world" where
  "rotate_files fault s w =
     (let (fh, w) = fh_close fault (rs_file s) w;
          (ex, s, w) = rotate_loop fault (rs_max_files s) (s\<lparr>rs_file := fh\<rparr>) w
      in case ex of
        Some e \<Rightarrow> (Some e, s, w)
      | None \<Rightarrow> (let (ex, fh, w) = fh_reopen fault True (rs_file s) w in (ex, s\<lparr>rs_file := fh\<rparr>, w)))"

definition make_rotating_sink ::
  "(nat \<Rightarrow> nat option) \<Rightarrow> string \<Rightarrow> nat \<Rightarrow> nat \<Rightarrow> bool \<Rightarrow> world \<Rightarrow> (spdlog_ex + rotating_sink) \<times> world" where
  "make_rotating_sink fault base_filename max_size max_files rotate_on_open w =
     (let (ex, fh, w) = fh_open fault (calc_filename base_filename 0) False new_file_helper w in
      case ex of Some e \<Rightarrow> (Inl e, w) | None \<Rightarrow>
        (case fh_size fh w of Inl e \<Rightarrow> (Inl e, w) | Inr n \<Rightarrow>
          (let s = \<lparr>rs_formatter = default_pattern_formatter time_local default_eol, rs_base = base_filename,
                    rs_max_size = max_size, rs_max_files = max_files, rs_current_size = n, rs_file = fh\<rparr> in
           if rotate_on_open \<and> n > 0
           then let (ex, s, w) = rotate_files fault s w in (case ex of Some e \<Rightarrow> Inl e | None \<Rightarrow> Inr s, w)
           else (Inr s, w))))"

text \<open>\<^verbatim>\<open>sink_it_\<close>: what is thrown by the rotation leaves the line unwritten.\<close>

definition rotating_sink_it ::
  "log_lib \<Rightarrow> log_msg \<Rightarrow> rotating_sink \<Rightarrow> world \<Rightarrow> (spdlog_ex option \<times> rotating_sink \<times> world) option" where
  "rotating_sink_it L msg s w = do {
     (pf, msg, formatted) \<leftarrow> pf_format (ll_time L) (ll_pid L) (rs_formatter s) msg [];
     let s = s\<lparr>rs_formatter := pf, rs_current_size := rs_current_size s + length formatted\<rparr>;
     let (ex, s, w) = (if rs_current_size s > rs_max_size s
       then let (ex, s, w) = rotate_files (ll_fault L) s w in
         (ex, if ex = None then s\<lparr>rs_current_size := length formatted\<rparr> else s, w)
       else (None, s, w));
     case ex of
       Some e \<Rightarrow> Some (Some e, s, w)
     | None \<Rightarrow> do {
         (ex, fh, w) \<leftarrow> fh_write (ll_fault L) formatted (rs_file s) w;
         Some (ex, s\<lparr>rs_file := fh\<rparr>, w) } }"

definition rotating_flush :: "log_lib \<Rightarrow> rotating_sink \<Rightarrow> world \<Rightarrow> (rotating_sink \<times> world) option" where
  "rotating_flush L s w = do { (fh, w) \<leftarrow> fh_flush (ll_fault L) (rs_file s) w; Some (s\<lparr>rs_file := fh\<rparr>, w) }"

lemma calc_examples:
  "calc_filename ''logs/mylog.txt'' 3 = ''logs/mylog.3.txt''" "calc_filename ''log'' 12 = ''log.12''"
  by (simp_all add: calc_filename_def split_by_extension_def rfind_def dec.simps digit_char_def char_of_def bit_Suc_0_iff)

section \<open>The paths of the files\<close>

text \<open>The files lie in one directory under different names.\<close>

lemma comps_extend:
  assumes "b \<noteq> []" "last b \<noteq> CHR ''/''"
  shows "\<exists>pre l. l \<noteq> [] \<and> (\<forall>x. CHR ''/'' \<notin> set x \<longrightarrow> comps (b @ x) = pre @ [l @ x])"
proof (cases "CHR ''/'' \<in> set b")
  case True
  then obtain u v where b: "b = u @ CHR ''/'' # v" "CHR ''/'' \<notin> set v" by (metis split_list_last)
  then have "v \<noteq> []" using assms(2) by auto
  then show ?thesis using b comps_plain comps_sep by (intro exI [of _ "comps u"] exI [of _ v]) auto
next
  case False
  then show ?thesis using assms(1) comps_plain by (intro exI [of _ "[]"] exI [of _ b]) auto
qed

definition file_path :: "string \<Rightarrow> nat \<Rightarrow> path" where
  "file_path base i = canon (calc_filename base i)"

lemma calc_paths:
  assumes "base \<noteq> []" "last base \<noteq> CHR ''/''"
  shows "\<exists>pre nm. inj nm \<and> (\<forall>i. calc_filename base i \<noteq> [] \<and> file_path base i = (hd base = CHR ''/'', pre @ [nm i]))"
proof -
  obtain b e where s: "split_by_extension base = (b, e)" by (cases "split_by_extension base")
  note c = split_by_extension_correct [OF s]
  have b: "b \<noteq> []" "last b \<noteq> CHR ''/''" using c assms by (cases "e = []"; auto)+
  have sl: "CHR ''/'' \<notin> set e" using c by (cases "e = []") auto
  from comps_extend [OF b] obtain pre l where pl: "l \<noteq> []" "\<And>x. CHR ''/'' \<notin> set x \<Longrightarrow> comps (b @ x) = pre @ [l @ x]" by blast
  define x where "x i = (if i = 0 then e else ''.'' @ dec i @ e)" for i
  have calc: "calc_filename base i = b @ x i" for i using c s by (auto simp: calc_filename_def x_def)
  have sx: "CHR ''/'' \<notin> set (x i)" for i using sl dec_digits [of "CHR ''/''" i] by (auto simp: x_def is_digit_def)
  have "inj (\<lambda>i. l @ x i)"
  proof (rule injI)
    fix i j assume "l @ x i = l @ x j"
    then show "i = j" by (auto simp: x_def split: if_splits)
  qed
  moreover have "hd (b @ y) = hd base" for y using b(1) c by auto
  ultimately show ?thesis
    using b(1) pl sx by (intro exI [of _ pre] exI [of _ "\<lambda>i. l @ x i"]) (simp add: file_path_def canon_comps calc)
qed

lemma file_path_facts:
  assumes "base \<noteq> []" "last base \<noteq> CHR ''/''"
  shows "calc_filename base i \<noteq> []" "file_path base i = file_path base j \<longleftrightarrow> i = j"
    "parent (file_path base i) = parent (canon base)" "file_path base 0 = canon base"
proof -
  obtain pre nm where p: "inj nm" "\<And>i. calc_filename base i \<noteq> []" "\<And>i. file_path base i = (hd base = CHR ''/'', pre @ [nm i])"
    using calc_paths [OF assms] by blast
  show "file_path base 0 = canon base" by (simp add: file_path_def calc_filename_def)
  then have "canon base = (hd base = CHR ''/'', pre @ [nm 0])" using p(3) [of 0] by simp
  then show "parent (file_path base i) = parent (canon base)" by (simp add: p(3) parent_def)
  show "calc_filename base i \<noteq> []" "file_path base i = file_path base j \<longleftrightarrow> i = j"
    using p by (simp_all add: inj_eq)
qed

section \<open>One rotation\<close>

text \<open>The directory exists, and no directory has the name of a file.\<close>

definition rot_dirs :: "string \<Rightarrow> nat \<Rightarrow> world \<Rightarrow> bool" where
  "rot_dirs base n w \<longleftrightarrow> is_dir w (parent (canon base)) \<and> (\<forall>i\<le>n. \<not> is_dir w (file_path base i))"

definition file_at :: "string \<Rightarrow> world \<Rightarrow> nat \<Rightarrow> string option" where
  "file_at base w i = w_files w (file_path base i)"

lemma rot_dirs_cong: "w_dirs w' = w_dirs w \<Longrightarrow> rot_dirs base n w' = rot_dirs base n w"
  by (simp add: rot_dirs_def is_dir_def)

lemma create_dir_there:
  assumes "base \<noteq> []" "last base \<noteq> CHR ''/''" "is_dir w (parent (canon base))"
  shows "\<exists>ok. create_dir fault (dir_name base) w = (ok, w)"
proof (cases "dir_name base = []")
  case False
  then have "is_dir w (canon (dir_name base))"
    using assms(3) parent_file [OF assms(1,2)] hd_dir_name [OF False] by (simp add: canon_comps)
  then show ?thesis using False by (intro exI [of _ True]) (simp add: create_dir_def path_exists_def)
qed (auto simp: create_dir_def path_exists_def)

lemma open_there:
  assumes nf: "\<And>k. fault k = None" and b: "base \<noteq> []" "last base \<noteq> CHR ''/''" and d: "rot_dirs base n w" and fd: "fh_fd fh = None"
  shows "\<exists>w'. fh_open fault base trunc fh w = (None, \<lparr>fh_fd = Some \<lparr>f_path = file_path base 0, f_pending = []\<rparr>, fh_filename = base\<rparr>, w') \<and>
    w_dirs w' = w_dirs w \<and>
    w_files w' = (w_files w)(file_path base 0 \<mapsto> if trunc then [] else case file_at base w 0 of None \<Rightarrow> [] | Some s \<Rightarrow> s)"
proof -
  note p0 = file_path_facts(4) [OF b]
  have dirs: "is_dir w (parent (canon base))" "\<not> is_dir w (canon base)" using d p0 unfolding rot_dirs_def by (metis, metis le0)
  obtain ok where c: "create_dir fault (dir_name base) w = (ok, w)" using create_dir_there [OF b dirs(1)] by blast
  obtain w1 where f: "sys_fopen fault base trunc w = (Some \<lparr>f_path = canon base, f_pending = []\<rparr>, w1)" "w_dirs w1 = w_dirs w"
    "w_files w1 = (w_files w)(canon base \<mapsto> if trunc then [] else case w_files w (canon base) of None \<Rightarrow> [] | Some s \<Rightarrow> s)"
    using nf b(1) dirs by (simp add: sys_fopen_def Let_def next_call_def)
  have "fh_open_loop fault base trunc (Suc 4) w = (Some \<lparr>f_path = canon base, f_pending = []\<rparr>, w1)"
    unfolding fh_open_loop.simps(2) c using f(1) by simp
  then show ?thesis using f(2,3) fd p0
    by (cases fh) (simp add: fh_open_def fh_close_def open_tries_def numeral_eq_Suc file_at_def del: fh_open_loop.simps)
qed

lemma rename_there:
  assumes nf: "\<And>k. fault k = None" and b: "base \<noteq> []" "last base \<noteq> CHR ''/''" and d: "rot_dirs base n w" and i: "Suc i \<le> n"
    and src: "file_at base w i \<noteq> None"
  shows "\<exists>w'. rename_file fault (calc_filename base i) (calc_filename base (Suc i)) w = (True, w') \<and> w_dirs w' = w_dirs w \<and>
    w_files w' = (w_files w)(file_path base (Suc i) := file_at base w i, file_path base i := None)"
proof -
  note p = file_path_facts(1-3) [OF b]
  have ne: "file_path base i \<noteq> file_path base (Suc i)" using p(2) by simp
  obtain w1 where w1: "snd (sys_remove fault (calc_filename base (Suc i)) w) = w1" "w_dirs w1 = w_dirs w"
    "w_files w1 = (w_files w)(file_path base (Suc i) := None)"
    using nf p(1) by (auto simp: sys_remove_def next_call_def file_path_def fun_upd_idem)
  have "sys_rename fault (calc_filename base i) (calc_filename base (Suc i)) w1 =
      (True, next_call (w1\<lparr>w_files := (w_files w1)(file_path base (Suc i) := w_files w1 (file_path base i), file_path base i := None)\<rparr>))"
    using nf p(1) ne d i src w1(2,3) p(3) [of "Suc i"]
    unfolding rot_dirs_def is_dir_def file_path_def file_at_def by (simp add: sys_rename_def is_dir_def)
  then show ?thesis
    using w1 ne by (auto simp: rename_file_def next_call_def file_at_def split: prod.split)
qed

text \<open>The loop moves every file to the next number, when the numbers in use have no gap.\<close>

definition no_gap :: "string \<Rightarrow> nat \<Rightarrow> world \<Rightarrow> bool" where
  "no_gap base n w \<longleftrightarrow> (\<forall>i<n. file_at base w i = None \<longrightarrow> file_at base w (Suc i) = None)"

lemma path_exists_file:
  assumes "base \<noteq> []" "last base \<noteq> CHR ''/''" "rot_dirs base n w" "i \<le> n"
  shows "path_exists (calc_filename base i) w \<longleftrightarrow> file_at base w i \<noteq> None"
  using assms file_path_facts(1) [OF assms(1,2)] by (simp add: path_exists_def file_at_def file_path_def rot_dirs_def)

lemma rotate_loop_moves:
  assumes nf: "\<And>k. fault k = None" and b: "base \<noteq> []" "last base \<noteq> CHR ''/''" and s: "rs_base s = base"
  shows "k \<le> n \<Longrightarrow> rot_dirs base n w \<Longrightarrow> no_gap base k w \<Longrightarrow>
    \<exists>w'. rotate_loop fault k s w = (None, s, w') \<and> w_dirs w' = w_dirs w \<and> (\<forall>i<k. file_at base w' (Suc i) = file_at base w i) \<and>
      (k > 0 \<longrightarrow> file_at base w' 0 = None) \<and> (\<forall>p. (\<forall>i\<le>k. p \<noteq> file_path base i) \<longrightarrow> w_files w' p = w_files w p)"
proof (induction k arbitrary: w)
  case (Suc k)
  note pi = file_path_facts(2) [OF b]
  show ?case
  proof (cases "file_at base w k")
    case None
    then have "\<not> path_exists (calc_filename base k) w" using path_exists_file [OF b Suc.prems(2), of k] Suc.prems(1) by simp
    moreover obtain w' where w': "rotate_loop fault k s w = (None, s, w')" "w_dirs w' = w_dirs w"
      "\<forall>i<k. file_at base w' (Suc i) = file_at base w i" "k > 0 \<longrightarrow> file_at base w' 0 = None"
      "\<forall>p. (\<forall>i\<le>k. p \<noteq> file_path base i) \<longrightarrow> w_files w' p = w_files w p"
      using Suc.IH [of w] Suc.prems by (auto simp: no_gap_def)
    moreover have "file_at base w' (Suc k) = file_at base w k"
      using w'(5) [rule_format, of "file_path base (Suc k)"] pi Suc.prems(3) None by (simp add: file_at_def no_gap_def)
    moreover have "file_at base w' 0 = None"
    proof (cases "k = 0")
      case True
      then show ?thesis using w'(1) None by simp
    qed (use w'(4) in simp)
    ultimately show ?thesis using s by (auto simp: less_Suc_eq)
  next
    case (Some t)
    then have ex: "path_exists (calc_filename base k) w" using path_exists_file [OF b Suc.prems(2), of k] Suc.prems(1) by simp
    obtain w1 where w1: "rename_file fault (calc_filename base k) (calc_filename base (Suc k)) w = (True, w1)" "w_dirs w1 = w_dirs w"
      "w_files w1 = (w_files w)(file_path base (Suc k) := file_at base w k, file_path base k := None)"
      using rename_there [where fault = fault, OF nf b Suc.prems(2,1)] Some by auto
    have at1: "file_at base w1 i = (if i = k then None else if i = Suc k then file_at base w k else file_at base w i)" for i
      using pi by (auto simp: file_at_def w1(3))
    have "no_gap base k w1" using Suc.prems(3) by (auto simp: no_gap_def at1)
    then obtain w' where w': "rotate_loop fault k s w1 = (None, s, w')" "w_dirs w' = w_dirs w1"
      "\<forall>i<k. file_at base w' (Suc i) = file_at base w1 i" "k > 0 \<longrightarrow> file_at base w' 0 = None"
      "\<forall>p. (\<forall>i\<le>k. p \<noteq> file_path base i) \<longrightarrow> w_files w' p = w_files w1 p"
      using Suc.IH [of w1] Suc.prems rot_dirs_cong [OF w1(2)] by auto
    have keep: "file_at base w' (Suc k) = file_at base w1 (Suc k)"
      using w'(5) [rule_format, of "file_path base (Suc k)"] pi by (simp add: file_at_def)
    have zero: "file_at base w' 0 = None"
    proof (cases "k = 0")
      case True
      then show ?thesis using w'(1) at1 [of 0] by simp
    qed (use w'(4) in simp)
    have "rotate_loop fault (Suc k) s w = (None, s, w')" using ex w1(1) w'(1) s by simp
    moreover have "\<forall>i<Suc k. file_at base w' (Suc i) = file_at base w i"
      using w'(3) keep at1 by (auto simp: less_Suc_eq)
    moreover have "\<forall>p. (\<forall>i\<le>Suc k. p \<noteq> file_path base i) \<longrightarrow> w_files w' p = w_files w p"
      using w'(5) w1(3) by auto
    ultimately show ?thesis using zero w'(2) w1(2) by auto
  qed
qed simp

text \<open>A rotation: the open file is closed and all files move up; the last one goes, and the first is new.\<close>

definition rot_open :: "string \<Rightarrow> string \<Rightarrow> file_helper \<Rightarrow> bool" where
  "rot_open base pend fh \<longleftrightarrow> fh = \<lparr>fh_fd = Some \<lparr>f_path = file_path base 0, f_pending = pend\<rparr>, fh_filename = base\<rparr>"

lemma rotate_moves:
  assumes nf: "\<And>k. fault k = None" and b: "base \<noteq> []" "last base \<noteq> CHR ''/''" and s: "rs_base s = base"
    and d: "rot_dirs base (rs_max_files s) w" and ng: "no_gap base (rs_max_files s) w"
    and fh: "rot_open base pend (rs_file s)" and c: "file_at base w 0 = Some t"
  shows "\<exists>fh' w'. rotate_files fault s w = (None, s\<lparr>rs_file := fh'\<rparr>, w') \<and> rot_open base [] fh' \<and> w_dirs w' = w_dirs w \<and>
    file_at base w' 0 = Some [] \<and>
    (\<forall>i<rs_max_files s. file_at base w' (Suc i) = (if i = 0 then Some (t @ pend) else file_at base w i)) \<and>
    (\<forall>p. (\<forall>i\<le>rs_max_files s. p \<noteq> file_path base i) \<longrightarrow> w_files w' p = w_files w p)"
proof -
  note pi = file_path_facts(2) [OF b]
  let ?n = "rs_max_files s"
  let ?fh = "\<lparr>fh_fd = None, fh_filename = base\<rparr>"
  obtain w1 where w1: "fh_close fault (rs_file s) w = (?fh, w1)" "w_dirs w1 = w_dirs w"
    "w_files w1 = (w_files w)(file_path base 0 \<mapsto> t @ pend)"
    using fh c nf by (simp add: rot_open_def fh_close_def sys_fclose_def sys_fflush_def next_call_def file_at_def Let_def)
  have at1: "file_at base w1 i = (if i = 0 then Some (t @ pend) else file_at base w i)" for i
    using pi by (auto simp: file_at_def w1(3))
  have d1: "rot_dirs base ?n w1" using d rot_dirs_cong [OF w1(2)] by simp
  have "no_gap base ?n w1" using ng by (auto simp: no_gap_def at1)
  from rotate_loop_moves [where fault = fault and s = "s\<lparr>rs_file := ?fh\<rparr>", OF nf b _ le_refl d1 this] s obtain w2 where
    w2: "rotate_loop fault ?n (s\<lparr>rs_file := ?fh\<rparr>) w1 = (None, s\<lparr>rs_file := ?fh\<rparr>, w2)" "w_dirs w2 = w_dirs w1"
      "\<forall>i<?n. file_at base w2 (Suc i) = file_at base w1 i"
      "\<forall>p. (\<forall>i\<le>?n. p \<noteq> file_path base i) \<longrightarrow> w_files w2 p = w_files w1 p" by auto
  have "rot_dirs base ?n w2" using d1 rot_dirs_cong [OF w2(2)] by simp
  from open_there [where fault = fault and fh = ?fh and trunc = True, OF nf b this] obtain w3 where
    w3: "fh_open fault base True ?fh w2 = (None, \<lparr>fh_fd = Some \<lparr>f_path = file_path base 0, f_pending = []\<rparr>, fh_filename = base\<rparr>, w3)"
      "w_dirs w3 = w_dirs w2" "w_files w3 = (w_files w2)(file_path base 0 \<mapsto> [])" by auto
  have at3: "file_at base w3 i = (if i = 0 then Some [] else file_at base w2 i)" for i
    using pi by (auto simp: file_at_def w3(3))
  have "rotate_files fault s w = (None, s\<lparr>rs_file := \<lparr>fh_fd = Some \<lparr>f_path = file_path base 0, f_pending = []\<rparr>, fh_filename = base\<rparr>\<rparr>, w3)"
    using w1(1) w2(1) w3(1) b(1) by (simp add: rotate_files_def fh_reopen_def)
  moreover have "\<forall>p. (\<forall>i\<le>?n. p \<noteq> file_path base i) \<longrightarrow> w_files w3 p = w_files w p"
    using w1(3) w2(4) w3(3) by auto
  ultimately show ?thesis
    using w1(2) w2 w3(2) at1 at3 by (auto simp: rot_open_def)
qed

section \<open>The text that is kept\<close>

text \<open>The text of the files from the oldest to the newest, with what waits in the buffer of the stream.\<close>

definition content :: "string \<Rightarrow> world \<Rightarrow> nat \<Rightarrow> string" where
  "content base w i = (case file_at base w i of None \<Rightarrow> [] | Some t \<Rightarrow> t)"

definition kept_text :: "string \<Rightarrow> nat \<Rightarrow> string \<Rightarrow> world \<Rightarrow> string" where
  "kept_text base n pend w = concat (map (content base w) (rev [0..<Suc n])) @ pend"

lemma kept_rotated:
  assumes c: "file_at base w 0 = Some t" and z: "file_at base w' 0 = Some []"
    and m: "\<forall>i<n. file_at base w' (Suc i) = (if i = 0 then Some (t @ pend) else file_at base w i)"
  shows "suffix (kept_text base n [] w') (kept_text base n pend w) \<and>
    (n > 0 \<and> file_at base w n = None \<longrightarrow> kept_text base n [] w' = kept_text base n pend w)"
proof (cases n)
  case 0
  then show ?thesis using z by (simp add: kept_text_def content_def)
next
  case (Suc k)
  have "[0..<Suc n] = 0 # map Suc [0..<n]" by (simp add: map_Suc_upt upt_conv_Cons)
  then have "kept_text base n [] w' = concat (map (\<lambda>i. content base w' (Suc i)) (rev [0..<n]))"
    using z by (simp add: kept_text_def rev_map comp_def content_def del: upt_Suc)
  also have "map (\<lambda>i. content base w' (Suc i)) (rev [0..<n]) = map (\<lambda>i. if i = 0 then t @ pend else content base w i) (rev [0..<n])"
    using m by (auto simp: content_def)
  also have "\<dots> = map (content base w) (rev [1..<n]) @ [t @ pend]"
    using Suc by (simp add: upt_conv_Cons del: upt_Suc)
  finally have new: "kept_text base n [] w' = concat (map (content base w) (rev [1..<n])) @ t @ pend" by simp
  have "rev [0..<Suc n] = n # rev [1..<n] @ [0]" using Suc by (simp add: upt_conv_Cons)
  then have "kept_text base n pend w = content base w n @ kept_text base n [] w'"
    using c unfolding new by (simp add: kept_text_def content_def del: upt_Suc)
  then show ?thesis by (simp add: suffix_def content_def)
qed

definition rot_inv :: "nat \<Rightarrow> rotating_sink \<Rightarrow> world \<Rightarrow> string \<Rightarrow> bool" where
  "rot_inv M s w history \<longleftrightarrow> (\<exists>pend t. rot_open (rs_base s) pend (rs_file s) \<and> file_at (rs_base s) w 0 = Some t \<and>
     rs_current_size s = length t + length pend \<and> rs_current_size s \<le> max (rs_max_size s) M \<and>
     rot_dirs (rs_base s) (rs_max_files s) w \<and> no_gap (rs_base s) (rs_max_files s) w \<and>
     (\<forall>i x. 0 < i \<and> i \<le> rs_max_files s \<and> file_at (rs_base s) w i = Some x \<longrightarrow>
        length x \<le> max (rs_max_size s) M \<and> rs_max_size s < length x + M) \<and>
     suffix (kept_text (rs_base s) (rs_max_files s) pend w) history \<and>
     (kept_text (rs_base s) (rs_max_files s) pend w = history \<or> file_at (rs_base s) w (rs_max_files s) \<noteq> None))"

text \<open>A write to the open file: the text of all files and the buffer grows by it, and the older files stay.\<close>

lemma rot_fh_write:
  assumes nf: "\<And>k. fault k = None" and b: "base \<noteq> []" "last base \<noteq> CHR ''/''" and o: "rot_open base pend fh"
    and t: "file_at base w 0 = Some t"
  obtains fh' w' pend' t' where "fh_write fault d fh w = Some (None, fh', w')" "rot_open base pend' fh'"
    "file_at base w' 0 = Some t'" "t' @ pend' = t @ pend @ d" "\<forall>i. 0 < i \<longrightarrow> file_at base w' i = file_at base w i"
    "w_dirs w' = w_dirs w"
proof -
  have fd: "fh_fd fh = Some \<lparr>f_path = file_path base 0, f_pending = pend\<rparr>" "fh_filename fh = base" using o by (simp_all add: rot_open_def)
  obtain pend' w' where w': "fh_write fault d fh w = Some (None, fh\<lparr>fh_fd := Some \<lparr>f_path = file_path base 0, f_pending = pend'\<rparr>\<rparr>, w')"
    "file_text (file_path base 0) w' @ pend' = file_text (file_path base 0) w @ pend @ d"
    "\<forall>q. q \<noteq> file_path base 0 \<longrightarrow> w_files w' q = w_files w q"
    "w_files w (file_path base 0) \<noteq> None \<longrightarrow> w_files w' (file_path base 0) \<noteq> None" "w_dirs w' = w_dirs w"
    by (rule fh_write_buffers [where fault = fault and w = w and d = d, OF nf fd(1)]) blast
  from w'(4) t obtain t' where t': "file_at base w' 0 = Some t'" by (auto simp: file_at_def)
  have "t' @ pend' = t @ pend @ d" using w'(2) t t' by (simp add: file_text_def file_at_def)
  moreover have "\<forall>i. 0 < i \<longrightarrow> file_at base w' i = file_at base w i"
    using w'(3) file_path_facts(2) [OF b] unfolding file_at_def by (metis less_numeral_extra(3))
  moreover have "rot_open base pend' (fh\<lparr>fh_fd := Some \<lparr>f_path = file_path base 0, f_pending = pend'\<rparr>\<rparr>)"
    using fd by (cases fh) (simp add: rot_open_def)
  ultimately show thesis using that [OF w'(1) _ t'] w'(5) by blast
qed

lemma kept_text_write:
  assumes "file_at base w 0 = Some t" "file_at base w' 0 = Some t'" "t' @ pend' = t @ pend @ d"
    and "\<forall>i. 0 < i \<longrightarrow> file_at base w' i = file_at base w i"
  shows "kept_text base n pend' w' = kept_text base n pend w @ d"
proof -
  have "[0..<Suc n] = 0 # map Suc [0..<n]" by (simp add: map_Suc_upt upt_conv_Cons)
  then have k: "kept_text base n p x = concat (map (\<lambda>i. content base x (Suc i)) (rev [0..<n])) @ content base x 0 @ p" for p x
    by (simp add: kept_text_def rev_map comp_def del: upt_Suc)
  show ?thesis using assms unfolding k by (simp add: content_def)
qed

lemma rot_append:
  assumes i: "rot_inv M s w history" and nf: "\<And>k. fault k = None" and b: "rs_base s \<noteq> []" "last (rs_base s) \<noteq> CHR ''/''"
    and le: "rs_current_size s + length d \<le> max (rs_max_size s) M"
  obtains fh' w' where "fh_write fault d (rs_file s) w = Some (None, fh', w')"
    "rot_inv M (s\<lparr>rs_file := fh', rs_current_size := rs_current_size s + length d\<rparr>) w' (history @ d)"
proof -
  define base n where bn: "base = rs_base s" "n = rs_max_files s"
  from i obtain pend t where o: "rot_open base pend (rs_file s)" and t: "file_at base w 0 = Some t"
    and cs: "rs_current_size s = length t + length pend"
    and d: "rot_dirs base n w" and ng: "no_gap base n w"
    and sz: "\<And>i x. 0 < i \<Longrightarrow> i \<le> n \<Longrightarrow> file_at base w i = Some x \<Longrightarrow> length x \<le> max (rs_max_size s) M \<and> rs_max_size s < length x + M"
    and su: "suffix (kept_text base n pend w) history" "kept_text base n pend w = history \<or> file_at base w n \<noteq> None"
    unfolding rot_inv_def bn by auto
  have suf: "suffix (k @ d) (history @ d) \<longleftrightarrow> suffix k history" for k by (auto simp: suffix_def)
  obtain fh' w' pend' t' where w': "fh_write fault d (rs_file s) w = Some (None, fh', w')" "rot_open base pend' fh'"
    "file_at base w' 0 = Some t'" "t' @ pend' = t @ pend @ d" "\<forall>i. 0 < i \<longrightarrow> file_at base w' i = file_at base w i"
    "w_dirs w' = w_dirs w"
    by (rule rot_fh_write [where fault = fault and d = d, OF nf b [folded bn] o t])
  note kt = kept_text_write [OF t w'(3-5), of n]
  have len: "length t' + length pend' = length t + length pend + length d" using arg_cong [OF w'(4), of length] by simp
  have gap: "no_gap base n w'"
    unfolding no_gap_def
  proof (intro allI impI)
    fix i assume i: "i < n" "file_at base w' i = None"
    then have "0 < i" using w'(3) by (cases i) auto
    then show "file_at base w' (Suc i) = None" using i ng w'(5) by (simp add: no_gap_def)
  qed
  have whole: "kept_text base n pend w = history \<or> file_at base w' n \<noteq> None" using su(2) w'(3,5) by (cases "n = 0") auto
  have old: "\<forall>i x. 0 < i \<and> i \<le> n \<and> file_at base w' i = Some x \<longrightarrow> length x \<le> max (rs_max_size s) M \<and> rs_max_size s < length x + M"
    using sz w'(5) by auto
  have "rot_inv M (s\<lparr>rs_file := fh', rs_current_size := rs_current_size s + length d\<rparr>) w' (history @ d)"
    unfolding rot_inv_def
    by (rule exI [of _ pend'], rule exI [of _ t'])
      (use w'(2,3) cs len le d rot_dirs_cong [OF w'(6)] gap old su(1) whole in \<open>simp add: bn [symmetric] kt suf\<close>)
  then show thesis using that w'(1) by blast
qed

text \<open>A rotation keeps the invariant, with an empty current file.\<close>

lemma rot_rotated:
  assumes i: "rot_inv M s w history" and nf: "\<And>k. fault k = None" and b: "rs_base s \<noteq> []" "last (rs_base s) \<noteq> CHR ''/''"
    and full: "rs_max_size s < rs_current_size s + M"
  obtains fh' w' where "rotate_files fault (s\<lparr>rs_formatter := f, rs_current_size := c\<rparr>) w =
      (None, s\<lparr>rs_formatter := f, rs_current_size := c, rs_file := fh'\<rparr>, w')"
    "rot_inv M (s\<lparr>rs_file := fh', rs_current_size := 0\<rparr>) w' history"
proof -
  define base n where bn: "base = rs_base s" "n = rs_max_files s"
  let ?s = "s\<lparr>rs_formatter := f, rs_current_size := c\<rparr>"
  from i obtain pend t where o: "rot_open base pend (rs_file s)" and t: "file_at base w 0 = Some t"
    and cs: "rs_current_size s = length t + length pend" "rs_current_size s \<le> max (rs_max_size s) M"
    and d: "rot_dirs base n w" and ng: "no_gap base n w"
    and sz: "\<And>i x. 0 < i \<Longrightarrow> i \<le> n \<Longrightarrow> file_at base w i = Some x \<Longrightarrow> length x \<le> max (rs_max_size s) M \<and> rs_max_size s < length x + M"
    and su: "suffix (kept_text base n pend w) history" "kept_text base n pend w = history \<or> file_at base w n \<noteq> None"
    unfolding rot_inv_def bn by auto
  have b': "base \<noteq> []" "last base \<noteq> CHR ''/''" "rs_base ?s = base" "rs_max_files ?s = n" "rs_file ?s = rs_file s"
    using b by (simp_all add: bn)
  obtain fh' w' where
    r: "rotate_files fault ?s w = (None, ?s\<lparr>rs_file := fh'\<rparr>, w')" "rot_open base [] fh'" "w_dirs w' = w_dirs w"
      "file_at base w' 0 = Some []" "\<forall>i<n. file_at base w' (Suc i) = (if i = 0 then Some (t @ pend) else file_at base w i)"
    using rotate_moves [where fault = fault and s = ?s, OF nf b'(1-3), unfolded b'(4,5), OF d ng o t] by blast
  note k = kept_rotated [OF t r(4,5)]
  have new_size: "\<forall>i x. 0 < i \<and> i \<le> n \<and> file_at base w' i = Some x \<longrightarrow> length x \<le> max (rs_max_size s) M \<and> rs_max_size s < length x + M"
  proof (intro allI impI)
    fix i x assume x: "0 < i \<and> i \<le> n \<and> file_at base w' i = Some x"
    then obtain j where j: "i = Suc j" by (cases i) auto
    show "length x \<le> max (rs_max_size s) M \<and> rs_max_size s < length x + M"
    proof (cases "j = 0")
      case True
      then have "x = t @ pend" using x r(5) j by auto
      then show ?thesis using cs full by simp
    next
      case False
      then show ?thesis using x r(5) j sz [of j x] by auto
    qed
  qed
  have gap: "no_gap base n w'"
    unfolding no_gap_def
  proof (intro allI impI)
    fix i assume i: "i < n" "file_at base w' i = None"
    then obtain j where j: "i = Suc j" using r(4) by (cases i) auto
    then have "j \<noteq> 0" "file_at base w j = None" using i r(5) by (auto split: if_splits)
    then have "file_at base w (Suc j) = None" using ng i j by (simp add: no_gap_def)
    then show "file_at base w' (Suc i) = None" using i r(5) j by simp
  qed
  have whole: "kept_text base n [] w' = history \<or> file_at base w' n \<noteq> None"
  proof (cases n)
    case 0
    then show ?thesis using r(4) by simp
  next
    case (Suc j)
    then show ?thesis using k su(2) r(5) ng by (cases "file_at base w n = None") (auto simp: no_gap_def)
  qed
  have su': "suffix (kept_text base n [] w') history" using k su(1) suffix_order.trans by blast
  have "rot_inv M (s\<lparr>rs_file := fh', rs_current_size := 0\<rparr>) w' history"
    unfolding rot_inv_def
    by (rule exI [of _ "[] :: string"], rule exI [of _ "[] :: string"])
      (use r(2,4) d rot_dirs_cong [OF r(3)] gap new_size su' whole in \<open>simp add: bn [symmetric]\<close>)
  then show thesis using that r(1) by simp
qed

lemma rot_write:
  assumes i: "rot_inv M s w history" and nf: "\<And>k. ll_fault L k = None" and b: "rs_base s \<noteq> []" "last (rs_base s) \<noteq> CHR ''/''"
    and f: "pf_format (ll_time L) (ll_pid L) (rs_formatter s) m [] = Some (pf, m', d)" and len: "length d \<le> M"
  shows "\<exists>s' w'. rotating_sink_it L m s w = Some (None, s', w') \<and> rot_inv M s' w' (history @ d) \<and> rs_formatter s' = pf \<and>
    rs_base s' = rs_base s \<and> rs_max_size s' = rs_max_size s \<and> rs_max_files s' = rs_max_files s"
proof -
  let ?s = "s\<lparr>rs_formatter := pf, rs_current_size := rs_current_size s + length d\<rparr>"
  show ?thesis
  proof (cases "rs_current_size s + length d > rs_max_size s")
    case False
    obtain fh' w' where w': "fh_write (ll_fault L) d (rs_file s) w = Some (None, fh', w')"
      "rot_inv M (s\<lparr>rs_file := fh', rs_current_size := rs_current_size s + length d\<rparr>) w' (history @ d)"
      by (rule rot_append [where fault = "ll_fault L" and d = d, OF i nf b]) (use False in auto)
    have "rotating_sink_it L m s w = Some (None, ?s\<lparr>rs_file := fh'\<rparr>, w')"
      using False f w'(1) by (simp add: rotating_sink_it_def)
    moreover have "rot_inv M (?s\<lparr>rs_file := fh'\<rparr>) w' (history @ d)"
      using w'(2) by (simp add: rot_inv_def)
    ultimately show ?thesis by auto
  next
    case True
    obtain fh1 w1 where r: "rotate_files (ll_fault L) ?s w = (None, ?s\<lparr>rs_file := fh1\<rparr>, w1)"
      "rot_inv M (s\<lparr>rs_file := fh1, rs_current_size := 0\<rparr>) w1 history"
      by (rule rot_rotated [where fault = "ll_fault L" and f = pf and c = "rs_current_size s + length d", OF i nf b])
        (use True len in auto)
    let ?s1 = "s\<lparr>rs_file := fh1, rs_current_size := 0\<rparr>"
    obtain fh' w' where w': "fh_write (ll_fault L) d (rs_file ?s1) w1 = Some (None, fh', w')"
      "rot_inv M (?s1\<lparr>rs_file := fh', rs_current_size := rs_current_size ?s1 + length d\<rparr>) w' (history @ d)"
      by (rule rot_append [where fault = "ll_fault L" and d = d, OF r(2) nf]) (use b len in auto)
    have "rotating_sink_it L m s w = Some (None, ?s\<lparr>rs_current_size := length d, rs_file := fh'\<rparr>, w')"
      using True f r(1) w'(1) by (simp add: rotating_sink_it_def)
    moreover have "rot_inv M (?s\<lparr>rs_current_size := length d, rs_file := fh'\<rparr>) w' (history @ d)"
      using w'(2) by (simp add: rot_inv_def)
    ultimately show ?thesis by auto
  qed
qed

text \<open>The messages that reach the sink, one after the other.\<close>

fun rotating_log :: "log_lib \<Rightarrow> log_msg list \<Rightarrow> rotating_sink \<Rightarrow> world \<Rightarrow> (spdlog_ex option list \<times> rotating_sink \<times> world) option" where
  "rotating_log L [] s w = Some ([], s, w)"
| "rotating_log L (m # ms) s w = do {
     (ex, s, w) \<leftarrow> rotating_sink_it L m s w;
     (exs, s, w) \<leftarrow> rotating_log L ms s w;
     Some (ex # exs, s, w) }"

lemma rot_writes:
  assumes nf: "\<And>k. ll_fault L k = None"
  shows "rot_inv M s w history \<Longrightarrow> rs_base s \<noteq> [] \<Longrightarrow> last (rs_base s) \<noteq> CHR ''/'' \<Longrightarrow>
    format_all (ll_time L) (ll_pid L) (rs_formatter s) ms = Some (pf, lines) \<Longrightarrow> \<forall>l\<in>set lines. length l \<le> M \<Longrightarrow>
    \<exists>s' w'. rotating_log L ms s w = Some (replicate (length ms) None, s', w') \<and> rot_inv M s' w' (history @ concat lines) \<and>
      rs_base s' = rs_base s \<and> rs_max_size s' = rs_max_size s \<and> rs_max_files s' = rs_max_files s"
proof (induction ms arbitrary: s w history lines)
  case (Cons m ms)
  from Cons.prems(4) obtain pf1 m' d rest where f: "pf_format (ll_time L) (ll_pid L) (rs_formatter s) m [] = Some (pf1, m', d)"
    "format_all (ll_time L) (ll_pid L) pf1 ms = Some (pf, rest)" "lines = d # rest"
    by (auto simp: bind_eq_Some_conv)
  then have "length d \<le> M" using Cons.prems(5) by simp
  from rot_write [OF Cons.prems(1) nf Cons.prems(2,3) f(1) this] obtain s1 w1 where
    w1: "rotating_sink_it L m s w = Some (None, s1, w1)" "rot_inv M s1 w1 (history @ d)" "rs_formatter s1 = pf1"
      "rs_base s1 = rs_base s" "rs_max_size s1 = rs_max_size s" "rs_max_files s1 = rs_max_files s" by blast
  show ?case using Cons.IH [OF w1(2), of rest] Cons.prems w1 f by auto
qed simp

lemma rot_start:
  assumes nf: "\<And>k. fault k = None" and b: "base \<noteq> []" "last base \<noteq> CHR ''/''" and d: "rot_dirs base n w"
    and fresh: "\<forall>i\<le>n. file_at base w i = None"
  shows "\<exists>s w'. make_rotating_sink fault base sz n rotate_on_open w = (Inr s, w') \<and> rot_inv M s w' [] \<and>
    rs_formatter s = default_pattern_formatter time_local default_eol \<and> rs_base s = base \<and> rs_max_size s = sz \<and> rs_max_files s = n"
proof -
  from open_there [where fault = fault and fh = new_file_helper and trunc = False, OF nf b d] fresh obtain w' where
    w': "fh_open fault base False new_file_helper w = (None, \<lparr>fh_fd = Some \<lparr>f_path = file_path base 0, f_pending = []\<rparr>, fh_filename = base\<rparr>, w')"
      "w_dirs w' = w_dirs w" "w_files w' = (w_files w)(file_path base 0 \<mapsto> [])"
    by (auto simp: new_file_helper_def)
  have at: "file_at base w' i = (if i = 0 then Some [] else file_at base w i)" for i
    using file_path_facts(2) [OF b] by (simp add: file_at_def w'(3))
  let ?s = "\<lparr>rs_formatter = default_pattern_formatter time_local default_eol, rs_base = base, rs_max_size = sz, rs_max_files = n,
    rs_current_size = 0, rs_file = \<lparr>fh_fd = Some \<lparr>f_path = file_path base 0, f_pending = []\<rparr>, fh_filename = base\<rparr>\<rparr>"
  have m: "make_rotating_sink fault base sz n rotate_on_open w = (Inr ?s, w')"
    using w'(1,3) by (simp add: make_rotating_sink_def calc_filename_def fh_size_def)
  have "map (content base w') (rev [0..<Suc n]) = map (\<lambda>_. []) (rev [0..<Suc n])"
    using fresh by (auto simp: content_def at simp del: upt_Suc)
  then have "kept_text base n [] w' = []" by (simp add: kept_text_def map_replicate_const del: upt_Suc)
  moreover have "rot_dirs base n w'" using d rot_dirs_cong [OF w'(2)] by simp
  moreover have "no_gap base n w'" using fresh by (auto simp: no_gap_def at)
  ultimately have "rot_inv M ?s w' []"
    unfolding rot_inv_def using fresh by (intro exI [of _ "[] :: string"]) (auto simp: rot_open_def at)
  then show ?thesis using m by auto
qed

text \<open>
  C38: A rotating sink keeps the newest text. Begun in a directory without files of its names, where no call of the
  system fails, it takes every message (whose source location, if any, names its file) without an exception; what its files hold, from the oldest to the newest with
  the buffer of the open stream, is the end of the text of all formatted lines, and nothing is lost before the
  last file exists. No file, with the buffer, is longer than the limit or than one line that exceeds it, and each rotated file
  lacks less than a line to the limit.
\<close>

theorem rotating_keeps_newest:
  assumes nf: "\<And>k. ll_fault L k = None" and ok: "lib_ok (ll_time L)" "list_all msg_ok ms"
    and b: "base \<noteq> []" "last base \<noteq> CHR ''/''" and d: "rot_dirs base n w" and fresh: "\<forall>i\<le>n. file_at base w i = None"
  shows "\<exists>pf lines s0 w0 s w' pend.
    format_all (ll_time L) (ll_pid L) (default_pattern_formatter time_local default_eol) ms = Some (pf, lines) \<and>
    make_rotating_sink (ll_fault L) base sz n rotate_on_open w = (Inr s0, w0) \<and>
    rotating_log L ms s0 w0 = Some (replicate (length ms) None, s, w') \<and> rot_open base pend (rs_file s) \<and>
    suffix (kept_text base n pend w') (concat lines) \<and>
    (kept_text base n pend w' = concat lines \<or> file_at base w' n \<noteq> None) \<and>
    (\<forall>M. (\<forall>l\<in>set lines. length l \<le> M) \<longrightarrow>
       length (content base w' 0) + length pend \<le> max sz M \<and>
       (\<forall>i x. 0 < i \<and> i \<le> n \<and> file_at base w' i = Some x \<longrightarrow> length x \<le> max sz M \<and> sz < length x + M))"
proof -
  have "pf_ok (default_pattern_formatter time_local default_eol)"
    by (simp add: pf_ok_def default_pattern_formatter_def tm_ok_def zero_tm_def)
  from format_all_total [OF this ok] obtain pf lines where
    f: "format_all (ll_time L) (ll_pid L) (default_pattern_formatter time_local default_eol) ms = Some (pf, lines)" by blast
  let ?run = "\<lambda>s0 w0 s w'. make_rotating_sink (ll_fault L) base sz n rotate_on_open w = (Inr s0, w0) \<and>
      rotating_log L ms s0 w0 = Some (replicate (length ms) None, s, w')"
  have run: "\<exists>s0 w0 s w'. ?run s0 w0 s w' \<and> rot_inv M s w' (concat lines) \<and> rs_base s = base \<and> rs_max_size s = sz \<and> rs_max_files s = n"
    if M: "\<forall>l\<in>set lines. length l \<le> M" for M
  proof -
    obtain s0 w0 where i: "make_rotating_sink (ll_fault L) base sz n rotate_on_open w = (Inr s0, w0)" "rot_inv M s0 w0 []"
      "rs_formatter s0 = default_pattern_formatter time_local default_eol" "rs_base s0 = base" "rs_max_size s0 = sz" "rs_max_files s0 = n"
      using rot_start [where fault = "ll_fault L", OF nf b d fresh] by blast
    show ?thesis using rot_writes [OF nf i(2), of ms pf lines] i f M b by auto
  qed
  define M0 where "M0 = Max (insert 0 (length ` set lines))"
  have "\<forall>l\<in>set lines. length l \<le> M0" by (simp add: M0_def)
  from run [OF this] obtain s0 w0 s w' where r: "?run s0 w0 s w'" "rot_inv M0 s w' (concat lines)" "rs_base s = base"
    "rs_max_size s = sz" "rs_max_files s = n" by blast
  from r(2-5) obtain pend where p: "rot_open base pend (rs_file s)" "suffix (kept_text base n pend w') (concat lines)"
    "kept_text base n pend w' = concat lines \<or> file_at base w' n \<noteq> None" by (auto simp: rot_inv_def)
  have "length (content base w' 0) + length pend \<le> max sz M \<and>
       (\<forall>i x. 0 < i \<and> i \<le> n \<and> file_at base w' i = Some x \<longrightarrow> length x \<le> max sz M \<and> sz < length x + M)"
    if M: "\<forall>l\<in>set lines. length l \<le> M" for M
  proof -
    from run [OF M] r(1) have "rot_inv M s w' (concat lines)" by auto
    then show ?thesis using r(3-5) p(1) by (auto simp: rot_inv_def rot_open_def content_def)
  qed
  then show ?thesis using f r(1) p by blast
qed

definition rot_lib :: log_lib where
  "rot_lib = \<lparr>ll_time = sample_lib, ll_pid = 1, ll_fault = (\<lambda>k. None)\<rparr>"

definition rot_world :: world where
  "rot_world = \<lparr>w_dirs = [(False, [''logs''])], w_files = Map.empty, w_calls = 0, w_console = [], w_bufsize = 4096, w_spill = (\<lambda>_. 0)\<rparr>"

lemma rot_world_free: "rot_dirs ''logs/app.txt'' 2 rot_world"
proof -
  have "file_path ''logs/app.txt'' i = (False, [''logs'', ''app.txt'']) \<or>
    file_path ''logs/app.txt'' i = (False, [''logs'', ''app.1.txt'']) \<or> file_path ''logs/app.txt'' i = (False, [''logs'', ''app.2.txt''])"
    if "i \<le> 2" for i
  proof -
    from that have "i = 0 \<or> i = 1 \<or> i = 2" by auto
    moreover have "file_path ''logs/app.txt'' 0 = (False, [''logs'', ''app.txt''])"
      "file_path ''logs/app.txt'' 1 = (False, [''logs'', ''app.1.txt''])"
      "file_path ''logs/app.txt'' 2 = (False, [''logs'', ''app.2.txt''])" by code_simp+
    ultimately show ?thesis by auto
  qed
  moreover have "parent (canon ''logs/app.txt'') = (False, [''logs''])" by code_simp
  ultimately show ?thesis by (fastforce simp: rot_dirs_def rot_world_def is_dir_def)
qed

theorem rotating_keeps_newest_witness:
  "\<exists>pf lines s0 w0 s w' pend.
    format_all sample_lib 1 (default_pattern_formatter time_local default_eol) [sample_msg, sample_msg, sample_msg] = Some (pf, lines) \<and>
    make_rotating_sink (\<lambda>k. None) ''logs/app.txt'' 60 2 False rot_world = (Inr s0, w0) \<and>
    rotating_log rot_lib [sample_msg, sample_msg, sample_msg] s0 w0 = Some ([None, None, None], s, w') \<and>
    rot_open ''logs/app.txt'' pend (rs_file s) \<and> suffix (kept_text ''logs/app.txt'' 2 pend w') (concat lines)"
proof -
  have l: "lib_ok sample_lib" "list_all msg_ok [sample_msg, sample_msg, sample_msg]"
    by (simp_all add: lib_ok_def tm_ok_def sample_lib_def sample_tm_def msg_ok_def sample_msg_def make_log_msg_def
      no_source_loc_def source_loc_empty_def)
  from rotating_keeps_newest [where L = rot_lib and ms = "[sample_msg, sample_msg, sample_msg]" and base = "''logs/app.txt''" and n = 2
      and w = rot_world and sz = 60 and rotate_on_open = False]
  show ?thesis using l rot_world_free by (simp add: rot_lib_def file_at_def rot_world_def numeral_eq_Suc) blast
qed

section \<open>Failing rotations\<close>

text \<open>
  Whatever calls fail, no line is written to a null stream: when a rotation leaves the sink without a stream, the
  size stays above the limit and the next line begins with a rotation. (The size is a \<^verbatim>\<open>size_t\<close>; it is taken not to wrap.)
\<close>

definition rot_safe :: "rotating_sink \<Rightarrow> bool" where
  "rot_safe s \<longleftrightarrow> pf_ok (rs_formatter s) \<and> (fh_fd (rs_file s) = None \<longrightarrow> rs_max_size s < rs_current_size s)"

lemma opened_stream: "fh_open fault fname trunc fh w = (None, fh', w') \<Longrightarrow> fh_fd fh' \<noteq> None"
  by (auto simp: fh_open_def Let_def split: prod.splits option.splits)

lemma reopened_stream: "fh_reopen fault trunc fh w = (None, fh', w') \<Longrightarrow> fh_fd fh' \<noteq> None"
  using opened_stream by (auto simp: fh_reopen_def split: if_splits)

lemma rotate_loop_keeps:
  "rotate_loop fault k s w = (ex, s', w') \<Longrightarrow> rs_formatter s' = rs_formatter s \<and> rs_max_size s' = rs_max_size s \<and>
     (rs_current_size s' = rs_current_size s \<or> fh_fd (rs_file s') \<noteq> None)"
proof (induction k arbitrary: w)
  case (Suc k)
  then show ?case
    by (auto simp: Let_def split: prod.splits if_splits option.splits dest: reopened_stream)
qed simp

lemma rotate_loop_size: "rotate_loop fault k s w = (None, s', w') \<Longrightarrow> rs_current_size s' = rs_current_size s"
proof (induction k arbitrary: w)
  case (Suc k)
  then show ?case by (auto simp: Let_def split: prod.splits if_splits option.splits)
qed simp

lemma rotate_keeps:
  assumes "rotate_files fault s w = (ex, s', w')"
  shows "rs_formatter s' = rs_formatter s \<and> rs_max_size s' = rs_max_size s \<and> (ex = None \<longrightarrow> fh_fd (rs_file s') \<noteq> None) \<and>
     (rs_current_size s' = rs_current_size s \<or> fh_fd (rs_file s') \<noteq> None)"
proof -
  obtain fh w1 where c: "fh_close fault (rs_file s) w = (fh, w1)" by (cases "fh_close fault (rs_file s) w")
  obtain ex1 s1 w2 where l: "rotate_loop fault (rs_max_files s) (s\<lparr>rs_file := fh\<rparr>) w1 = (ex1, s1, w2)"
    by (cases "rotate_loop fault (rs_max_files s) (s\<lparr>rs_file := fh\<rparr>) w1")
  obtain ex2 fh2 w3 where r: "fh_reopen fault True (rs_file s1) w2 = (ex2, fh2, w3)"
    by (cases "fh_reopen fault True (rs_file s1) w2")
  show ?thesis
  proof (cases ex1)
    case None
    then have e: "ex = ex2" "s' = s1\<lparr>rs_file := fh2\<rparr>" using assms c l r by (simp_all add: rotate_files_def)
    have "rs_current_size s1 = rs_current_size s" using rotate_loop_size [OF l [unfolded None]] by simp
    then show ?thesis using e r rotate_loop_keeps [OF l] reopened_stream by auto
  next
    case (Some e)
    then have "ex = Some e" "s' = s1" using assms c l by (simp_all add: rotate_files_def)
    then show ?thesis using rotate_loop_keeps [OF l] by simp
  qed
qed

lemma rotating_sink_safe:
  assumes "rot_safe s" "lib_ok (ll_time L)" "msg_ok m"
  shows "\<exists>ex s' w'. rotating_sink_it L m s w = Some (ex, s', w') \<and> rot_safe s'"
proof -
  obtain pf m' d where f: "pf_format (ll_time L) (ll_pid L) (rs_formatter s) m [] = Some (pf, m', d)" "pf_ok pf"
    using pf_format_total [of "rs_formatter s" "ll_time L" m "ll_pid L" "[]"] assms by (auto simp: rot_safe_def)
  let ?s = "s\<lparr>rs_formatter := pf, rs_current_size := rs_current_size s + length d\<rparr>"
  have wr: "\<exists>ex fh' w'. fh_write (ll_fault L) d fh w = Some (ex, fh', w') \<and> fh_fd fh' \<noteq> None" if "fh_fd fh \<noteq> None" for fh w
    using that by (auto simp: fh_write_def split: prod.split)
  show ?thesis
  proof (cases "rs_current_size s + length d > rs_max_size s")
    case False
    then have "fh_fd (rs_file s) \<noteq> None" using assms(1) by (auto simp: rot_safe_def)
    from wr [OF this, of w] obtain ex fh' w' where w: "fh_write (ll_fault L) d (rs_file s) w = Some (ex, fh', w')" "fh_fd fh' \<noteq> None" by blast
    have "rotating_sink_it L m s w = Some (ex, ?s\<lparr>rs_file := fh'\<rparr>, w')"
      using False f w by (simp add: rotating_sink_it_def)
    then show ?thesis using f w by (auto simp: rot_safe_def)
  next
    case True
    obtain ex s1 w1 where r: "rotate_files (ll_fault L) ?s w = (ex, s1, w1)" by (cases "rotate_files (ll_fault L) ?s w")
    note k = rotate_keeps [OF r]
    show ?thesis
    proof (cases ex)
      case None
      then have "fh_fd (rs_file s1) \<noteq> None" using k by simp
      from wr [OF this, of w1] obtain ex2 fh' w' where
        w: "fh_write (ll_fault L) d (rs_file s1) w1 = Some (ex2, fh', w')" "fh_fd fh' \<noteq> None" by blast
      have "rotating_sink_it L m s w = Some (ex2, s1\<lparr>rs_current_size := length d, rs_file := fh'\<rparr>, w')"
        using True f r None w by (simp add: rotating_sink_it_def)
      then show ?thesis using f w k by (auto simp: rot_safe_def)
    next
      case (Some e)
      then have "rotating_sink_it L m s w = Some (Some e, s1, w1)" using True f r by (simp add: rotating_sink_it_def)
      then show ?thesis using f k True by (auto simp: rot_safe_def)
    qed
  qed
qed

lemma make_rotating_safe:
  assumes "make_rotating_sink fault base sz n rotate_on_open w = (Inr s, w')"
  shows "rot_safe s"
proof -
  have p: "pf_ok (default_pattern_formatter time_local default_eol)"
    by (simp add: pf_ok_def default_pattern_formatter_def tm_ok_def zero_tm_def)
  obtain ex fh w1 where o: "fh_open fault (calc_filename base 0) False new_file_helper w = (ex, fh, w1)"
    by (cases "fh_open fault (calc_filename base 0) False new_file_helper w")
  have e: "ex = None" using assms o by (cases ex) (simp_all add: make_rotating_sink_def)
  note fd = opened_stream [OF o [unfolded e]]
  then show ?thesis
    using assms o e p
    by (auto simp: make_rotating_sink_def fh_size_def rot_safe_def Let_def split: if_splits option.splits prod.splits dest!: rotate_keeps)
qed

lemma rotating_never_null:
  "rot_safe s \<Longrightarrow> lib_ok (ll_time L) \<Longrightarrow> list_all msg_ok ms \<Longrightarrow>
   \<exists>exs s' w'. rotating_log L ms s w = Some (exs, s', w') \<and> length exs = length ms \<and> rot_safe s'"
proof (induction ms arbitrary: s w)
  case (Cons m ms)
  then obtain ex s1 w1 where "rotating_sink_it L m s w = Some (ex, s1, w1)" "rot_safe s1"
    using rotating_sink_safe [of s L m w] by auto
  moreover from this Cons obtain exs s' w' where "rotating_log L ms s1 w1 = Some (exs, s', w')" "length exs = length ms" "rot_safe s'"
    by fastforce
  ultimately show ?case by simp
qed simp

text \<open>
  A sink that rotates on opening keeps the size of the old file as the size of the new, empty one: it rotates again before the
  new file is full.
\<close>

lemma rotate_on_open_keeps_size:
  "case make_rotating_sink (\<lambda>k. None) ''app.txt'' 16 2 True (rot_world\<lparr>w_files := [(False, [''app.txt'']) \<mapsto> ''twelve bytes'']\<rparr>) of
     (Inr s, w) \<Rightarrow> rs_current_size s = 12 \<and> fh_size (rs_file s) w = Inr 0 | _ \<Rightarrow> False"
  by code_simp

end
