(* ===== verification/Log_Sinks.thy ===== *)
theory Log_Sinks
  imports Log_Logger
begin

text \<open>
  Sinks that hand messages to other sinks (\<^verbatim>\<open>src/inc/spdlog/sinks/dist_sink.h\<close>, \<^verbatim>\<open>dup_filter_sink.h\<close>): the
  distributing sink, and the filter that counts repeated messages. The sinks they hand to are named by their
  position in the state, as those of a logger are.
\<close>

section \<open>The distributing sink\<close>

record dist_sink =
  ds_formatter :: pattern_formatter
  ds_sinks :: "nat list"

definition add_sink :: "nat \<Rightarrow> 'a dist_sink_scheme \<Rightarrow> 'a dist_sink_scheme" where
  "add_sink a d = d\<lparr>ds_sinks := ds_sinks d @ [a]\<rparr>"

definition remove_sink :: "nat \<Rightarrow> 'a dist_sink_scheme \<Rightarrow> 'a dist_sink_scheme" where
  "remove_sink a d = d\<lparr>ds_sinks := filter (\<lambda>b. b \<noteq> a) (ds_sinks d)\<rparr>"

definition set_sinks :: "nat list \<Rightarrow> 'a dist_sink_scheme \<Rightarrow> 'a dist_sink_scheme" where
  "set_sinks as d = d\<lparr>ds_sinks := as\<rparr>"

text \<open>Unlike the loop of a logger, this one has no handler: the first exception ends it.\<close>

fun dist_loop :: "log_lib \<Rightarrow> nat list \<Rightarrow> log_msg \<Rightarrow> log_state \<Rightarrow> (spdlog_ex option \<times> log_msg \<times> log_state) option" where
  "dist_loop L [] msg st = Some (None, msg, st)"
| "dist_loop L (a # as) msg st =
     (if \<not> a < length (ls_sinks st) then None
      else if sink_should_log (ls_sinks st ! a) (lm_level msg) then do {
        (ex, msg, s, w) \<leftarrow> sink_log L msg (ls_sinks st ! a) (ls_world st);
        let st = st\<lparr>ls_sinks := (ls_sinks st)[a := s], ls_world := w\<rparr>;
        case ex of Some e \<Rightarrow> Some (Some e, msg, st) | None \<Rightarrow> dist_loop L as msg st }
      else dist_loop L as msg st)"

definition dist_flush :: "log_lib \<Rightarrow> 'a dist_sink_scheme \<Rightarrow> log_state \<Rightarrow> log_state option" where
  "dist_flush L d st = flush_loop L (ds_sinks d) st"

fun dist_formatters :: "int \<Rightarrow> pattern_formatter \<Rightarrow> nat list \<Rightarrow> log_state \<Rightarrow> log_state option" where
  "dist_formatters now f [] st = Some st"
| "dist_formatters now f (a # as) st =
     (if \<not> a < length (ls_sinks st) then None
      else dist_formatters now f as
        (st\<lparr>ls_sinks := (ls_sinks st)[a := sink_set_formatter (clone_pattern_formatter now f) (ls_sinks st ! a)]\<rparr>))"

definition dist_set_formatter ::
  "int \<Rightarrow> pattern_formatter \<Rightarrow> 'a dist_sink_scheme \<Rightarrow> log_state \<Rightarrow> ('a dist_sink_scheme \<times> log_state) option" where
  "dist_set_formatter now f d st = do {
     st \<leftarrow> dist_formatters now f (ds_sinks d) st;
     Some (d\<lparr>ds_formatter := f\<rparr>, st) }"

definition dist_set_pattern ::
  "int \<Rightarrow> string \<Rightarrow> 'a dist_sink_scheme \<Rightarrow> log_state \<Rightarrow> ('a dist_sink_scheme \<times> log_state) option" where
  "dist_set_pattern now pattern d st =
     dist_set_formatter now (make_pattern_formatter now pattern time_local default_eol) d st"

section \<open>The filter of repeated messages\<close>

text \<open>The longest time to skip is in microseconds, times are in nanoseconds. All are taken far from the bounds of their type.\<close>

record dup_filter = dist_sink +
  df_max_skip_duration :: int
  df_last_msg_time :: int
  df_last_msg_payload :: string
  df_skip_counter :: nat

definition make_dup_filter :: "int \<Rightarrow> dup_filter" where
  "make_dup_filter max_skip_duration =
     \<lparr>ds_formatter = default_pattern_formatter time_local default_eol, ds_sinks = [],
      df_max_skip_duration = max_skip_duration, df_last_msg_time = 0, df_last_msg_payload = [], df_skip_counter = 0\<rparr>"

definition dup_filtered :: "log_msg \<Rightarrow> dup_filter \<Rightarrow> bool" where
  "dup_filtered msg d \<longleftrightarrow>
     lm_time msg - df_last_msg_time d > df_max_skip_duration d * 1000 \<or> lm_payload msg \<noteq> df_last_msg_payload d"

definition skipped_text :: "nat \<Rightarrow> string" where
  "skipped_text n = ''Skipped '' @ dec n @ '' duplicate messages..''"

text \<open>An exception of a sink leaves the message unrecorded and the counter as it was.\<close>

definition dup_sink_it ::
  "log_lib \<Rightarrow> log_env \<Rightarrow> log_msg \<Rightarrow> dup_filter \<Rightarrow> log_state \<Rightarrow> (spdlog_ex option \<times> dup_filter \<times> log_state) option" where
  "dup_sink_it L env msg d st =
     (if \<not> dup_filtered msg d
      then Some (None, d\<lparr>df_skip_counter := (df_skip_counter d + 1) mod 2 ^ 64\<rparr>, st)
      else do {
        (ex, st) \<leftarrow>
          (if df_skip_counter d > 0
           then do {
             (ex, _, st) \<leftarrow> dist_loop L (ds_sinks d)
               (make_log_msg env no_source_loc (lm_logger_name msg) (lm_level msg) (skipped_text (df_skip_counter d))) st;
             Some (ex, st) }
           else Some (None, st));
        case ex of
          Some e \<Rightarrow> Some (Some e, d, st)
        | None \<Rightarrow> do {
            (ex, msg, st) \<leftarrow> dist_loop L (ds_sinks d) msg st;
            Some (ex, if ex = None then d\<lparr>df_last_msg_time := lm_time msg, df_skip_counter := 0,
                        df_last_msg_payload := lm_payload msg\<rparr> else d, st) } })"

section \<open>What the filter shows\<close>

fun dup_run ::
  "log_lib \<Rightarrow> (log_env \<times> log_msg) list \<Rightarrow> dup_filter \<Rightarrow> log_state \<Rightarrow> (spdlog_ex option list \<times> dup_filter \<times> log_state) option" where
  "dup_run L [] d st = Some ([], d, st)"
| "dup_run L ((env, m) # ms) d st = do {
     (ex, d, st) \<leftarrow> dup_sink_it L env m d st;
     (exs, d, st) \<leftarrow> dup_run L ms d st;
     Some (ex # exs, d, st) }"

text \<open>
  Repetitions of the last message shown, in time, change only the counter: the time is that of the message shown, so that
  a steady stream of repetitions is shown again when the time is over.
\<close>

lemma repetitions_skipped:
  "\<forall>(env, m) \<in> set ms. \<not> dup_filtered m d \<Longrightarrow> df_skip_counter d < 2 ^ 64 \<Longrightarrow>
   dup_run L ms d st =
     Some (replicate (length ms) None, d\<lparr>df_skip_counter := (df_skip_counter d + length ms) mod 2 ^ 64\<rparr>, st)"
proof (induction ms arbitrary: d)
  case (Cons em ms)
  obtain env m where em: "em = (env, m)" by (cases em)
  let ?d = "d\<lparr>df_skip_counter := (df_skip_counter d + 1) mod 2 ^ 64\<rparr>"
  have "dup_run L ms ?d st = Some (replicate (length ms) None,
      ?d\<lparr>df_skip_counter := (df_skip_counter ?d + length ms) mod 2 ^ 64\<rparr>, st)"
    using Cons.prems by (intro Cons.IH) (auto simp: dup_filtered_def)
  then show ?case using Cons.prems em by (simp add: dup_sink_it_def mod_simps)
qed simp

text \<open>
  A message shown, \<open>n\<close> repetitions and another message: what the sinks get between the two is the text
  \<open>Skipped n duplicate messages..\<close>. The first message is not counted, although the example in the comment of the
  class counts it.
\<close>

lemma repetitions_counted:
  assumes first: "dup_sink_it L env m d st = Some (None, d1, st1)" "dup_filtered m d"
    and rep: "\<forall>(env, r) \<in> set ms. \<not> dup_filtered r d1" "0 < length ms" "length ms < 2 ^ 64" and other: "dup_filtered x d1"
  shows "\<exists>d2. dup_run L ms d1 st1 = Some (replicate (length ms) None, d2, st1) \<and>
    dup_sink_it L env' x d2 st1 = do {
      (ex, _, st) \<leftarrow> dist_loop L (ds_sinks d)
        (make_log_msg env' no_source_loc (lm_logger_name x) (lm_level x) (skipped_text (length ms))) st1;
      case ex of
        Some e \<Rightarrow> Some (Some e, d2, st)
      | None \<Rightarrow> do {
          (ex, x, st) \<leftarrow> dist_loop L (ds_sinks d) x st;
          Some (ex, if ex = None then d2\<lparr>df_last_msg_time := lm_time x, df_skip_counter := 0,
                      df_last_msg_payload := lm_payload x\<rparr> else d2, st) } }"
proof -
  have d1: "df_skip_counter d1 = 0" "ds_sinks d1 = ds_sinks d"
    using first by (auto simp: dup_sink_it_def bind_eq_Some_conv split: option.splits if_splits)
  let ?d2 = "d1\<lparr>df_skip_counter := length ms\<rparr>"
  have "dup_run L ms d1 st1 = Some (replicate (length ms) None, ?d2, st1)"
    using repetitions_skipped [OF rep(1)] d1 rep(3) by simp
  moreover have "dup_filtered x ?d2" using other by (simp add: dup_filtered_def)
  ultimately show ?thesis
    using d1 rep(2)
    by (intro exI [of _ ?d2], cases "dist_loop L (ds_sinks d)
        (make_log_msg env' no_source_loc (lm_logger_name x) (lm_level x) (skipped_text (length ms))) st1")
      (auto simp: dup_sink_it_def split: option.split)
qed

lemma skipped_text_example: "skipped_text 2 = ''Skipped 2 duplicate messages..''"
  by (simp add: skipped_text_def dec.simps digit_char_def char_of_def bit_Suc_0_iff)

end
