(* ===== verification/Spec2Isabelle.thy ===== *)
theory Spec2Isabelle
  imports Alarm_Ring DataBase Serial_Config Hik_Config Csv_Async Csv_Parse Service_Sending Log_Trace Log_Service Log_Pool Log_Rotate Log_Sinks
begin

text \<open>
  A verification development of the motion-detection alarm service: a daemon that logs in to Hikvision
  cameras, arms their motion detection, and sends a text message over a GSM modem on a serial line to
  the phone numbers of a camera whenever that camera reports motion.

  \<^bold>\<open>The program and its parts.\<close> \<^verbatim>\<open>src/src/main.cpp\<close> reads the database settings with \<^verbatim>\<open>CsvParse\<close> (which uses
  the header-only reader \<^verbatim>\<open>src/src/csv.h\<close>), loads the camera table with \<^verbatim>\<open>DataBaseOperate\<close>, logs in to and
  arms every camera with \<^verbatim>\<open>HikDevOperate\<close>, opens the modem with \<^verbatim>\<open>SerialPort\<close> and then loops: an alarm
  callback of the SDK stores alarms in a ring of 32 slots from another thread; each iteration of the loop
  takes the pending alarms out of the ring, looks up name and numbers of the camera, converts the message
  to hexadecimal UTF-16 and writes it to the modem. \<^verbatim>\<open>SIGTERM\<close> clears the flag that the loop tests.

  \<^bold>\<open>Conventions.\<close> A class with state is a record; static members are fields of that record; a member
  function is a function that takes and returns it. C integers keep their width (\<open>u8\<close>, \<open>u16\<close>, \<open>u32\<close>,
  \<open>u64\<close>) where wrap-around can matter. \<open>None\<close> of type \<open>option\<close> is an access outside an array, a failed
  assertion or a wait that never ends; exceptions of the CSV reader are \<open>throw e\<close> of the type \<open>res\<close>; the
  service has four outcomes: \<open>Ok\<close>, \<open>Exit\<close> (\<^verbatim>\<open>return\<close> from \<^verbatim>\<open>main\<close>), \<open>Abort\<close> (an exception that nothing
  catches) and \<open>Undefined\<close>. What system calls, the SDK, MySQL, \<^verbatim>\<open>fopen\<close> and \<^verbatim>\<open>localtime\<close> return is an argument
  of the definitions that call them, and what they are asked to do is a trace in the result.

  \<^bold>\<open>Theories.\<close>

    \<^item> \<open>Prelude\<close>: machine types, byte strings, NUL-terminated strings, \<^verbatim>\<open>snprintf\<close>, decimal and
      hexadecimal digits, and the facts the components share; the locales \<open>invariant_system\<close> and
      \<open>live_system\<close> for threads that share state, interpreted on the alarm ring and the asynchronous reader.
    \<^item> \<open>Std_Map\<close>: \<^verbatim>\<open>std::map\<close> as an association list sorted by key, with the locale \<open>dictionary\<close>.
    \<^item> \<open>Alarm_Ring\<close> (\<^verbatim>\<open>HikDev.h\<close>, \<^verbatim>\<open>HikDev.cpp\<close>): \<^verbatim>\<open>HikDevAlarmCallback\<close>, the two indices of the ring and
      the getters. The locale \<open>bounded_fifo\<close> is the contract of the ring, interpreted on the code's
      operations; \<open>sys_step\<close> interleaves callback and service loop call by call. Shown: the ring refines a
      queue of at most 31 alarms, memory safety, exactly-once hand-over in order for every interleaving, and
      the loss of all pending alarms when a 32nd arrives.
    \<^item> \<open>Hik_Device\<close>, \<open>Hik_Config\<close> (\<^verbatim>\<open>HikDev.cpp\<close>): SDK start and end, login, motion-detection set-up, arming,
      the alarm texts, and the device and network reports. Shown: what arming changes, when login overruns
      an array, what room the MAC text needs, what the numbers of the reports mean.
    \<^item> \<open>DataBase\<close> (\<^verbatim>\<open>DataBase.h\<close>, \<^verbatim>\<open>DataBase.cpp\<close>): connection, table load, number and phone-list parsing,
      look-ups. The locale \<open>camera_directory\<close> is what the service loop relies on. Shown: exactly the complete
      rows are stored, in order, with their phone lists; which tables are rejected; the round trip of phone
      lists.
    \<^item> \<open>Serial_Encoding\<close> (\<^verbatim>\<open>SerialPort.cpp\<close>): UTF-8 to hexadecimal UTF-16BE and the message command. Shown:
      the conversion is right for one- and three-byte characters and wrong for two-byte ones; the layout of
      the command; when packing throws.
    \<^item> \<open>Serial_Port\<close>, \<open>Serial_Config\<close> (\<^verbatim>\<open>SerialPort.cpp\<close>): open, close, terminal settings, buffered line input,
      output, the wheel-speed frame. The locale \<open>framed_source\<close> gives the stream property of line input.
      Shown: \<^verbatim>\<open>readLine\<close> refines a line specification and loses no byte; a full buffer stalls; when \<^verbatim>\<open>Set\<close>
      succeeds and what it changes; what it reads behind its tables.
    \<^item> \<open>Csv_Error\<close> (\<^verbatim>\<open>csv.h\<close>): the error classes and their messages, which always fit their buffers.
    \<^item> \<open>Csv_Line_Reader\<close>, \<open>Csv_Async\<close> (\<^verbatim>\<open>csv.h\<close>): byte sources (locale \<open>byte_source\<close>, three classes),
      \<^verbatim>\<open>LineReader\<close> with its three blocks, and the asynchronous reader with its worker thread as a step
      relation. Shown: the lines a client reads are the lines of the file, reading ends, and the asynchronous
      reader returns what the synchronous one returns in every interleaving.
    \<^item> \<open>Csv_Columns\<close>, \<open>Csv_Lines\<close> (\<^verbatim>\<open>csv.h\<close>): trimming, comments, the two quoting policies (locale
      \<open>quote_policy\<close>), rows and header lines, in place on the memory of the line. Shown: which headers are
      accepted and the column order they give; the round trip of quoted rows.
    \<^item> \<open>Csv_Numbers\<close> (\<^verbatim>\<open>csv.h\<close>): overflow policies and the \<^verbatim>\<open>parse\<close> functions. Shown: integers are read
      exactly with overflow detected before it happens, floating-point numbers exactly in exact arithmetic;
      the exponent \<open>-2 ^ 31\<close> is undefined.
    \<^item> \<open>Csv_Parse\<close> (\<^verbatim>\<open>csv.h\<close>, \<^verbatim>\<open>CsvParse.h\<close>, \<^verbatim>\<open>CsvParse.cpp\<close>): \<^verbatim>\<open>CSVReader\<close> with its exception handlers and
      the settings read with it. Shown: which settings are stored and which file raises which exception.
    \<^item> \<open>Service_Main\<close> (\<^verbatim>\<open>main.cpp\<close>): PID file, signal handler, start-up, camera loop, alarm loop, end and the
      whole of \<^verbatim>\<open>main\<close>, with the invariants of ring and directory carried through them.
    \<^item> \<open>Service_Sending\<close>: what the alarm loop sends, as jobs computed from the camera table, with a small
      Hoare triple for runs that carry out jobs while alarms and signals arrive.
    \<^item> \<open>Log_Queue\<close>, \<open>Log_Message\<close> (\<^verbatim>\<open>src/inc/spdlog\<close>: \<^verbatim>\<open>details/circular_q.h\<close>, \<^verbatim>\<open>common.h\<close>, \<^verbatim>\<open>details/log_msg.h\<close>,
      \<^verbatim>\<open>details/log_msg_buffer.h\<close>, \<^verbatim>\<open>details/backtracer.h\<close>): levels, messages and their buffered copies, and the
      queue that overruns its oldest element, with the locale \<open>overrun_queue\<close> for what the backtracer needs of it.
    \<^item> \<open>Log_Digits\<close>, \<open>Log_Format\<close>, \<open>Log_Lines\<close> (\<^verbatim>\<open>details/pattern_formatter.h\<close>, \<^verbatim>\<open>details/fmt_helper.h\<close>, parts of
      \<^verbatim>\<open>fmt/bundled/format.h\<close>): patterns compiled to formatters, padding, every flag, the default line with its
      caches. Shown: integers print exactly; every pattern is safe; the default line is the line of a pattern, the one
      its comment names just for named loggers without source location, and shows no trace of its caches, but for the
      first second of the epoch.
    \<^item> \<open>Log_File\<close> (\<^verbatim>\<open>details/os-inl.h\<close>, \<^verbatim>\<open>details/file_helper.h\<close>): creating the directory, opening in five attempts,
      writing, on a file system where any call can fail. A stream has a buffer of \<open>w_bufsize\<close> bytes; text that does
      not fit is written to the file, how much of it is up to the library (\<open>w_spill\<close>). Shown: when opening succeeds
      and what it creates, and that file and buffer together hold what was written.
    \<^item> \<open>Log_Logger\<close>, \<open>Log_Registry\<close> (\<^verbatim>\<open>logger.h\<close>, \<^verbatim>\<open>sinks\<close>, \<^verbatim>\<open>details/registry.h\<close>): the synchronous logger with its error
      handler, the file and console sinks, and the registry with the periodic flusher, as a step relation with an
      invariant.
    \<^item> \<open>Log_Async\<close>, \<open>Log_Pool\<close> (\<^verbatim>\<open>details/mpmc_blocking_q.h\<close>, \<^verbatim>\<open>details/thread_pool.h\<close>, \<^verbatim>\<open>async_logger.h\<close>): the blocking
      queue and the pool of threads behind asynchronous loggers, interleaved lock by lock. Shown: no message is
      duplicated or reordered and losses are counted; one thread does what synchronous loggers do; the destructor
      returns for queues with room, with the queue empty, and with all messages handled when the loggers block.
    \<^item> \<open>Log_Rotate\<close> (\<^verbatim>\<open>sinks/rotating_file_sink.h\<close>): the rotating file sink. Shown: its files hold the newest text
      within the limit, and no failure of the system makes it write to a null stream.
    \<^item> \<open>Log_Sinks\<close> (\<^verbatim>\<open>sinks/dist_sink.h\<close>, \<^verbatim>\<open>sinks/dup_filter_sink.h\<close>): the sinks that hand messages to others.
      Shown: what the filter of repeated messages leaves out, and the number it reports.
    \<^item> \<open>Log_Trace\<close>, \<open>Log_Service\<close>: backtraces end to end, error reports, the colour range that one sink leaves to
      the next; and the log file of the service, from \<^verbatim>\<open>basic_logger_mt\<close> in \<^verbatim>\<open>main\<close> to the text in the file.
    \<^item> this theory: the properties that span the components. Shown: while at most 31 alarms are pending and all
      messages can be sent, every alarm is handled exactly once and in order, and exactly its messages reach the
      output and the modem; \<^verbatim>\<open>SIGTERM\<close> ends the service in good order; the early return is never taken; and two
      ways in which messages are lost or memory is overrun.

  \<^bold>\<open>Bounds and fuel.\<close> The block length of the line reader is an argument \<open>B\<close> (\<^verbatim>\<open>block_len\<close>, \<open>2 ^ 20\<close>, in the
  header); the properties hold for every \<open>B\<close> of at least two. \<open>read_lines\<close>, the loop of a client, has fuel:
  \<open>length src + 1\<close> calls are proved to be enough. \<open>line_loop\<close> (comment lines) is started with one unit more
  than the text that remains, and every line takes at least one byte of it; \<open>header_loop\<close> is started with
  one more than the length of the memory, and every column takes at least one byte. The service loop runs
  over a list of rounds, each the events that arrive before its test of the flag and those that arrive while
  each alarm of its batch is handled; the properties hold for every such list.

  \<^bold>\<open>Abstractions.\<close> In \<open>Service_Main\<close> the alarm callback and the signal handler run while the loop sleeps and
  after each alarm of a batch; the interleavings call by call are the subject of \<open>Alarm_Ring\<close>. A callback that runs
  between two statements of a getter, and the visibility of the unprotected indices to another thread, are
  not modelled. What a CSV object holds after it has thrown is not modelled (no caller uses it again). The
  logger is a list of lines in \<open>Service_Main\<close> and \<open>Csv_Parse\<close>, and the log texts of the other components are
  left out; what the library makes of the lines is the subject of the \<open>Log\<close> theories. There, time, thread and
  process number and the conversions to local time are arguments; the C library and the file system are a record
  \<open>world\<close> with an argument that says which calls fail; a lock is taken for the whole of a call, so that calls
  are the steps; a message that was formatted by a failing \<^verbatim>\<open>fmt\<close> is an exception value. A dump of a backtrace takes one
  time stamp for its marker lines and error reports, and the size a rotating sink counts does not wrap. A wait for a
  condition variable is a guard of the step that waits, so that lost notifications are not modelled (\<^verbatim>\<open>csv.h\<close> and
  \<^verbatim>\<open>mpmc_blocking_q.h\<close>). The camera name that \<^verbatim>\<open>DataBase.cpp\<close> prints while it loads a row is left out. The speed setters
  of \<^verbatim>\<open>termios\<close> are those of Linux: they set the rate bits of the control word and the two speed fields. The second \<^verbatim>\<open>close\<close> of the serial descriptor by the destructor has no further effect in the model.

  \<^bold>\<open>Not modelled.\<close> Of the vendored logging library \<^verbatim>\<open>src/inc/spdlog\<close>, parts that the service does
  not reach: the factories and the cloning of asynchronous loggers, the sinks for days, streams and
  system logs, and the formatting of arguments in \<^verbatim>\<open>fmt\<close>, whose result is an argument of \<open>logger_log_fmt\<close>. Swapping
  two registered loggers is a definition but no step of the registry, since it exchanges the names under it.
  \<^verbatim>\<open>src/inc/mysql\<close> holds the headers of
  the MySQL client library, and \<^verbatim>\<open>HCNetSDK.h\<close>, \<^verbatim>\<open>DecodeCardSdk.h\<close>, \<^verbatim>\<open>plaympeg4.h\<close> and \<^verbatim>\<open>DataType.h\<close> those of
  the SDK: their implementations are not part of the repository; only the structures and constants the
  service uses are records and constants here. The variants that the preprocessor removes (the second
  \<^verbatim>\<open>readLine\<close>, code under \<^verbatim>\<open>#if 0\<close>), the empty login callback, the logger setters, the empty constructors
  and the build files and start scripts carry no behaviour to state.
\<close>

section \<open>Properties that span components\<close>

text \<open>An example process: one pending alarm of a camera in the table.\<close>

definition demo_db :: db_state where
  "demo_db = \<lparr>CameraInfoName = [], CameraInfoFromDB = [[(CameraIp, ''10.0.0.7''), (CameraName, ''Gate'')]],
     IpWarnToPhoneFromDB = [(''10.0.0.7'', [''13800000001'', ''13900000002''])]\<rparr>"

definition demo_tm :: tm where
  "demo_tm = \<lparr>tm_year = 120, tm_mon = 0, tm_mday = 1, tm_hour = 8, tm_min = 0, tm_sec = 0\<rparr>"

definition demo_service :: service where
  "demo_service = \<lparr>ServiceRun = True, st_hik = cam_ring 1, st_db = demo_db, st_port = SerialPort\<lparr>isnormal := UART_TRUE\<rparr>,
     st_dev = (\<lambda>_. \<lparr>settings = \<lparr>c_iflag = 0, c_oflag = 0, c_cflag = 0, c_lflag = 0, c_cc = [], c_ispeed = 0, c_ospeed = 0\<rparr>,
       rx_queue = [], tx_queue = []\<rparr>),
     st_dev_name = [], st_writes = 0, st_log = [], st_out = [], st_sdk = [], st_pid = None, st_closed = []\<rparr>"

lemma demo_db_inv: "db_inv demo_db"
  by (simp add: db_inv_def demo_db_def omap_wf_def column_names)

lemma demo_service_inv: "ring_inv (st_hik demo_service)" "ring_contents (st_hik demo_service) = [(cam_alarmer, 3, 1577836800)]"
  using cam_ring_props [of 1] by (simp_all add: demo_service_def)

lemma demo_alarm_ip: "alarm_ip (cam_alarmer, 3, 1577836800) = Some ''10.0.0.7''"
  by (simp add: alarm_ip_def cam_alarmer_def cstr_def numeral_eq_Suc)

lemma demo_jobs:
  "alarm_jobs (\<lambda>_. demo_tm) demo_db (cam_alarmer, 3, 1577836800) =
     [(alarm_date (\<lambda>_. demo_tm) (cam_alarmer, 3, 1577836800), ''10.0.0.7'', ''Gate'', ''13800000001''),
      (alarm_date (\<lambda>_. demo_tm) (cam_alarmer, 3, 1577836800), ''10.0.0.7'', ''Gate'', ''13900000002'')]"
  by (simp add: alarm_jobs_def demo_alarm_ip directory_def demo_db_def camera_entry_def column_names)

lemma demo_date: "alarm_date (\<lambda>_. demo_tm) (cam_alarmer, 3, 1577836800) = ''2020-1-1 8:0:0''"
  by (simp add: alarm_date_def demo_tm_def date_time_text_def) code_simp

lemma demo_sendable: "sendable (''2020-1-1 8:0:0'', ''10.0.0.7'', ''Gate'', ''13800000001'')"
  "sendable (''2020-1-1 8:0:0'', ''10.0.0.7'', ''Gate'', ''13900000002'')"
  by code_simp+

text \<open>A start-up that goes through: a settings file with one cell, and no database, camera or port.\<close>

definition demo_env :: start_env where
  "demo_env = \<lparr>se_argc = 1, se_argv = ''0x7ffd0a00'', se_pid = \<lparr>getpid = 7, access_ret = 0, mkdir_ret = 0, pid_open_ret = 3, ftruncate_ret = 0,
       pid_write_ret = 2, errno_text = []\<rparr>,
     se_block = 64, se_fopen = (\<lambda>_. Inr (''DbIp'' @ [NL] @ ''10.0.0.9'')), se_junk = replicate 192 NUL,
     se_mysql = \<lparr>mysql_init_ok = False, mysql_options_ret = 0, mysql_connect_ok = False, mysql_query_ret = (\<lambda>_. 1),
       mysql_store_result = None\<rparr>,
     se_sdk = demo_sdk, se_past = (\<lambda>_. (0, 0)), se_open = (\<lambda>_. UART_FALSE), se_tcgetattr = 0, se_tcsetattr = 0\<rparr>"

definition demo_start :: service where
  "demo_start = demo_service\<lparr>st_hik := hik_static, st_db := db_static\<rparr>"

lemma demo_settings:
  "ParseCsvData 64 (\<lambda>_. Inr (''DbIp'' @ [NL] @ ''10.0.0.9'')) (replicate 192 NUL) (Some ''/usr/local/mdalarm/DbCfg.csv'') CsvParse_new =
     ret (False, log_error ''read empty data from cvs'' CsvParse_new)"
proof -
  let ?src = "''DbIp'' @ [NL] @ ''10.0.0.9''"
  have b: "drop_bom ?src = ?src" by (simp add: drop_bom_def)
  have s: "split_text ?src = [''DbIp'', ''10.0.0.9'']"
    by (simp add: split_text.simps first_line_def after_line_def strip_cr_def)
  have f: "lines_fit 64 ?src" by (simp add: lines_fit.simps first_line_def after_line_def)
  have h: "line_cells ''DbIp'' = [''DbIp'']" "line_cells ''10.0.0.9'' = [''10.0.0.9'']"
    by (simp_all add: line_cells_def trim_text_def)
  have "header_accepted [''DbIp'']" by (simp add: header_accepted_def db_columns_def)
  then show ?thesis
    using ParseCsvData_two_lines [of 64 "replicate 192 NUL" "''/usr/local/mdalarm/DbCfg.csv''" "\<lambda>_. Inr ?src" ?src "''DbIp''"
        "''10.0.0.9''" "[]" CsvParse_new] b s f h
    by (simp add: store_settings_def db_columns_def)
qed

lemma demo_start_ok: "\<exists>st. start_service demo_env 0 demo_start = Ok st"
proof -
  have "st_db (start_process demo_env demo_start) = db_static" by (simp add: demo_start_def)
  then obtain st3 where s3: "start_database demo_env (start_process demo_env demo_start) = Ok st3" "CameraInfoFromDB (st_db st3) = []"
    using demo_settings
    by (simp add: start_database_def demo_env_def of_res_def ret_def CsvParse_new_def log_error_def GetDbPort_def StrToUint_def
        ConnectDataBase_def db_static_def Let_def)
  then show ?thesis by (simp add: start_service_def GetCameraNum_def Let_def split: prod.split)
qed

lemma demo_online: "online (\<lambda>k n. int n) demo_service" "modem_queue demo_service = []"
  by (simp_all add: online_def modem_queue_def demo_service_def UART_TRUE_def UART_FALSE_def)

text \<open>
  C1: one iteration of the service loop, when the pending alarms and those that arrive during it are at most 31
  together, when the address array of every pending alarm holds a NUL, and when every message can be packed and fits
  the 512-byte array, carries out, for every alarm that is pending when it starts, in the order of arrival, one
  message to each number of the camera with the alarm's address, in the order of the phone list, and nothing else.
  What arrived is then pending, and the camera table is kept. If in addition the port is open, writes are complete
  and no number is empty, the modem gets exactly the bytes of these messages. An alarm whose address is marked as not
  valid or is empty, or whose camera is not in the table, is skipped. If some message cannot be packed or does not
  fit the array, the iteration ends the process instead (an exception that nothing catches, or a write outside the
  array).
\<close>

theorem iteration_sends_every_alarm:
  assumes "ring_inv (st_hik st)" "db_inv (st_db st)" "as = ring_contents (st_hik st)"
    and "es = batch_events evs (length as) 0" "length as + length (arrivals es) \<le> 31"
    and "\<forall>a\<in>set as. alarm_ip a \<noteq> None"
    and "jobs = concat (map (alarm_jobs localtime (st_db st)) as)"
  shows "if \<forall>j\<in>set jobs. sendable j
    then \<exists>st'. service_iteration localtime wr evs st = Ok st' \<and>
      st_out st' = st_out st @ concat (map job_lines jobs) \<and>
      (online wr st \<and> (\<forall>j\<in>set jobs. job_number j \<noteq> []) \<longrightarrow>
         modem_queue st' = modem_queue st @ concat (map job_bytes jobs)) \<and>
      ring_inv (st_hik st') \<and> ring_contents (st_hik st') = arrivals es \<and> db_inv (st_db st') \<and>
      directory (st_db st') = directory (st_db st) \<and>
      (ServiceRun st' \<longleftrightarrow> ServiceRun st \<and> Signal SIGTERM \<notin> set es)
    else service_iteration localtime wr evs st \<in> {Abort, Undefined}"
proof -
  have h: "ring_holds as st" using assms(1-3) by (simp add: ring_holds_def)
  note s = service_iteration_sends [OF h assms(5) [unfolded assms(4)] assms(6), of wr localtime,
      folded assms(4) assms(7)]
  show ?thesis
  proof (cases "list_all sendable jobs")
    case True
    then show ?thesis
      using sends_modem [OF s True assms(7)] by (auto simp: list_all_iff ring_holds_def same_setup_def)
  next
    case False
    then show ?thesis using s unfolding sends_bad [OF False] by (auto simp: list_all_iff)
  qed
qed

theorem iteration_sends_every_alarm_witness:
  "\<exists>st'. service_iteration (\<lambda>_. demo_tm) (\<lambda>k n. int n) (\<lambda>_. [Alarm cam_event]) demo_service = Ok st' \<and>
     modem_queue st' = job_bytes (''2020-1-1 8:0:0'', ''10.0.0.7'', ''Gate'', ''13800000001'') @
       job_bytes (''2020-1-1 8:0:0'', ''10.0.0.7'', ''Gate'', ''13900000002'') \<and>
     ring_contents (st_hik st') = [(cam_alarmer, 3, 1577836800)]"
proof -
  have d: "st_db demo_service = demo_db" by (simp add: demo_service_def)
  show ?thesis
    using iteration_sends_every_alarm [OF demo_service_inv(1), where localtime = "\<lambda>_. demo_tm" and wr = "\<lambda>k n. int n" and
        evs = "\<lambda>_. [Alarm cam_event]", OF _ refl refl _ _ refl]
      demo_db_inv demo_alarm_ip demo_sendable demo_online
    by (auto simp: demo_service_inv(2) d demo_jobs demo_date arrivals_def recorded_cam job_number_def)
qed

text \<open>
  C2: over any sequence of rounds in which never more than 31 alarms are pending, \<^verbatim>\<open>SIGTERM\<close> does not arrive, every
  address array holds a NUL, every message can be packed, fits the 512-byte array and has a number that is not
  empty, and the port is open with complete writes, no alarm is lost, repeated or reordered: the alarms whose
  messages were sent, followed by those still pending, are those pending at the start followed by all that arrived,
  while the loop slept or while it sent; the output and the modem get exactly the messages of the alarms handled;
  and only alarms that arrived while the last batch was sent (or all, if there is no round) are still pending. (Without the first condition alarms
  are lost, and with an empty number messages are.)
\<close>

theorem service_sends_all:
  assumes "ring_inv (st_hik st)" "db_inv (st_db st)" "ServiceRun st" "p = ring_contents (st_hik st)"
    and "rounds_fit p rounds" "Signal SIGTERM \<notin> set (all_events p rounds)"
    and "\<forall>a\<in>set p \<union> set (arrivals (all_events p rounds)). alarm_ip a \<noteq> None \<and>
           (\<forall>j\<in>set (alarm_jobs localtime (st_db st) a). sendable j \<and> job_number j \<noteq> [])"
    and "online wr st"
  shows "\<exists>st' done. service_loop localtime wr rounds st = Ok (False, st') \<and>
    done @ ring_contents (st_hik st') = p @ arrivals (all_events p rounds) \<and>
    st_out st' = st_out st @ concat (map job_lines (concat (map (alarm_jobs localtime (st_db st)) done))) \<and>
    modem_queue st' = modem_queue st @ concat (map job_bytes (concat (map (alarm_jobs localtime (st_db st)) done))) \<and>
    ring_contents (st_hik st') = pending_after p rounds \<and> ring_inv (st_hik st') \<and> db_inv (st_db st')"
proof -
  let ?J = "concat (map (alarm_jobs localtime (st_db st)) (handled_alarms p rounds))"
  have h: "ring_holds p st" using assms(1,2,4) by (simp add: ring_holds_def)
  have "set (handled_alarms p rounds) \<subseteq> set (handled_alarms p rounds @ pending_after p rounds)" by simp
  then have sub: "set (handled_alarms p rounds) \<subseteq> set p \<union> set (arrivals (all_events p rounds))"
    unfolding handled_exactly_once by simp
  have ip: "\<forall>a\<in>set (handled_alarms p rounds). alarm_ip a \<noteq> None" using assms(7) sub by blast
  have js: "list_all sendable ?J" "\<forall>j\<in>set ?J. job_number j \<noteq> []"
    using assms(7) sub by (fastforce simp: list_all_iff)+
  obtain st' where st': "run_bind (service_loop localtime wr rounds st) (\<lambda>(ended, st'). if ended then Exit 0 else Ok st') = Ok st'"
    "ring_holds (pending_after p rounds) st'" "st_out st' = st_out st @ concat (map job_lines ?J)"
    "modem_queue st' = modem_queue st @ concat (map job_bytes ?J)"
    using sends_modem [OF service_loop_sends [OF h assms(3,5,6) ip] js(1) refl] js(2) assms(8) by blast
  then have "service_loop localtime wr rounds st = Ok (False, st')" by (auto simp: run_bind_eq_Ok split: if_splits)
  then show ?thesis
    using st' handled_exactly_once [of p rounds] by (auto simp: ring_holds_def intro!: exI [of _ "handled_alarms p rounds"])
qed

theorem service_sends_all_witness:
  "\<exists>st' done. service_loop (\<lambda>_. demo_tm) (\<lambda>k n. int n) [([Signal 1], \<lambda>_. [Alarm cam_event]), ([Alarm cam_event], \<lambda>_. [])] demo_service =
       Ok (False, st') \<and>
     done @ ring_contents (st_hik st') = replicate 3 (cam_alarmer, 3, 1577836800) \<and> ring_contents (st_hik st') = []"
proof -
  define rounds :: "round list" where "rounds = [([Signal 1], \<lambda>_. [Alarm cam_event]), ([Alarm cam_event], \<lambda>_. [])]"
  let ?a = "(cam_alarmer, 3, 1577836800)"
  have d: "st_db demo_service = demo_db" "ServiceRun demo_service" by (simp_all add: demo_service_def)
  have e: "arrivals (all_events [?a] rounds) = [?a, ?a]" "rounds_fit [?a] rounds" "pending_after [?a] rounds = []"
    "Signal SIGTERM \<notin> set (all_events [?a] rounds)"
    by (simp_all add: rounds_def arrivals_def recorded_cam SIGTERM_def Let_def)
  have "\<forall>a\<in>set [?a] \<union> set (arrivals (all_events [?a] rounds)). alarm_ip a \<noteq> None \<and>
      (\<forall>j\<in>set (alarm_jobs (\<lambda>_. demo_tm) (st_db demo_service) a). sendable j \<and> job_number j \<noteq> [])"
    using demo_sendable demo_alarm_ip by (simp add: e d demo_jobs demo_date job_number_def)
  then obtain st' dn where "service_loop (\<lambda>_. demo_tm) (\<lambda>k n. int n) rounds demo_service = Ok (False, st')"
    "dn @ ring_contents (st_hik st') = [?a, ?a, ?a]" "ring_contents (st_hik st') = []"
    using service_sends_all [OF demo_service_inv(1) _ d(2) demo_service_inv(2) [symmetric] e(2,4) _ demo_online(1),
        of "\<lambda>_. demo_tm"] demo_db_inv e(1,3) d(1) by auto
  moreover have "replicate 3 ?a = [?a, ?a, ?a]" by (simp add: numeral_eq_Suc)
  ultimately show ?thesis unfolding rounds_def by metis
qed

text \<open>
  C3: started from the static state, the service never takes the early \<^verbatim>\<open>return -1\<close> of its alarm loop, whatever
  the settings file, the database, the cameras, the events and the results of writing are, because every camera
  in the table has a phone list; and the ring and the camera table are well formed whenever it still runs or has
  ended normally, even after an overflow of the ring.
\<close>

theorem service_never_exits:
  assumes "st_db st0 = db_static" "st_hik st0 = hik_static"
  shows "main env port0 localtime wr rounds st0 \<noteq> Exit n \<and>
    (main env port0 localtime wr rounds st0 = Ok (r, st') \<longrightarrow> ring_inv (st_hik st') \<and> db_inv (st_db st'))"
  using main_keeps [OF assms] by (auto simp: service_inv_def)

theorem service_never_exits_witness:
  "\<exists>st'. main demo_env 0 (\<lambda>_. demo_tm) (\<lambda>k n. 0) [([Alarm cam_event, Signal 15], \<lambda>_. [])] demo_start = Ok (Some 0, st') \<and>
     ring_inv (st_hik st') \<and> db_inv (st_db st')"
proof -
  let ?es = "[Alarm cam_event, Signal 15]"
  have d: "st_db demo_start = db_static" "st_hik demo_start = hik_static" by (simp_all add: demo_start_def)
  obtain st where st: "start_service demo_env 0 demo_start = Ok st" using demo_start_ok by blast
  have "service_inv st" using start_service_inv [OF d(1) _ st] d(2) by simp
  then obtain st1 where "apply_events ?es st = Ok st1" "\<not> ServiceRun st1"
    using apply_events_Ok [of st ?es] by (auto simp: SIGTERM_def)
  then have "service_loop (\<lambda>_. demo_tm) (\<lambda>k n. 0) [(?es, \<lambda>_. [])] st = Ok (True, st1)" by simp
  then obtain st' where "main demo_env 0 (\<lambda>_. demo_tm) (\<lambda>k n. 0) [(?es, \<lambda>_. [])] demo_start = Ok (Some 0, st')"
    using st by (simp add: main_def end_service_def Close_def DeinitialSDK_def del: service_loop.simps)
  then show ?thesis using service_never_exits [OF d] by blast
qed

text \<open>
  C4: \<^verbatim>\<open>SIGTERM\<close> ends the service at the next test of its flag: whatever would follow has no effect, and unless
  the process has been ended by an exception or an overrun before, \<^verbatim>\<open>main\<close> removes the PID file, closes the port,
  cleans up the SDK and returns 0.
\<close>

theorem sigterm_stops:
  assumes "st_db st0 = db_static" "st_hik st0 = hik_static" "Signal SIGTERM \<in> set es"
  shows "main env port0 localtime wr (pre @ (es, evs) # post) st0 = main env port0 localtime wr (pre @ [(es, \<lambda>_. [])]) st0 \<and>
    (main env port0 localtime wr (pre @ (es, evs) # post) st0 \<in> {Abort, Undefined} \<or>
     (\<exists>st' calls closed. main env port0 localtime wr (pre @ (es, evs) # post) st0 = Ok (Some 0, st') \<and>
        st_pid st' = None \<and> st_sdk st' = calls @ [CallCleanup] \<and> st_closed st' = closed @ [fd (st_port st'), fd (st_port st')]))"
  using main_stops [OF assms refl] by blast

theorem sigterm_stops_witness:
  "main demo_env 0 (\<lambda>_. demo_tm) (\<lambda>k n. 0) [([], \<lambda>_. []), ([Alarm cam_event, Signal 15], \<lambda>_. []), ([], \<lambda>_. [])] demo_start =
   main demo_env 0 (\<lambda>_. demo_tm) (\<lambda>k n. 0) [([], \<lambda>_. []), ([Alarm cam_event, Signal 15], \<lambda>_. [])] demo_start"
  using sigterm_stops [of demo_start "[Alarm cam_event, Signal 15]" demo_env 0 "\<lambda>_. demo_tm" "\<lambda>k n. 0" "[([], \<lambda>_. [])]" "\<lambda>_. []"
      "[([], \<lambda>_. [])]"] by (simp add: demo_start_def SIGTERM_def)

text \<open>
  C5: a phone list that ends in a comma has an empty last number; its message has no bytes, the \<^verbatim>\<open>write\<close> of no
  bytes is taken for an error, and the error path discards the output that the modem has not sent yet: the
  message to the number before it can be lost.
\<close>

theorem trailing_comma_discards:
  assumes "online wr st" "CHR '','' \<notin> set num" "sendable (dt, ip, name, num)"
  shows "ExtractPhoneNumber (num @ '','') [] = [num, []] \<and>
    (\<exists>st'. phone_loop wr dt ip name (ExtractPhoneNumber (num @ '','') []) st = Ok st' \<and> modem_queue st' = [])"
proof -
  have e: "ExtractPhoneNumber (num @ '','') [] = [num, []]"
    using ExtractPhone_loop_join [of "[num, []]" "[]"] assms(2) by (simp add: ExtractPhoneNumber_def)
  have "list_all sendable (map (\<lambda>p. (dt, ip, name, p)) [num, []])"
    using assms(3) by (simp add: sendable_def job_message_def PackMsgToAlarm_def)
  then obtain st' where "phone_loop wr dt ip name [num, []] st = Ok st'"
    "modem_queue st' = foldl send_effect (modem_queue st) (map (\<lambda>p. (dt, ip, name, p)) [num, []])"
    using phone_loop_sends [of wr dt ip name "[num, []]" st] assms(1) by (auto simp: sends_Ok)
  then show ?thesis
    unfolding e by (simp add: send_effect_def job_message_def PackMsgToAlarm_def)
qed

theorem trailing_comma_discards_witness:
  "\<exists>st'. phone_loop (\<lambda>k n. int n) ''2020-1-1 8:0:0'' ''10.0.0.7'' ''Gate'' (ExtractPhoneNumber ''13800000001,'' []) demo_service = Ok st' \<and>
     modem_queue st' = []"
proof -
  have "CHR '','' \<notin> set ''13800000001''" "''13800000001,'' = ''13800000001'' @ '',''" by simp_all
  then show ?thesis using trailing_comma_discards [OF demo_online(1) _ demo_sendable(1)] by metis
qed

text \<open>
  C16: for a number of eleven characters, sending writes outside the 512-byte array exactly when the converted
  date, name and address have more than 388 digits together; nothing checks the length. A camera name of
  64 characters is enough.
\<close>

theorem send_alarm_overflows_iff:
  assumes "ip \<noteq> []" "length phone = 11"
  shows "send_alarm wr dt ip name phone st = Undefined \<longleftrightarrow>
    388 < length (ConvertToUtf16Be dt []) + length (ConvertToUtf16Be name []) + length (ConvertToUtf16Be ip [])"
  using PackMsgToAlarm_fields [OF assms, of dt name] assms(2)
  by (auto simp: send_alarm_def Let_def split: prod.split)

theorem send_alarm_overflows_iff_witness:
  "send_alarm (\<lambda>k n. 0) ''2020-12-31 18:30:30'' ''192.168.100.101'' (replicate 64 CHR ''x'') ''13800000001'' demo_service = Undefined"
proof -
  have "388 < length (ConvertToUtf16Be ''2020-12-31 18:30:30'' []) + length (ConvertToUtf16Be (replicate 64 CHR ''x'') []) +
      length (ConvertToUtf16Be ''192.168.100.101'' [])"
    by code_simp
  then show ?thesis
    using send_alarm_overflows_iff [of "''192.168.100.101''" "''13800000001''" "\<lambda>k n. 0" "''2020-12-31 18:30:30''"
        "replicate 64 CHR ''x''" demo_service] by simp
qed

end
